(* ===== verification/Prelude.thy ===== *)
theory Prelude
  imports Main "HOL-Library.Word"
begin

text \<open>
  The shared layer of the development: the machine-integer types of the C code,
  the counted \<open>for\<close> loop with its invariant rules, the reading of words as integers,
  little and big endian byte strings, and the list lemmas that several components use.

  A C loop \<open>for (i = lo; i < hi; i++)\<close> whose body neither breaks nor returns is
  \<open>for_up lo hi body s\<close>: the state \<open>s\<close> holds the variables the body assigns.
  \<open>for (i = hi - 1; i >= lo; i--)\<close> is \<open>for_down\<close>. Both run on closed terms, and
  \<open>for_up_inv\<close> and \<open>for_down_inv\<close> are their Hoare rules.
\<close>

unbundle bit_operations_syntax

section \<open>Types\<close>

type_synonym u8 = "8 word"
type_synonym u32 = "32 word"
type_synonym u64 = "64 word"

text \<open>The bytes of a C string, without the terminating zero.\<close>

definition str_bytes :: "string \<Rightarrow> u8 list" where
  "str_bytes s = map (\<lambda>c. of_nat (of_char c)) s"

section \<open>Counted loops\<close>

definition for_up :: "nat \<Rightarrow> nat \<Rightarrow> (nat \<Rightarrow> 's \<Rightarrow> 's) \<Rightarrow> 's \<Rightarrow> 's" where
  "for_up lo hi body s = fold body [lo..<hi] s"

definition for_down :: "nat \<Rightarrow> nat \<Rightarrow> (nat \<Rightarrow> 's \<Rightarrow> 's) \<Rightarrow> 's \<Rightarrow> 's" where
  "for_down hi lo body s = fold body (rev [lo..<hi]) s"

lemma for_up_empty [simp]: "hi \<le> lo \<Longrightarrow> for_up lo hi body s = s"
  by (simp add: for_up_def)

lemma for_up_step: "lo < hi \<Longrightarrow> for_up lo hi body s = for_up (Suc lo) hi body (body lo s)"
  by (simp add: for_up_def upt_conv_Cons)

lemma for_up_last: "lo \<le> hi \<Longrightarrow> for_up lo (Suc hi) body s = body hi (for_up lo hi body s)"
  by (simp add: for_up_def)

lemma for_down_empty [simp]: "hi \<le> lo \<Longrightarrow> for_down hi lo body s = s"
  by (simp add: for_down_def)

lemma for_down_step: "lo \<le> hi \<Longrightarrow> for_down (Suc hi) lo body s = for_down hi lo body (body hi s)"
  by (simp add: for_down_def)

lemma for_up_const: "for_up lo hi (\<lambda>_. f) s = (f ^^ (hi - lo)) s"
proof (induction hi)
  case (Suc hi)
  then show ?case by (cases "lo \<le> hi") (simp_all add: for_up_last Suc_diff_le)
qed simp

lemma for_up_inv:
  assumes "lo \<le> hi" and "P lo s"
    and step: "\<And>i s. lo \<le> i \<Longrightarrow> i < hi \<Longrightarrow> P i s \<Longrightarrow> P (Suc i) (body i s)"
  shows "P hi (for_up lo hi body s)"
  using assms(1) step
proof (induction hi rule: dec_induct)
  case base
  then show ?case using assms(2) by simp
next
  case (step n)
  have "P n (for_up lo n body s)"
    by (rule step.IH) (use step.prems step.hyps in auto)
  then show ?case
    using step.prems step.hyps by (simp add: for_up_last)
qed

lemma for_down_inv:
  assumes "lo \<le> hi" and "P hi s"
    and "\<And>i s. lo \<le> i \<Longrightarrow> i < hi \<Longrightarrow> P (Suc i) s \<Longrightarrow> P i (body i s)"
  shows "P lo (for_down hi lo body s)"
  using assms
proof (induction hi arbitrary: s rule: dec_induct)
  case base
  then show ?case by simp
next
  case (step n)
  have "P lo (for_down n lo body (body n s))"
  proof (rule step.IH)
    show "P n (body n s)" using step.prems step.hyps by auto
    show "\<And>i s. lo \<le> i \<Longrightarrow> i < n \<Longrightarrow> P (Suc i) s \<Longrightarrow> P i (body i s)"
      using step.prems by auto
  qed
  then show ?case using step.hyps by (simp add: for_down_step)
qed

lemma for_up_cong:
  assumes "\<And>i s. lo \<le> i \<Longrightarrow> i < hi \<Longrightarrow> f i s = g i s"
  shows "for_up lo hi f s = for_up lo hi g s"
  unfolding for_up_def by (rule fold_cong) (use assms in auto)

section \<open>Words read as integers\<close>

text \<open>
  \<open>word_int\<close> collects the equations that turn a word operation into integer arithmetic
  when nothing wraps; the component proofs call \<open>simp add: word_int\<close> on small goals.
\<close>

named_theorems word_int

lemma uint_add_nowrap: "uint x + uint y < 2 ^ LENGTH('a) \<Longrightarrow> uint (x + y) = uint x + uint y"
  for x y :: "'a::len word"
  by (simp add: uint_plus_if')

lemma uint_mult_nowrap: "uint x * uint y < 2 ^ LENGTH('a) \<Longrightarrow> uint (x * y) = uint x * uint y"
  for x y :: "'a::len word"
  by (simp add: uint_word_ariths)

lemma uint_sub_nowrap: "uint y \<le> uint x \<Longrightarrow> uint (x - y) = uint x - uint y"
  for x y :: "'a::len word"
  by (simp add: uint_sub_if')

lemma uint_word_of_int_mod: "uint (word_of_int n :: 'a::len word) = n mod 2 ^ LENGTH('a)"
  by (simp add: uint_word_of_int)

lemma uint_drop_bit: "uint (drop_bit n w) = uint w div 2 ^ n"
  for w :: "'a::len word"
proof -
  have "uint (drop_bit n w) = drop_bit n (uint w)"
    by (rule bit_eqI) (auto simp: bit_unsigned_iff bit_drop_bit_eq dest: bit_imp_le_length)
  then show ?thesis by (simp add: drop_bit_eq_div)
qed

lemma and_mask_take_bit: "w AND mask n = take_bit n w"
  for w :: "'a::len word"
  by (simp add: take_bit_eq_mask)

lemma uint_take_bit: "uint (take_bit n w) = uint w mod 2 ^ n"
  for w :: "'a::len word"
  by (simp add: unsigned_take_bit_eq flip: take_bit_eq_mod)

lemma and_30bit: "w AND 0x3FFFFFFF = take_bit 30 w"
  for w :: "'a::len word"
  by (simp add: mask_numeral flip: and_mask_take_bit)

lemma and_8bit: "w AND 0xFF = take_bit 8 w"
  for w :: "'a::len word"
  by (simp add: mask_numeral flip: and_mask_take_bit)

lemma uint_and_30bit [word_int]: "uint (w AND 0x3FFFFFFF) = uint w mod 2 ^ 30"
  for w :: "'a::len word"
  by (simp only: and_30bit uint_take_bit)

lemma uint_ucast_up [word_int]:
  "LENGTH('a) \<le> LENGTH('b) \<Longrightarrow> uint (ucast (x :: 'a::len word) :: 'b::len word) = uint x"
  by (simp add: unsigned_ucast_eq take_bit_int_eq_self_iff uint_lt2p[THEN order.strict_trans2])

lemma uint_ucast: "uint (ucast (x :: 'a::len word) :: 'b::len word) = uint x mod 2 ^ LENGTH('b)"
  by (simp add: unsigned_ucast_eq take_bit_eq_mod)

lemma uint_div_nonneg [simp]: "0 \<le> uint w div numeral k"
  for w :: "'a::len word"
  by (simp add: pos_imp_zdiv_nonneg_iff)

lemma uint_lt_u32: "uint (x :: u32) < 4294967296"
  using uint_lt2p[of x] by simp

lemma uint_lt_u64: "uint (x :: u64) < 18446744073709551616"
  using uint_lt2p[of x] by simp

lemma uint_lt_u8: "uint (x :: u8) < 256"
  using uint_lt2p[of x] by simp

lemma xor_eq_0_iff [simp]: "x XOR y = 0 \<longleftrightarrow> x = y"
  for x y :: "'a::len word"
  by (metis xor.assoc xor.left_neutral xor_self_eq)

lemma uint_eq_0_iff: "uint x = 0 \<longleftrightarrow> x = 0"
  for x :: "'a::len word"
  by (simp add: word_uint_eq_iff)

text \<open>
  To read a word expression that does not wrap: push \<open>word_of_int\<close> outwards with \<open>simp\<close>,
  then bound the integer with \<open>linarith\<close> from the bounds of its parts.
\<close>

lemma len32: "(2 :: int) ^ LENGTH(32) = 4294967296" "(2 :: int) ^ 30 = 1073741824"
    "(2 :: int) ^ 32 = 4294967296"
  by simp_all

lemma len64: "(2 :: int) ^ LENGTH(64) = 18446744073709551616" "(2 :: int) ^ 30 = 1073741824"
    "(2 :: int) ^ 64 = 18446744073709551616"
  by simp_all

lemma uint_eqI: "x = word_of_int n \<Longrightarrow> 0 \<le> n \<Longrightarrow> n < 2 ^ LENGTH('a) \<Longrightarrow> uint x = n"
  for x :: "'a::len word"
  by (simp add: uint_word_of_int)

text \<open>Two words whose bits do not overlap: \<open>OR\<close> is addition.\<close>

lemma uint_or_add:
  fixes x y :: "'a::len word"
  assumes x: "uint x < 2 ^ n" and y: "uint y mod 2 ^ n = 0"
  shows "uint (x OR y) = uint x + uint y"
proof -
  have "take_bit n (uint x) = uint x" using x by (simp add: take_bit_int_eq_self)
  moreover have "push_bit n (uint y div 2 ^ n) = uint y"
    using y by (simp add: push_bit_eq_mult mod_0_imp_dvd)
  moreover have "take_bit n a AND push_bit n b = 0" for a b :: int
    by (auto simp: bit_eq_iff bit_simps)
  ultimately have "uint x AND uint y = 0" by metis
  then have "uint x + uint y = uint x OR uint y" by (rule disjunctive_add_eq_or)
  then show ?thesis by (simp add: unsigned_or_eq)
qed

lemma uint_push_bit: "uint (push_bit n w) = (uint w * 2 ^ n) mod 2 ^ LENGTH('a)"
  for w :: "'a::len word"
  by (subst unsigned_push_bit_eq) (simp only: take_bit_eq_mod push_bit_eq_mult)

lemma div_ltI: "x < a * b \<Longrightarrow> 0 < b \<Longrightarrow> x div b < a"
  for x :: int
proof (rule ccontr)
  assume b: "0 < b" and x: "x < a * b" and "\<not> x div b < a"
  then have "a * b \<le> x div b * b" by simp
  also have "\<dots> \<le> x" using b by (simp add: div_times_less_eq_dividend minus_mod_eq_div_mult[symmetric])
  finally show False using x by simp
qed

lemma sint_small_u8: "0 \<le> n \<Longrightarrow> n < 128 \<Longrightarrow> sint (word_of_int n :: u8) = n"
  by (subst sint_sbintrunc') (simp add: signed_take_bit_int_eq_self)

section \<open>Byte strings as integers\<close>

definition be_val :: "u8 list \<Rightarrow> int" where
  "be_val bs = foldl (\<lambda>a b. 256 * a + uint b) 0 bs"

definition le_val :: "u8 list \<Rightarrow> int" where
  "le_val bs = be_val (rev bs)"

lemma be_val_Nil [simp]: "be_val [] = 0"
  by (simp add: be_val_def)

lemma be_val_snoc [simp]: "be_val (bs @ [b]) = 256 * be_val bs + uint b"
  by (simp add: be_val_def)

lemma be_val_append: "be_val (xs @ ys) = be_val xs * 256 ^ length ys + be_val ys"
  by (induction ys rule: rev_induct) (simp_all add: append_assoc[symmetric] del: append_assoc)

lemma be_val_Cons: "be_val (b # bs) = uint b * 256 ^ length bs + be_val bs"
  using be_val_append[of "[b]" bs] be_val_snoc[of "[]" b] by simp

lemma be_val_nonneg [simp]: "0 \<le> be_val bs"
  by (induction bs rule: rev_induct) simp_all

lemma be_val_lt: "be_val bs < 256 ^ length bs"
proof (induction bs rule: rev_induct)
  case (snoc b bs)
  then have "256 * (be_val bs + 1) \<le> 256 * 256 ^ length bs" by simp
  then show ?case using uint_lt_u8[of b] by simp
qed simp

lemma be_val_inj: "length xs = length ys \<Longrightarrow> be_val xs = be_val ys \<Longrightarrow> xs = ys"
proof (induction xs arbitrary: ys rule: rev_induct)
  case (snoc x xs)
  obtain zs z where ys: "ys = zs @ [z]" using snoc.prems(1) by (cases ys rule: rev_cases) auto
  have eq: "256 * be_val xs + uint x = 256 * be_val zs + uint z" using snoc.prems(2) by (simp add: ys)
  have "uint x = (256 * be_val xs + uint x) mod 256" using uint_lt_u8[of x] by simp
  also have "\<dots> = uint z" unfolding eq using uint_lt_u8[of z] by simp
  finally have "uint x = uint z" .
  with eq snoc show ?case by (simp add: ys word_uint_eq_iff)
qed simp

section \<open>Lists\<close>

lemma list_eq_upt: "length xs = n \<Longrightarrow> xs = map ((!) xs) [0..<n]"
  using map_nth[of xs] by simp

lemma drop_eq_Cons: "i < length xs \<Longrightarrow> drop i xs = xs ! i # drop (Suc i) xs"
  by (simp add: Cons_nth_drop_Suc)

end
