(* ===== verification/Bignum.thy ===== *)
theory Bignum
  imports Prelude
begin

text \<open>
  The 256-bit integers of \<open>trezor-crypto/src/bignum.c\<close>: nine 32-bit limbs in base
  \<open>2^30\<close>. This theory holds the data type, the conversions from and to byte strings and
  machine integers, comparison, selection, shifts, bits, and the additive operations;
  \<open>BignumMul\<close> holds multiplication and the modular operations, \<open>BignumDiv\<close> the
  division by small constants and the decimal formatter.

  Every operation is the C loop over its limb array. A pointer that the code only writes is
  the result; one that it reads and writes is an argument and the result. The value of a
  number is \<open>bn_val\<close>, and each operation is related to integer arithmetic through it.
\<close>

unbundle bit_operations_syntax

section \<open>Data\<close>

record bignum256 =
  val :: "u32 list"

definition bn_wf :: "bignum256 \<Rightarrow> bool" where
  "bn_wf a \<longleftrightarrow> length (val a) = 9"

fun limbs_val :: "u32 list \<Rightarrow> int" where
  "limbs_val [] = 0"
| "limbs_val (x # xs) = uint x + 2 ^ 30 * limbs_val xs"

definition bn_val :: "bignum256 \<Rightarrow> int" where
  "bn_val a = limbs_val (val a)"

definition bn_normalized :: "bignum256 \<Rightarrow> bool" where
  "bn_normalized a \<longleftrightarrow> bn_wf a \<and> (\<forall>x\<in>set (val a). uint x < 2 ^ 30)"

section \<open>Operations\<close>

subsection \<open>Bytes and machine words\<close>

definition read_be :: "u8 list \<Rightarrow> u32" where
  "read_be data =
     push_bit 24 (ucast (data ! 0)) OR push_bit 16 (ucast (data ! 1)) OR
     push_bit 8 (ucast (data ! 2)) OR ucast (data ! 3)"

definition write_be :: "u32 \<Rightarrow> u8 list" where
  "write_be x = [ucast (drop_bit 24 x), ucast (drop_bit 16 x), ucast (drop_bit 8 x), ucast x]"

definition read_le :: "u8 list \<Rightarrow> u32" where
  "read_le data =
     push_bit 24 (ucast (data ! 3)) OR push_bit 16 (ucast (data ! 2)) OR
     push_bit 8 (ucast (data ! 1)) OR ucast (data ! 0)"

definition write_le :: "u32 \<Rightarrow> u8 list" where
  "write_le x = [ucast x, ucast (drop_bit 8 x), ucast (drop_bit 16 x), ucast (drop_bit 24 x)]"

definition bn_read_be :: "u8 list \<Rightarrow> bignum256" where
  "bn_read_be in_number =
     (let (temp, v) = for_up 0 8 (\<lambda>i (temp, v).
            let limb = read_be (drop ((7 - i) * 4) in_number);
                temp = temp OR push_bit (2 * i) limb
            in (drop_bit (30 - 2 * i) limb, v[i := temp AND 0x3FFFFFFF]))
          (0, replicate 9 0)
      in \<lparr>val = v[8 := temp]\<rparr>)"

definition bn_write_be :: "bignum256 \<Rightarrow> u8 list" where
  "bn_write_be in_number =
     snd (for_up 0 8 (\<lambda>i (temp, out).
            let limb = val in_number ! (7 - i);
                temp = push_bit (16 + 2 * i) temp OR drop_bit (14 - 2 * i) limb
            in (limb, out @ write_be temp))
          (val in_number ! 8, []))"

definition bn_read_le :: "u8 list \<Rightarrow> bignum256" where
  "bn_read_le in_number =
     (let (temp, v) = for_up 0 8 (\<lambda>i (temp, v).
            let limb = read_le (drop (i * 4) in_number);
                temp = temp OR push_bit (2 * i) limb
            in (drop_bit (30 - 2 * i) limb, v[i := temp AND 0x3FFFFFFF]))
          (0, replicate 9 0)
      in \<lparr>val = v[8 := temp]\<rparr>)"

text \<open>\<open>bn_write_le\<close> fills the buffer from its end: block \<open>7 - i\<close> in iteration \<open>i\<close>.\<close>

definition bn_write_le :: "bignum256 \<Rightarrow> u8 list" where
  "bn_write_le in_number =
     snd (for_up 0 8 (\<lambda>i (temp, out).
            let limb = val in_number ! (7 - i);
                temp = push_bit (16 + 2 * i) temp OR drop_bit (14 - 2 * i) limb
            in (limb, write_le temp @ out))
          (val in_number ! 8, []))"

definition bn_read_uint32 :: "u32 \<Rightarrow> bignum256" where
  "bn_read_uint32 n = \<lparr>val = [n AND 0x3FFFFFFF, drop_bit 30 n, 0, 0, 0, 0, 0, 0, 0]\<rparr>"

definition bn_read_uint64 :: "u64 \<Rightarrow> bignum256" where
  "bn_read_uint64 n = \<lparr>val = [ucast (n AND 0x3FFFFFFF), ucast (drop_bit 30 n AND 0x3FFFFFFF),
      ucast (drop_bit 30 (drop_bit 30 n)), 0, 0, 0, 0, 0, 0]\<rparr>"

definition bn_write_uint32 :: "bignum256 \<Rightarrow> u32" where
  "bn_write_uint32 a = val a ! 0 OR push_bit 30 (val a ! 1)"

definition bn_write_uint64 :: "bignum256 \<Rightarrow> u64" where
  "bn_write_uint64 a =
     (let tmp = ucast (val a ! 2);
          tmp = push_bit 30 tmp;
          tmp = tmp OR ucast (val a ! 1);
          tmp = push_bit 30 tmp
      in tmp OR ucast (val a ! 0))"

subsection \<open>Constants, tests, selection\<close>

definition bn_zero :: bignum256 where
  "bn_zero = \<lparr>val = replicate 9 0\<rparr>"

definition bn_one :: bignum256 where
  "bn_one = \<lparr>val = [1, 0, 0, 0, 0, 0, 0, 0, 0]\<rparr>"

definition bn_is_zero :: "bignum256 \<Rightarrow> bool" where
  "bn_is_zero a = (for_up 0 9 (\<lambda>i result. result OR val a ! i) 0 = 0)"

definition bn_is_even :: "bignum256 \<Rightarrow> bool" where
  "bn_is_even a \<longleftrightarrow> (val a ! 0) AND 1 = 0"

definition bn_is_odd :: "bignum256 \<Rightarrow> bool" where
  "bn_is_odd a \<longleftrightarrow> (val a ! 0) AND 1 = 1"

definition bn_is_less :: "bignum256 \<Rightarrow> bignum256 \<Rightarrow> bool" where
  "bn_is_less a b =
     (let (res1, res2) = for_down 9 0 (\<lambda>i (res1 :: u32, res2 :: u32).
            (push_bit 1 res1 OR of_bool (val a ! i < val b ! i),
             push_bit 1 res2 OR of_bool (val a ! i > val b ! i))) (0, 0)
      in res1 > res2)"

definition bn_is_equal :: "bignum256 \<Rightarrow> bignum256 \<Rightarrow> bool" where
  "bn_is_equal a b = (for_up 0 9 (\<lambda>i result. result OR (val a ! i XOR val b ! i)) 0 = 0)"

text \<open>
  The condition is a C \<open>int\<close>; the code asserts that it is 0 or 1 and builds the masks from
  \<open>-cond\<close>. Aborting on a failed assertion is not modelled here: the facts about
  \<open>bn_cmov\<close> are stated for the two values.
\<close>

definition bn_cmov :: "int \<Rightarrow> bignum256 \<Rightarrow> bignum256 \<Rightarrow> bignum256" where
  "bn_cmov cond truecase falsecase =
     (let tmask = (word_of_int (- cond) :: u32); fmask = NOT tmask
      in \<lparr>val = for_up 0 9 (\<lambda>i v. v[i := (val truecase ! i AND tmask) OR
                                          (val falsecase ! i AND fmask)]) (replicate 9 0)\<rparr>)"

subsection \<open>Shifts and bits\<close>

definition bn_lshift :: "bignum256 \<Rightarrow> bignum256" where
  "bn_lshift a =
     (let v = for_down 9 1 (\<lambda>i v. v[i := (push_bit 1 (v ! i) AND 0x3FFFFFFF) OR
                                          drop_bit 29 (v ! (i - 1) AND 0x20000000)]) (val a)
      in a\<lparr>val := v[0 := push_bit 1 (v ! 0) AND 0x3FFFFFFF]\<rparr>)"

definition bn_rshift :: "bignum256 \<Rightarrow> bignum256" where
  "bn_rshift a =
     (let v = for_up 0 8 (\<lambda>i v. v[i := drop_bit 1 (v ! i) OR
                                        push_bit 29 (v ! (i + 1) AND 1)]) (val a)
      in a\<lparr>val := v[8 := drop_bit 1 (v ! 8)]\<rparr>)"

definition bn_setbit :: "bignum256 \<Rightarrow> u8 \<Rightarrow> bignum256" where
  "bn_setbit a b = (let k = unat b in
     a\<lparr>val := (val a)[k div 30 := val a ! (k div 30) OR push_bit (k mod 30) 1]\<rparr>)"

definition bn_clearbit :: "bignum256 \<Rightarrow> u8 \<Rightarrow> bignum256" where
  "bn_clearbit a b = (let k = unat b in
     a\<lparr>val := (val a)[k div 30 := val a ! (k div 30) AND NOT (push_bit (k mod 30) 1)]\<rparr>)"

definition bn_testbit :: "bignum256 \<Rightarrow> u8 \<Rightarrow> u32" where
  "bn_testbit a b = (let k = unat b in val a ! (k div 30) AND push_bit (k mod 30) 1)"

definition bn_xor :: "bignum256 \<Rightarrow> bignum256 \<Rightarrow> bignum256" where
  "bn_xor b c = \<lparr>val = for_up 0 9 (\<lambda>i v. v[i := val b ! i XOR val c ! i]) (replicate 9 0)\<rparr>"

text \<open>The position of the highest set bit of a word, \<open>32 - __builtin_clz\<close>.\<close>

definition bit_width :: "u32 \<Rightarrow> nat" where
  "bit_width x = for_up 0 32 (\<lambda>k w. if bit x k then Suc k else w) 0"

definition bn_bitcount :: "bignum256 \<Rightarrow> nat" where
  "bn_bitcount a =
     (case find (\<lambda>i. val a ! i \<noteq> 0) (rev [0..<9]) of
        None \<Rightarrow> 0
      | Some i \<Rightarrow> i * 30 + bit_width (val a ! i))"

subsection \<open>Addition and subtraction\<close>

definition bn_add :: "bignum256 \<Rightarrow> bignum256 \<Rightarrow> bignum256" where
  "bn_add a b = a\<lparr>val := snd (for_up 0 9 (\<lambda>i (tmp, v).
      let tmp = tmp + (v ! i + val b ! i)
      in (drop_bit 30 tmp, v[i := tmp AND 0x3FFFFFFF])) (0, val a))\<rparr>"

definition bn_addi :: "bignum256 \<Rightarrow> u32 \<Rightarrow> bignum256" where
  "bn_addi a b = a\<lparr>val := snd (for_up 0 9 (\<lambda>i (tmp, v).
      let tmp = tmp + v ! i
      in (drop_bit 30 tmp, v[i := tmp AND 0x3FFFFFFF])) (b, val a))\<rparr>"

definition bn_normalize :: "bignum256 \<Rightarrow> bignum256" where
  "bn_normalize a = bn_addi a 0"

definition bn_subi :: "bignum256 \<Rightarrow> u32 \<Rightarrow> bignum256 \<Rightarrow> bignum256" where
  "bn_subi a b prime = bn_add (a\<lparr>val := (val a)[0 := val a ! 0 - b]\<rparr>) prime"

definition bn_subtractmod :: "bignum256 \<Rightarrow> bignum256 \<Rightarrow> bignum256 \<Rightarrow> bignum256" where
  "bn_subtractmod a b prime = \<lparr>val = snd (for_up 0 9 (\<lambda>i (temp, v).
      let temp = temp + (0x3FFFFFFF + val a ! i + 2 * val prime ! i - val b ! i)
      in (drop_bit 30 temp, v[i := temp AND 0x3FFFFFFF])) (1, replicate 9 0))\<rparr>"

definition bn_subtract :: "bignum256 \<Rightarrow> bignum256 \<Rightarrow> bignum256" where
  "bn_subtract a b = \<lparr>val = snd (for_up 0 9 (\<lambda>i (tmp, v).
      let tmp = tmp + (0x3FFFFFFF + val a ! i - val b ! i)
      in (drop_bit 30 tmp, v[i := tmp AND 0x3FFFFFFF])) (1, replicate 9 0))\<rparr>"

section \<open>The value of a limb list\<close>

lemma limbs_val_append: "limbs_val (xs @ ys) = limbs_val xs + 2 ^ (30 * length xs) * limbs_val ys"
  by (induction xs) (simp_all add: algebra_simps power_add)

lemma limbs_val_nonneg [simp]: "0 \<le> limbs_val xs"
  by (induction xs) simp_all

lemma limbs_val_sum: "limbs_val xs = (\<Sum>k<length xs. uint (xs ! k) * 2 ^ (30 * k))"
proof (induction xs rule: rev_induct)
  case Nil
  then show ?case by simp
next
  case (snoc x xs)
  have "(\<Sum>k<length xs. uint ((xs @ [x]) ! k) * 2 ^ (30 * k)) = limbs_val xs"
    unfolding snoc.IH by (rule sum.cong) (simp_all add: nth_append)
  then show ?case by (simp add: limbs_val_append)
qed

lemma limbs_val_upper: "\<forall>x\<in>set xs. uint x < 2 ^ 30 \<Longrightarrow> limbs_val xs < 2 ^ (30 * length xs)"
proof (induction xs)
  case Nil
  then show ?case by simp
next
  case (Cons x xs)
  then have "2 ^ 30 * (limbs_val xs + 1) \<le> 2 ^ 30 * (2 ^ (30 * length xs))" and "uint x < 2 ^ 30"
    by simp_all
  then have "uint x + 2 ^ 30 * limbs_val xs < 2 ^ 30 * (2 ^ (30 * length xs))"
    by (simp only: distrib_left)
  then show ?case by (simp add: power_add)
qed

lemma limbs_val_eq_iff:
  "length xs = length ys \<Longrightarrow> \<forall>x\<in>set xs. uint x < 2 ^ 30 \<Longrightarrow> \<forall>x\<in>set ys. uint x < 2 ^ 30 \<Longrightarrow>
   limbs_val xs = limbs_val ys \<longleftrightarrow> xs = ys"
proof (induction xs ys rule: list_induct2)
  case Nil
  then show ?case by simp
next
  case (Cons x xs y ys)
  have "uint x = uint y \<and> limbs_val xs = limbs_val ys"
    if eq: "uint x + 2 ^ 30 * limbs_val xs = uint y + 2 ^ 30 * limbs_val ys"
  proof -
    have "uint x = (uint x + 2 ^ 30 * limbs_val xs) mod 2 ^ 30" using Cons.prems by simp
    also have "\<dots> = uint y" using Cons.prems by (simp only: eq) simp
    finally show ?thesis using eq by simp
  qed
  moreover have "limbs_val xs = limbs_val ys \<longleftrightarrow> xs = ys"
    using Cons.prems by (intro Cons.IH) simp_all
  ultimately show ?case by (auto simp: word_uint_eq_iff)
qed

lemma bn_val_nonneg [simp]: "0 \<le> bn_val a"
  by (simp add: bn_val_def)

lemma bn_val_sum: "bn_wf a \<Longrightarrow> bn_val a = (\<Sum>k<9. uint (val a ! k) * 2 ^ (30 * k))"
  by (simp add: bn_val_def bn_wf_def limbs_val_sum)

lemma bn_val_lt: "bn_normalized a \<Longrightarrow> bn_val a < 2 ^ 270"
  using limbs_val_upper[of "val a"] by (simp add: bn_normalized_def bn_wf_def bn_val_def)

lemma bn_wf_len [simp]: "bn_wf a \<Longrightarrow> length (val a) = 9"
  by (simp add: bn_wf_def)

lemma bn_normalized_wf [simp]: "bn_normalized a \<Longrightarrow> bn_wf a"
  by (simp add: bn_normalized_def)

lemma bn_normalized_len [simp]: "bn_normalized a \<Longrightarrow> length (val a) = 9"
  by (simp add: bn_normalized_def bn_wf_def)

lemma bn_limb_lt: "bn_normalized a \<Longrightarrow> k < 9 \<Longrightarrow> uint (val a ! k) < 2 ^ 30"
  by (auto simp: bn_normalized_def)

lemma bn_normalized_eq: "bn_normalized a \<Longrightarrow> bn_normalized b \<Longrightarrow> bn_val a = bn_val b \<longleftrightarrow> a = b"
  unfolding bn_normalized_def bn_val_def bn_wf_def
  using limbs_val_eq_iff[of "val a" "val b"] by (cases a; cases b) auto

section \<open>Carry propagation\<close>

text \<open>
  All additive loops of the file have one shape: limb \<open>i\<close> gets the low 30 bits of
  carry plus digit \<open>D i\<close>, and the rest is the next carry. \<open>carry_inv\<close> is their common
  loop invariant, \<open>carry_inv_step\<close> its step for an accumulator of any width, and
  \<open>carry_inv_result\<close> what it says after the ninth limb.
\<close>

definition carry_inv :: "(nat \<Rightarrow> int) \<Rightarrow> int \<Rightarrow> u32 list \<Rightarrow> nat \<Rightarrow> int \<Rightarrow> u32 list \<Rightarrow> bool" where
  "carry_inv D t0 v0 i t v \<longleftrightarrow>
     length v = 9 \<and> (\<forall>k. i \<le> k \<longrightarrow> v ! k = v0 ! k) \<and> (\<forall>k<i. uint (v ! k) < 2 ^ 30) \<and>
     limbs_val (take i v) + t * 2 ^ (30 * i) = t0 + (\<Sum>k<i. D k * 2 ^ (30 * k))"

lemma carry_inv_init: "length v = 9 \<Longrightarrow> carry_inv D t v 0 t v"
  by (simp add: carry_inv_def)

lemma carry_inv_nth: "carry_inv D t0 v0 i t v \<Longrightarrow> v ! i = v0 ! i"
  by (simp add: carry_inv_def)

lemma carry_inv_length: "carry_inv D t0 v0 i t v \<Longrightarrow> length v = 9"
  by (simp add: carry_inv_def)

lemma take_Suc_update: "i < length v \<Longrightarrow> take (Suc i) (v[i := x]) = take i v @ [x]"
  by (simp add: take_Suc_conv_app_nth)

lemma carry_inv_step:
  assumes inv: "carry_inv D t0 v0 i t v" and i: "i < 9"
    and x: "uint x = T mod 2 ^ 30" and T: "T = t + D i"
  shows "carry_inv D t0 v0 (Suc i) (T div 2 ^ 30) (v[i := x])"
proof -
  have len: "length v = 9" using inv by (simp add: carry_inv_def)
  have "limbs_val (take (Suc i) (v[i := x])) + q * 2 ^ (30 * Suc i)
      = limbs_val (take i v) + (uint x + 2 ^ 30 * q) * 2 ^ (30 * i)" for q
    using len i by (simp add: take_Suc_update limbs_val_append algebra_simps power_add)
  note this [of "T div 2 ^ 30"]
  also have "uint x + 2 ^ 30 * (T div 2 ^ 30) = t + D i"
    by (simp only: x T mod_mult_div_eq)
  finally have "limbs_val (take (Suc i) (v[i := x])) + T div 2 ^ 30 * 2 ^ (30 * Suc i)
      = t0 + (\<Sum>k<Suc i. D k * 2 ^ (30 * k))"
    using inv by (simp add: carry_inv_def algebra_simps)
  moreover have "\<forall>k<Suc i. uint (v[i := x] ! k) < 2 ^ 30"
    using inv len i x by (auto simp: carry_inv_def nth_list_update less_Suc_eq)
  ultimately show ?thesis
    using inv len by (simp add: carry_inv_def)
qed

lemma carry_inv_result:
  assumes "carry_inv D t0 v0 9 t v"
  shows "bn_normalized \<lparr>val = v\<rparr>"
    and "bn_val \<lparr>val = v\<rparr> = (t0 + (\<Sum>k<9. D k * 2 ^ (30 * k))) mod 2 ^ 270"
    and "t = (t0 + (\<Sum>k<9. D k * 2 ^ (30 * k))) div 2 ^ 270"
proof -
  have len: "length v = 9" and "\<forall>k<9. uint (v ! k) < 2 ^ 30"
    using assms by (simp_all add: carry_inv_def)
  then show norm: "bn_normalized \<lparr>val = v\<rparr>"
    by (auto simp: bn_normalized_def bn_wf_def in_set_conv_nth)
  have eq: "t0 + (\<Sum>k<9. D k * 2 ^ (30 * k)) = bn_val \<lparr>val = v\<rparr> + t * 2 ^ 270"
    using assms len by (simp add: carry_inv_def bn_val_def)
  have b: "0 \<le> bn_val \<lparr>val = v\<rparr>" "bn_val \<lparr>val = v\<rparr> < 2 ^ 270"
    using bn_val_lt[OF norm] by simp_all
  show "bn_val \<lparr>val = v\<rparr> = (t0 + (\<Sum>k<9. D k * 2 ^ (30 * k))) mod 2 ^ 270"
    unfolding eq using b by simp
  show "t = (t0 + (\<Sum>k<9. D k * 2 ^ (30 * k))) div 2 ^ 270"
    unfolding eq using b by simp
qed

lemma bn_update_val [simp]: "a\<lparr>val := v\<rparr> = \<lparr>val = v\<rparr>"
  by (cases a) simp

text \<open>
  The 32-bit instance: the digit may depend on the old limb, and a carry of at most
  \<open>c\<close> (at least 3, the largest carry out of 32 bits) must not overflow it.
\<close>

lemma carry_loop32:
  fixes d :: "nat \<Rightarrow> u32 \<Rightarrow> u32"
  assumes len: "length v0 = 9" and t0: "uint t0 \<le> c" and c: "3 \<le> c"
    and D: "\<And>k. k < 9 \<Longrightarrow> uint (d k (v0 ! k)) + c < 2 ^ 32"
  defines "r \<equiv> snd (for_up 0 9 (\<lambda>i (t, v).
      let t = t + d i (v ! i) in (drop_bit 30 t, v[i := t AND 0x3FFFFFFF])) (t0, v0))"
  shows "bn_normalized \<lparr>val = r\<rparr>"
    and "bn_val \<lparr>val = r\<rparr> = (uint t0 + (\<Sum>k<9. uint (d k (v0 ! k)) * 2 ^ (30 * k))) mod 2 ^ 270"
proof -
  let ?D = "\<lambda>k. uint (d k (v0 ! k))"
  let ?P = "\<lambda>i (t, v). carry_inv ?D (uint t0) v0 i (uint t) v \<and> uint t \<le> c"
  let ?body = "\<lambda>i (t, v). let t = t + d i (v ! i) in (drop_bit 30 t, v[i := t AND 0x3FFFFFFF])"
  have "?P 9 (for_up 0 9 ?body (t0, v0))"
  proof (rule for_up_inv, goal_cases)
    case 1
    show ?case by simp
  next
    case 2
    show ?case using len t0 by (simp add: carry_inv_init)
  next
    case (3 i s)
    obtain t v where s: "s = (t, v)" by (cases s)
    have inv: "carry_inv ?D (uint t0) v0 i (uint t) v" and t: "uint t \<le> c"
      using 3 by (simp_all add: s)
    define T where "T = t + d i (v ! i)"
    have T: "uint T = uint t + ?D i"
      using t D[of i] 3 carry_inv_nth[OF inv] by (simp add: T_def uint_add_nowrap)
    have "carry_inv ?D (uint t0) v0 (Suc i) (uint T div 2 ^ 30) (v[i := T AND 0x3FFFFFFF])"
      using 3 by (intro carry_inv_step[OF inv _ uint_and_30bit T]) simp
    moreover have "uint T div 2 ^ 30 \<le> c"
      using uint_lt_u32[of T] c by simp
    ultimately show ?case
      by (simp add: s uint_drop_bit flip: T_def)
  qed
  then obtain t where "carry_inv ?D (uint t0) v0 9 t r"
    by (auto simp: r_def split_beta)
  from carry_inv_result[OF this] show "bn_normalized \<lparr>val = r\<rparr>"
    and "bn_val \<lparr>val = r\<rparr> = (uint t0 + (\<Sum>k<9. ?D k * 2 ^ (30 * k))) mod 2 ^ 270"
    by simp_all
qed

section \<open>Addition and subtraction are integer arithmetic\<close>

lemma sum_radix: "(\<Sum>k<n. (2 ^ 30 - 1) * 2 ^ (30 * k)) = (2 ^ (30 * n) - 1 :: int)"
  by (induction n) (simp_all add: power_add)

lemma sum_radix_9: "(\<Sum>k<9. c * (2 ^ 30 - 1) * 2 ^ (30 * k)) = c * (2 ^ 270 - 1 :: int)"
proof -
  have "(\<Sum>k<9. c * (2 ^ 30 - 1) * 2 ^ (30 * k)) = c * (\<Sum>k<9. (2 ^ 30 - 1) * 2 ^ (30 * k))"
    by (simp only: sum_distrib_left mult.assoc)
  then show ?thesis by (simp only: sum_radix) simp
qed

lemma bn_add_gen:
  assumes "bn_wf a" and "\<And>k. k < 9 \<Longrightarrow> uint (val a ! k + val b ! k) + 3 < 2 ^ 32"
  shows "bn_normalized (bn_add a b)"
    and "bn_val (bn_add a b) = (\<Sum>k<9. uint (val a ! k + val b ! k) * 2 ^ (30 * k)) mod 2 ^ 270"
proof -
  note L = carry_loop32[where d = "\<lambda>i x. x + val b ! i" and ?v0.0 = "val a" and ?t0.0 = 0 and c = 3]
  show "bn_normalized (bn_add a b)"
    unfolding bn_add_def bn_update_val by (rule L(1)) (use assms in simp_all)
  have "bn_val (bn_add a b)
      = (uint (0 :: u32) + (\<Sum>k<9. uint (val a ! k + val b ! k) * 2 ^ (30 * k))) mod 2 ^ 270"
    unfolding bn_add_def bn_update_val by (rule L(2)) (use assms in simp_all)
  then show "bn_val (bn_add a b) = (\<Sum>k<9. uint (val a ! k + val b ! k) * 2 ^ (30 * k)) mod 2 ^ 270"
    by simp
qed

text \<open>Addition of normalized numbers is addition modulo \<open>2^270\<close>, so exact below that.\<close>

lemma bn_add_normalized: "bn_wf a \<Longrightarrow> (\<And>k. k < 9 \<Longrightarrow> uint (val a ! k + val b ! k) + 3 < 2 ^ 32) \<Longrightarrow>
    bn_normalized (bn_add a b)"
  by (rule bn_add_gen(1))

lemma uint_limb_add:
  assumes "bn_normalized a" and "bn_normalized b" and "k < 9"
  shows "uint (val a ! k + val b ! k) = uint (val a ! k) + uint (val b ! k)"
  using bn_limb_lt[OF assms(1,3)] bn_limb_lt[OF assms(2,3)] by (simp add: uint_add_nowrap)

lemma bn_add_correct:
  assumes a: "bn_normalized a" and b: "bn_normalized b"
  shows "bn_normalized (bn_add a b)" and "bn_val (bn_add a b) = (bn_val a + bn_val b) mod 2 ^ 270"
proof -
  have b3: "uint (val a ! k + val b ! k) + 3 < 2 ^ 32" if "k < 9" for k
    using bn_limb_lt[OF a that] bn_limb_lt[OF b that] by (simp add: uint_limb_add[OF a b that])
  show "bn_normalized (bn_add a b)"
    using bn_add_gen(1)[of a b] a b3 by simp
  have "bn_val (bn_add a b) = (\<Sum>k<9. uint (val a ! k + val b ! k) * 2 ^ (30 * k)) mod 2 ^ 270"
    by (rule bn_add_gen(2)) (use a b3 in simp_all)
  also have "(\<Sum>k<9. uint (val a ! k + val b ! k) * 2 ^ (30 * k))
      = (\<Sum>k<9. uint (val a ! k) * 2 ^ (30 * k) + uint (val b ! k) * 2 ^ (30 * k))"
    by (rule sum.cong) (simp_all add: uint_limb_add[OF a b] distrib_right)
  also have "\<dots> = bn_val a + bn_val b"
    using a b by (simp add: sum.distrib bn_val_sum)
  finally show "bn_val (bn_add a b) = (bn_val a + bn_val b) mod 2 ^ 270" .
qed

text \<open>
  \<open>bn_addi\<close> (and \<open>bn_normalize\<close>) accept limbs that are not normalized, as long as the
  carry does not overflow the accumulator.
\<close>

lemma bn_addi_correct:
  assumes wf: "bn_wf a" and ov: "\<And>k. k < 9 \<Longrightarrow> uint (val a ! k) + max 3 (uint b) < 2 ^ 32"
  shows "bn_normalized (bn_addi a b)" and "bn_val (bn_addi a b) = (bn_val a + uint b) mod 2 ^ 270"
proof -
  note L = carry_loop32[where d = "\<lambda>i x. x" and ?v0.0 = "val a" and ?t0.0 = b and c = "max 3 (uint b)"]
  show "bn_normalized (bn_addi a b)"
    unfolding bn_addi_def bn_update_val by (rule L(1)) (use wf ov in simp_all)
  have "bn_val (bn_addi a b) = (uint b + (\<Sum>k<9. uint (val a ! k) * 2 ^ (30 * k))) mod 2 ^ 270"
    unfolding bn_addi_def bn_update_val by (rule L(2)) (use wf ov in simp_all)
  then show "bn_val (bn_addi a b) = (bn_val a + uint b) mod 2 ^ 270"
    using wf by (simp add: bn_val_sum add.commute)
qed

lemma bn_subtract_correct:
  assumes a: "bn_normalized a" and b: "bn_normalized b"
  shows "bn_normalized (bn_subtract a b)"
    and "bn_val (bn_subtract a b) = (bn_val a - bn_val b) mod 2 ^ 270"
proof -
  let ?d = "\<lambda>k. 0x3FFFFFFF + val a ! k - val b ! k"
  have d: "uint (?d k) = (2 ^ 30 - 1) + uint (val a ! k) - uint (val b ! k)" if "k < 9" for k
    using bn_limb_lt[OF a that] bn_limb_lt[OF b that] uint_ge_0[of "val a ! k"]
      uint_ge_0[of "val b ! k"]
    by (intro uint_eqI) ((simp; fail) | simp only: len32)+
  have ov: "uint (?d k) + 3 < 2 ^ 32" if "k < 9" for k
    using bn_limb_lt[OF a that] uint_ge_0[of "val b ! k"] unfolding d[OF that] by (simp only: len32)
  note L = carry_loop32[where d = "\<lambda>i x. ?d i" and ?v0.0 = "replicate 9 0" and ?t0.0 = 1 and c = 3]
  show "bn_normalized (bn_subtract a b)"
    unfolding bn_subtract_def by (rule L(1)) (use ov in simp_all)
  have "bn_val (bn_subtract a b) = (uint (1 :: u32) + (\<Sum>k<9. uint (?d k) * 2 ^ (30 * k))) mod 2 ^ 270"
    unfolding bn_subtract_def by (rule L(2)) (use ov in simp_all)
  also have "(\<Sum>k<9. uint (?d k) * 2 ^ (30 * k)) = (\<Sum>k<9. 1 * (2 ^ 30 - 1) * 2 ^ (30 * k)
      + uint (val a ! k) * 2 ^ (30 * k) - uint (val b ! k) * 2 ^ (30 * k))"
    by (rule sum.cong[OF refl], simp only: lessThan_iff d, simp add: algebra_simps)
  also have "\<dots> = 2 ^ 270 - 1 + bn_val a - bn_val b"
    unfolding sum.distrib sum_subtractf sum_radix_9 using a b by (simp add: bn_val_sum)
  finally have "bn_val (bn_subtract a b) = (bn_val a - bn_val b + 2 ^ 270) mod 2 ^ 270"
    by (simp add: algebra_simps)
  then show "bn_val (bn_subtract a b) = (bn_val a - bn_val b) mod 2 ^ 270"
    by simp
qed

text \<open>
  \<open>bn_subtractmod\<close> adds twice the prime before it subtracts, so the difference with a partly
  reduced number is never negative. Its digit overflows unless the limbs are normalized.
\<close>

lemma bn_subtractmod_correct:
  assumes a: "bn_normalized a" and b: "bn_normalized b" and p: "bn_normalized prime"
  shows "bn_normalized (bn_subtractmod a b prime)"
    and "bn_val (bn_subtractmod a b prime) = (bn_val a + 2 * bn_val prime - bn_val b) mod 2 ^ 270"
proof -
  let ?d = "\<lambda>k. 0x3FFFFFFF + val a ! k + 2 * val prime ! k - val b ! k"
  have d: "uint (?d k) = (2 ^ 30 - 1) + uint (val a ! k) + 2 * uint (val prime ! k) - uint (val b ! k)"
    and ov: "uint (?d k) + 3 < 2 ^ 32" if "k < 9" for k
  proof -
    note bounds = bn_limb_lt[OF a that] bn_limb_lt[OF b that] bn_limb_lt[OF p that]
      uint_ge_0[of "val b ! k"] uint_ge_0[of "val prime ! k"] uint_ge_0[of "val a ! k"]
    show d: "uint (?d k) = (2 ^ 30 - 1) + uint (val a ! k) + 2 * uint (val prime ! k) - uint (val b ! k)"
      using bounds by (intro uint_eqI) ((simp; fail) | simp only: len32)+
    show "uint (?d k) + 3 < 2 ^ 32"
      unfolding d using bounds by (simp only: len32)
  qed
  note L = carry_loop32[where d = "\<lambda>i x. ?d i" and ?v0.0 = "replicate 9 0" and ?t0.0 = 1 and c = 3]
  show "bn_normalized (bn_subtractmod a b prime)"
    unfolding bn_subtractmod_def by (rule L(1)) (use ov in simp_all)
  have "bn_val (bn_subtractmod a b prime)
      = (uint (1 :: u32) + (\<Sum>k<9. uint (?d k) * 2 ^ (30 * k))) mod 2 ^ 270"
    unfolding bn_subtractmod_def by (rule L(2)) (use ov in simp_all)
  also have "(\<Sum>k<9. uint (?d k) * 2 ^ (30 * k)) = (\<Sum>k<9. 1 * (2 ^ 30 - 1) * 2 ^ (30 * k)
      + uint (val a ! k) * 2 ^ (30 * k) + 2 * (uint (val prime ! k) * 2 ^ (30 * k))
      - uint (val b ! k) * 2 ^ (30 * k))"
    by (rule sum.cong[OF refl], simp only: lessThan_iff d, simp add: algebra_simps)
  also have "\<dots> = 2 ^ 270 - 1 + bn_val a + 2 * bn_val prime - bn_val b"
    unfolding sum.distrib sum_subtractf sum_radix_9
    using a b p by (simp add: bn_val_sum sum_distrib_left)
  finally have "bn_val (bn_subtractmod a b prime)
      = (bn_val a + 2 * bn_val prime - bn_val b + 2 ^ 270) mod 2 ^ 270"
    by (simp add: algebra_simps)
  then show "bn_val (bn_subtractmod a b prime) = (bn_val a + 2 * bn_val prime - bn_val b) mod 2 ^ 270"
    by simp
qed

text \<open>
  \<open>bn_subi\<close> may drive limb 0 below zero; the wrapped value is repaired by the addition
  of the prime, provided the code's assertion \<open>b <= prime->val[0]\<close> holds.
\<close>

lemma bn_subi_correct:
  assumes a: "bn_normalized a" and p: "bn_normalized prime" and b: "b \<le> val prime ! 0"
  shows "bn_normalized (bn_subi a b prime)"
    and "bn_val (bn_subi a b prime) = (bn_val a + bn_val prime - uint b) mod 2 ^ 270"
proof -
  let ?a = "a\<lparr>val := (val a)[0 := val a ! 0 - b]\<rparr>"
  have le: "uint b \<le> uint (val prime ! 0)" using b by (simp add: word_le_def)
  have d: "uint (val ?a ! k + val prime ! k)
      = uint (val a ! k) + uint (val prime ! k) - (if k = 0 then uint b else 0)" if "k < 9" for k
  proof (cases "k = 0")
    case True
    have "uint (val a ! 0 - b + val prime ! 0) = uint (val a ! 0) + uint (val prime ! 0) - uint b"
      using bn_limb_lt[OF a zero_less_numeral] bn_limb_lt[OF p zero_less_numeral] le uint_ge_0[of "val a ! 0"] uint_ge_0[of b]
      by (intro uint_eqI) ((simp; fail) | simp only: len32)+
    then show ?thesis using a True by simp
  next
    case False
    then show ?thesis using that by (simp add: uint_limb_add[OF a p])
  qed
  have ov: "uint (val ?a ! k + val prime ! k) + 3 < 2 ^ 32" if "k < 9" for k
    using bn_limb_lt[OF a that] bn_limb_lt[OF p that] uint_ge_0[of b]
    unfolding d[OF that] by (cases "k = 0") (simp_all only: len32 if_True if_False simp_thms)
  have wf: "bn_wf ?a" using a by (simp add: bn_wf_def)
  show "bn_normalized (bn_subi a b prime)"
    unfolding bn_subi_def by (rule bn_add_gen(1)[OF wf ov])
  have "bn_val (bn_subi a b prime)
      = (\<Sum>k<9. uint (val ?a ! k + val prime ! k) * 2 ^ (30 * k)) mod 2 ^ 270"
    unfolding bn_subi_def by (rule bn_add_gen(2)[OF wf ov])
  also have "(\<Sum>k<9. uint (val ?a ! k + val prime ! k) * 2 ^ (30 * k))
      = (\<Sum>k<9. uint (val a ! k) * 2 ^ (30 * k) + uint (val prime ! k) * 2 ^ (30 * k)
          - (if k = 0 then uint b else 0))"
    by (rule sum.cong[OF refl], simp only: lessThan_iff d, simp add: algebra_simps)
  also have "\<dots> = bn_val a + bn_val prime - uint b"
    unfolding sum.distrib sum_subtractf using a p by (simp add: bn_val_sum)
  finally show "bn_val (bn_subi a b prime) = (bn_val a + bn_val prime - uint b) mod 2 ^ 270" .
qed

section \<open>Comparison and selection\<close>

lemma fold_or_zero: "(fold (\<lambda>i r. r OR f i) xs r = 0) \<longleftrightarrow> r = 0 \<and> (\<forall>i\<in>set xs. f i = (0 :: u32))"
  by (induction xs arbitrary: r) (auto simp: or_eq_0_iff)

lemma bn_is_zero_correct: "bn_wf a \<Longrightarrow> bn_is_zero a \<longleftrightarrow> bn_val a = 0"
proof -
  assume wf: "bn_wf a"
  have "limbs_val xs = 0 \<longleftrightarrow> (\<forall>x\<in>set xs. x = 0)" for xs
    by (induction xs) (auto simp: add_nonneg_eq_0_iff uint_eq_0_iff)
  then show ?thesis
    using wf by (auto simp: bn_is_zero_def for_up_def fold_or_zero bn_val_def all_set_conv_all_nth)
qed

lemma bn_is_equal_correct:
  assumes "bn_normalized a" and "bn_normalized b"
  shows "bn_is_equal a b \<longleftrightarrow> bn_val a = bn_val b"
proof -
  have "bn_is_equal a b \<longleftrightarrow> (\<forall>k<9. val a ! k = val b ! k)"
    by (auto simp: bn_is_equal_def for_up_def fold_or_zero)
  also have "\<dots> \<longleftrightarrow> val a = val b"
    using assms by (auto intro: nth_equalityI)
  also have "\<dots> \<longleftrightarrow> bn_val a = bn_val b"
    using bn_normalized_eq[OF assms] by (metis bignum256.equality old.unit.exhaust)
  finally show ?thesis .
qed

text \<open>
  One step of the comparison appends the outcome of a limb to the two result words. The two
  words compare as the limb prefixes do.
\<close>

lemma uint_shift1_or_bool:
  fixes r :: u32
  assumes "uint r < 2 ^ 31"
  shows "uint (push_bit 1 r OR of_bool P) = 2 * uint r + of_bool P"
proof -
  have "uint (push_bit 1 r) = 2 * uint r"
    using assms by (simp add: push_bit_eq_mult uint_word_ariths)
  moreover have "push_bit 1 r OR of_bool P = push_bit 1 r + of_bool P"
    by (rule disjunctive_add_eq_or [symmetric]) (auto simp: bit_simps bit_0 intro!: bit_eqI)
  ultimately show ?thesis
    using assms by (cases P) (simp_all add: uint_add_nowrap)
qed

lemma less_step:
  fixes x y X Y :: int
  assumes "0 \<le> x" "x < B" "0 \<le> y" "y < B"
  shows "x + B * X < y + B * Y \<longleftrightarrow> X < Y \<or> (X = Y \<and> x < y)"
    and "x + B * X = y + B * Y \<longleftrightarrow> X = Y \<and> x = y"
proof -
  have lt: "x + B * X < y + B * Y" if "X < Y" "0 \<le> x" "x < B" "0 \<le> y" for x y X Y :: int
  proof -
    have "B * (X + 1) \<le> B * Y" using that by (intro mult_left_mono) auto
    then show ?thesis using that by (simp add: distrib_left)
  qed
  show "x + B * X < y + B * Y \<longleftrightarrow> X < Y \<or> (X = Y \<and> x < y)"
    using lt[of X Y x y] lt[of Y X y x] assms by (cases X Y rule: linorder_cases) auto
  show "x + B * X = y + B * Y \<longleftrightarrow> X = Y \<and> x = y"
    using lt[of X Y x y] lt[of Y X y x] assms by (cases X Y rule: linorder_cases) auto
qed

lemma less_bits_step:
  fixes x y X Y r1 r2 :: int
  assumes xy: "0 \<le> x" "x < B" "0 \<le> y" "y < B"
    and lt: "r2 < r1 \<longleftrightarrow> X < Y" and eq: "r1 = r2 \<longleftrightarrow> X = Y"
  shows "2 * r2 + of_bool (y < x) < 2 * r1 + of_bool (x < y) \<longleftrightarrow> x + B * X < y + B * Y"
    and "2 * r1 + of_bool (x < y) = 2 * r2 + of_bool (y < x) \<longleftrightarrow> x + B * X = y + B * Y"
proof -
  have 1: "x + B * X < y + B * Y \<longleftrightarrow> r2 < r1 \<or> (r1 = r2 \<and> x < y)"
    by (simp only: less_step(1)[OF xy] lt eq)
  have 2: "x + B * X = y + B * Y \<longleftrightarrow> r1 = r2 \<and> x = y"
    by (simp only: less_step(2)[OF xy] eq)
  show "2 * r2 + of_bool (y < x) < 2 * r1 + of_bool (x < y) \<longleftrightarrow> x + B * X < y + B * Y"
    unfolding 1 by (cases x y rule: linorder_cases; simp; arith)
  show "2 * r1 + of_bool (x < y) = 2 * r2 + of_bool (y < x) \<longleftrightarrow> x + B * X = y + B * Y"
    unfolding 2 by (cases x y rule: linorder_cases; simp; arith)
qed

lemma bn_is_less_correct:
  assumes a: "bn_normalized a" and b: "bn_normalized b"
  shows "bn_is_less a b \<longleftrightarrow> bn_val a < bn_val b"
proof -
  let ?A = "\<lambda>i. limbs_val (drop i (val a))" and ?B = "\<lambda>i. limbs_val (drop i (val b))"
  let ?P = "\<lambda>i (res1 :: u32, res2 :: u32). uint res1 < 2 ^ (9 - i) \<and> uint res2 < 2 ^ (9 - i) \<and>
     (uint res1 > uint res2 \<longleftrightarrow> ?A i < ?B i) \<and> (uint res1 = uint res2 \<longleftrightarrow> ?A i = ?B i)"
  let ?body = "\<lambda>i (res1 :: u32, res2 :: u32).
            (push_bit 1 res1 OR of_bool (val a ! i < val b ! i),
             push_bit 1 res2 OR of_bool (val a ! i > val b ! i))"
  have "?P 0 (for_down 9 0 ?body (0, 0))"
  proof (rule for_down_inv, goal_cases)
    case (3 i s)
    obtain r1 r2 where s: "s = (r1, r2)" by (cases s)
    have r: "uint r1 < 2 ^ (9 - Suc i)" "uint r2 < 2 ^ (9 - Suc i)"
      and cmp: "uint r1 > uint r2 \<longleftrightarrow> ?A (Suc i) < ?B (Suc i)"
        "uint r1 = uint r2 \<longleftrightarrow> ?A (Suc i) = ?B (Suc i)"
      using 3 by (simp_all add: s)
    have pow: "(2 :: int) ^ (9 - i) = 2 * 2 ^ (9 - Suc i)"
      using 3 by (simp add: Suc_diff_Suc flip: power_Suc)
    have "(2 :: int) ^ (9 - Suc i) \<le> 2 ^ 31"
      by (rule power_increasing) simp_all
    then have r31: "uint r1 < 2 ^ 31" "uint r2 < 2 ^ 31" using r by linarith+
    have A: "?A i = uint (val a ! i) + 2 ^ 30 * ?A (Suc i)"
      and B: "?B i = uint (val b ! i) + 2 ^ 30 * ?B (Suc i)"
      using 3 a b by (simp_all add: drop_eq_Cons)
    note step = less_bits_step[OF uint_ge_0 bn_limb_lt[OF a] uint_ge_0 bn_limb_lt[OF b] cmp]
    have "2 * uint r1 + of_bool P < 2 ^ (9 - i)" "2 * uint r2 + of_bool P < 2 ^ (9 - i)" for P
      using r by (cases P; simp add: pow)+
    then show ?case
      using step 3(2)
      by (simp only: s prod.case uint_shift1_or_bool[OF r31(1)] uint_shift1_or_bool[OF r31(2)]
          word_less_def A B simp_thms)
  qed (use a b in simp_all)
  then show ?thesis
    by (auto simp: bn_is_less_def bn_val_def word_less_def split_beta)
qed

lemma fold_update_all:
  "length v = n \<Longrightarrow> for_up 0 n (\<lambda>i v. v[i := f i]) v = map f [0..<n]"
proof -
  assume len: "length v = n"
  let ?P = "\<lambda>i w. length w = n \<and> take i w = map f [0..<i]"
  have "?P n (for_up 0 n (\<lambda>i v. v[i := f i]) v)"
    by (rule for_up_inv) (use len in \<open>auto simp: take_Suc_update\<close>)
  then show ?thesis by auto
qed

lemma bn_cmov_correct:
  assumes "bn_wf x" and "bn_wf y"
  shows "bn_cmov 1 x y = x" and "bn_cmov 0 x y = y"
proof -
  have 1: "map ((!) (val z)) [0..<9] = val z" if "bn_wf z" for z
    using list_eq_upt[of "val z" 9] that by simp
  show "bn_cmov 1 x y = x" "bn_cmov 0 x y = y"
    using assms by (simp_all add: bn_cmov_def fold_update_all 1)
qed

lemma sum_9: "(\<Sum>k<(9::nat). f k) = f 0 + f 1 + f 2 + f 3 + f 4 + f 5 + f 6 + f 7 + (f 8 :: 'a::comm_monoid_add)"
  by (simp add: eval_nat_numeral add.assoc)

lemma bn_normalizedI:
  "length (val a) = 9 \<Longrightarrow> (\<And>k. k < 9 \<Longrightarrow> uint (val a ! k) < 2 ^ 30) \<Longrightarrow> bn_normalized a"
  unfolding bn_normalized_def bn_wf_def by (metis in_set_conv_nth)

lemma top_bit_01: "0 \<le> x \<Longrightarrow> x < 2 ^ 30 \<Longrightarrow> 0 \<le> x div 2 ^ 29 \<and> x div 2 ^ 29 < 2"
  for x :: int
  by (simp add: div_less_iff_less_mult pos_imp_zdiv_nonneg_iff)

lemma shift1_limb_arith:
  fixes t x :: int
  assumes "0 \<le> t" "t < 2"
  shows "(t + 2 * x) mod 2 ^ 30 = 2 * x mod 2 ^ 30 + t" and "(t + 2 * x) div 2 ^ 30 = x div 2 ^ 29"
proof -
  have d: "(t + 2 * x) div 2 ^ 30 = x div 2 ^ 29" if "0 \<le> t" "t < 2" for t
  proof -
    have "(t + 2 * x) div (2 * 2 ^ 29) = (t + 2 * x) div 2 div 2 ^ 29"
      by (rule zdiv_zmult2_eq) simp
    then show ?thesis using that by simp
  qed
  show "(t + 2 * x) div 2 ^ 30 = x div 2 ^ 29" by (rule d[OF assms])
  show "(t + 2 * x) mod 2 ^ 30 = 2 * x mod 2 ^ 30 + t"
    unfolding minus_div_mult_eq_mod [symmetric] using d[OF assms] d[of 0] by simp
qed

lemma bn_val_eta [simp]: "\<lparr>val = val a\<rparr> = a"
  by (cases a) simp

section \<open>Shifts\<close>

lemma carry_inv_static:
  assumes len: "length v = 9" and t0: "t 0 = t0" and i: "i \<le> 9"
    and step: "\<And>k. k < 9 \<Longrightarrow> uint (v ! k) = (t k + D k) mod 2 ^ 30 \<and> t (Suc k) = (t k + D k) div 2 ^ 30"
  shows "carry_inv D t0 v i (t i) v"
  using i
proof (induction i)
  case 0
  then show ?case using len t0 by (simp add: carry_inv_def)
next
  case (Suc i)
  then have "carry_inv D t0 v (Suc i) ((t i + D i) div 2 ^ 30) (v[i := v ! i])"
    using step[of i] by (intro carry_inv_step[where t = "t i"]) simp_all
  then show ?case using step[of i] Suc.prems by simp
qed

lemma bn_lshift_val:
  "bn_wf a \<Longrightarrow> bn_lshift a = \<lparr>val = map (\<lambda>i. (push_bit 1 (val a ! i) AND 0x3FFFFFFF) OR
      (if i = 0 then 0 else drop_bit 29 (val a ! (i - 1) AND 0x20000000))) [0..<9]\<rparr>"
  (is "_ \<Longrightarrow> _ = \<lparr>val = map ?f [0..<9]\<rparr>")
proof -
  assume wf: "bn_wf a"
  let ?P = "\<lambda>i v. length v = 9 \<and> (\<forall>k<i. v ! k = val a ! k) \<and> (\<forall>k. i \<le> k \<and> k < 9 \<longrightarrow> v ! k = ?f k)"
  let ?v = "for_down 9 1 (\<lambda>i v. v[i := (push_bit 1 (v ! i) AND 0x3FFFFFFF) OR
                                          drop_bit 29 (v ! (i - 1) AND 0x20000000)]) (val a)"
  have "?P 1 ?v"
  proof (rule for_down_inv[where P = ?P], goal_cases)
    case (3 i v)
    then show ?case by (auto simp: nth_list_update)
  qed (use wf in auto)
  then have "?v[0 := push_bit 1 (?v ! 0) AND 0x3FFFFFFF] = map ?f [0..<9]"
    by (intro nth_equalityI) (auto simp: nth_list_update)
  then show ?thesis by (simp add: bn_lshift_def)
qed

lemma bn_lshift_correct:
  assumes a: "bn_normalized a"
  shows "bn_normalized (bn_lshift a)" and "bn_val (bn_lshift a) = (2 * bn_val a) mod 2 ^ 270"
proof -
  let ?t = "\<lambda>i. if i = 0 then 0 else uint (val a ! (i - 1)) div 2 ^ 29"
  let ?D = "\<lambda>k. 2 * uint (val a ! k)"
  have high: "uint (drop_bit 29 (x AND 0x20000000)) = uint x div 2 ^ 29" if "uint x < 2 ^ 30" for x :: u32
  proof -
    have "drop_bit 29 (x AND 0x20000000) = drop_bit 29 x AND 1"
      by (simp add: drop_bit_and)
    also have "uint (drop_bit 29 x AND 1) = uint x div 2 ^ 29 mod 2"
      by (simp add: and_one_eq uint_mod_distrib uint_drop_bit)
    also have "\<dots> = uint x div 2 ^ 29"
      using that uint_ge_0[of x] by (intro mod_pos_pos_trivial) (simp_all add: div_less_iff_less_mult pos_imp_zdiv_nonneg_iff)
    finally show ?thesis .
  qed
  have "carry_inv ?D 0 (val (bn_lshift a)) 9 (?t 9) (val (bn_lshift a))"
  proof (rule carry_inv_static)
    fix k :: nat assume k: "k < 9"
    have tk: "0 \<le> ?t k" "?t k < 2"
      using top_bit_01[OF uint_ge_0 bn_limb_lt[OF a], of "k - 1"] k by auto
    have lo: "uint (push_bit 1 (val a ! k) AND 0x3FFFFFFF) = 2 * uint (val a ! k) mod 2 ^ 30"
      using bn_limb_lt[OF a k] by (simp add: uint_and_30bit uint_word_ariths mult.commute)
    have "uint (val (bn_lshift a) ! k) = 2 * uint (val a ! k) mod 2 ^ 30 + ?t k"
    proof (cases "k = 0")
      case True
      then show ?thesis using lo a by (simp add: bn_lshift_val)
    next
      case False
      then have hi: "uint (drop_bit 29 (val a ! (k - 1) AND 0x20000000)) = ?t k"
        using bn_limb_lt[OF a, of "k - 1"] k by (simp only: high if_False)
      have "uint (drop_bit 29 (val a ! (k - 1) AND 0x20000000) OR (push_bit 1 (val a ! k) AND 0x3FFFFFFF))
          = ?t k + 2 * uint (val a ! k) mod 2 ^ 30"
        unfolding hi[symmetric] lo[symmetric]
      proof (rule uint_or_add[where n = 1])
        show "uint (drop_bit 29 (val a ! (k - 1) AND 0x20000000)) < 2 ^ 1"
          unfolding hi using tk by simp
        show "uint (push_bit 1 (val a ! k) AND 0x3FFFFFFF) mod 2 ^ 1 = 0"
          unfolding lo by (subst mod_mod_cancel) simp_all
      qed
      then show ?thesis using False a k by (simp add: bn_lshift_val or.commute)
    qed
    moreover have "(?t k + ?D k) mod 2 ^ 30 = 2 * uint (val a ! k) mod 2 ^ 30 + ?t k"
      and "(?t k + ?D k) div 2 ^ 30 = uint (val a ! k) div 2 ^ 29"
      using shift1_limb_arith[OF tk] by simp_all
    ultimately show "uint (val (bn_lshift a) ! k) = (?t k + ?D k) mod 2 ^ 30 \<and>
        ?t (Suc k) = (?t k + ?D k) div 2 ^ 30"
      by (simp only: nat.distinct if_False diff_Suc_1)
  qed (use a in \<open>simp_all add: bn_lshift_val\<close>)
  from carry_inv_result[OF this] show "bn_normalized (bn_lshift a)"
    and "bn_val (bn_lshift a) = (2 * bn_val a) mod 2 ^ 270"
    using a by (simp_all add: bn_val_sum[of a] sum_distrib_left mult.assoc)
qed

lemma bn_rshift_val:
  "bn_wf a \<Longrightarrow> bn_rshift a = \<lparr>val = map (\<lambda>i. drop_bit 1 (val a ! i) OR
      (if i = 8 then 0 else push_bit 29 (val a ! (i + 1) AND 1))) [0..<9]\<rparr>"
  (is "_ \<Longrightarrow> _ = \<lparr>val = map ?f [0..<9]\<rparr>")
proof -
  assume wf: "bn_wf a"
  let ?P = "\<lambda>i v. length v = 9 \<and> (\<forall>k<i. v ! k = ?f k) \<and> (\<forall>k. i \<le> k \<and> k < 9 \<longrightarrow> v ! k = val a ! k)"
  let ?v = "for_up 0 8 (\<lambda>i v. v[i := drop_bit 1 (v ! i) OR
                                        push_bit 29 (v ! (i + 1) AND 1)]) (val a)"
  have "?P 8 ?v"
  proof (rule for_up_inv[where P = ?P], goal_cases)
    case (3 i v)
    then show ?case by (auto simp: nth_list_update less_Suc_eq)
  qed (use wf in auto)
  moreover have "k < 9 \<Longrightarrow> k = 8 \<or> k < 8" for k :: nat by auto
  ultimately have "?v[8 := drop_bit 1 (?v ! 8)] = map ?f [0..<9]"
    by (intro nth_equalityI) (auto simp: nth_list_update)
  then show ?thesis by (simp add: bn_rshift_def)
qed

lemma uint_and_1: "uint (x AND 1) = uint x mod 2"
  for x :: "'a::len word"
  using uint_take_bit[of 1 x] by (simp add: take_bit_eq_mask)

lemma uint_rshift_limb:
  fixes x y :: u32
  assumes "uint x < 2 ^ 30"
  shows "uint (drop_bit 1 x OR push_bit 29 (y AND 1)) = uint x div 2 + 2 ^ 29 * (uint y mod 2)"
proof -
  have hi: "uint (push_bit 29 (y AND 1)) = 2 ^ 29 * (uint y mod 2)"
    by (subst uint_push_bit, subst uint_and_1) simp
  have lo: "uint (drop_bit 1 x) = uint x div 2" by (simp add: uint_drop_bit)
  show ?thesis
    unfolding hi[symmetric] lo[symmetric]
    by (rule uint_or_add[where n = 29])
      (use assms in \<open>simp_all only: hi lo\<close>, simp_all add: div_less_iff_less_mult)
qed

lemma bn_rshift_correct:
  assumes a: "bn_normalized a"
  shows "bn_normalized (bn_rshift a)" and "bn_val (bn_rshift a) = bn_val a div 2"
proof -
  let ?x = "\<lambda>k. uint (val a ! k)"
  have limb: "uint (val (bn_rshift a) ! k) = ?x k div 2 + (if k = 8 then 0 else 2 ^ 29 * (?x (k + 1) mod 2))"
    if "k < 9" for k
    using that a uint_rshift_limb[OF bn_limb_lt[OF a that], of "val a ! (k + 1)"]
    by (cases "k = 8") (simp_all add: bn_rshift_val uint_drop_bit)
  have "uint (val (bn_rshift a) ! k) < 2 ^ 30" if "k < 9" for k
  proof -
    have "?x k div 2 < 2 ^ 29" using bn_limb_lt[OF a that] by (simp add: div_less_iff_less_mult)
    moreover have "2 ^ 29 * (?x (k + 1) mod 2) \<le> 2 ^ 29" by simp
    ultimately show ?thesis unfolding limb[OF that] by (cases "k = 8") simp_all
  qed
  then show norm: "bn_normalized (bn_rshift a)"
    by (rule bn_normalizedI [rotated]) (use a in \<open>simp_all add: bn_rshift_val\<close>)
  define q r where "q k = ?x k div 2" and "r k = ?x k mod 2" for k
  have "bn_val a = (\<Sum>k<9. (2 * q k + r k) * 2 ^ (30 * k))"
    unfolding bn_val_sum[OF bn_normalized_wf[OF a]] q_def r_def by simp
  moreover have "bn_val (bn_rshift a)
      = (\<Sum>k<9. (q k + (if k = 8 then 0 else 2 ^ 29 * r (k + 1))) * 2 ^ (30 * k))"
    unfolding bn_val_sum[OF bn_normalized_wf[OF norm]] q_def r_def
    by (rule sum.cong[OF refl]) (simp only: limb lessThan_iff)
  ultimately have "2 * bn_val (bn_rshift a) + ?x 0 mod 2 = bn_val a"
    unfolding sum_9 r_def[of 0, symmetric] by (simp del: One_nat_def)
  moreover have "?x 0 mod 2 = 0 \<or> ?x 0 mod 2 = 1" by auto
  ultimately show "bn_val (bn_rshift a) = bn_val a div 2" by linarith
qed

section \<open>Byte strings\<close>

lemma uint_ucast_u8_u32: "uint (ucast (b :: u8) :: u32) = uint b"
  by (simp add: uint_ucast_up)

lemma uint_push_byte: "n \<le> 24 \<Longrightarrow> uint (push_bit n (ucast (b :: u8)) :: u32) = uint b * 2 ^ n"
proof -
  assume n: "n \<le> 24"
  then have "(2 :: int) ^ n \<le> 2 ^ 24" by (rule power_increasing) simp
  then have "uint b * 2 ^ n < 2 ^ 8 * 2 ^ 24"
    using uint_lt_u8[of b] by (intro mult_less_le_imp_less) simp_all
  then show ?thesis by (simp add: uint_push_bit uint_ucast_u8_u32)
qed

lemma be_val_4: "be_val [a, b, c, d] = uint a * 2 ^ 24 + uint b * 2 ^ 16 + uint c * 2 ^ 8 + uint d"
  by (simp add: be_val_Cons)

lemma uint_or_bytes: "uint (push_bit 24 (ucast a) OR push_bit 16 (ucast b) OR
     push_bit 8 (ucast c) OR ucast (d :: u8) :: u32) = be_val [a, b, c, d]"
proof -
  let ?A = "push_bit 24 (ucast a) :: u32" and ?B = "push_bit 16 (ucast b) :: u32"
    and ?C = "push_bit 8 (ucast c) :: u32" and ?D = "ucast d :: u32"
  have A: "uint ?A = uint a * 2 ^ 24" and B: "uint ?B = uint b * 2 ^ 16"
    and C: "uint ?C = uint c * 2 ^ 8" and D: "uint ?D = uint d"
    by (rule uint_push_byte uint_ucast_u8_u32; simp)+
  have CD: "uint (?D OR ?C) = uint ?D + uint ?C"
    by (rule uint_or_add[where n = 8]) (simp_all only: C D, use uint_lt_u8[of d] in simp_all)
  have BCD: "uint ((?D OR ?C) OR ?B) = uint (?D OR ?C) + uint ?B"
    by (rule uint_or_add[where n = 16]) (simp_all only: B C D CD, use uint_lt_u8[of d] uint_lt_u8[of c] in simp_all)
  have "uint (((?D OR ?C) OR ?B) OR ?A) = uint ((?D OR ?C) OR ?B) + uint ?A"
    by (rule uint_or_add[where n = 24])
      (simp_all only: A B C D CD BCD, use uint_lt_u8[of d] uint_lt_u8[of c] uint_lt_u8[of b] in simp_all)
  then have "uint (((?D OR ?C) OR ?B) OR ?A) = be_val [a, b, c, d]"
    by (simp only: A B C D CD BCD be_val_4 add.commute add.left_commute)
  then show ?thesis by (simp only: or.commute or.left_commute or.assoc)
qed

lemma uint_read_be: "4 \<le> length bs \<Longrightarrow> uint (read_be bs) = be_val (take 4 bs)"
proof -
  assume "4 \<le> length bs"
  then have "take 4 bs = [bs ! 0, bs ! 1, bs ! 2, bs ! 3]"
    by (intro nth_equalityI) (auto simp: less_Suc_eq numeral_eq_Suc)
  then show ?thesis by (simp only: read_be_def uint_or_bytes)
qed

lemma uint_read_le: "4 \<le> length bs \<Longrightarrow> uint (read_le bs) = le_val (take 4 bs)"
proof -
  assume "4 \<le> length bs"
  then have "take 4 bs = [bs ! 0, bs ! 1, bs ! 2, bs ! 3]"
    by (intro nth_equalityI) (auto simp: less_Suc_eq numeral_eq_Suc)
  then have "rev (take 4 bs) = [bs ! 3, bs ! 2, bs ! 1, bs ! 0]" by simp
  then show ?thesis by (simp only: le_val_def read_le_def uint_or_bytes)
qed

lemma length_write_be [simp]: "length (write_be x) = 4"
  by (simp add: write_be_def)

lemma length_write_le [simp]: "length (write_le x) = 4"
  by (simp add: write_le_def)

lemma write_le_rev: "write_le x = rev (write_be x)"
  by (simp add: write_le_def write_be_def)

lemma byte_digits:
  fixes y :: int
  assumes "0 \<le> y" "y < 4294967296"
  shows "y div 16777216 mod 256 * 16777216 + y div 65536 mod 256 * 65536
    + y div 256 mod 256 * 256 + y mod 256 = y"
proof -
  have d2: "y div 65536 = y div 256 div 256" and d3: "y div 16777216 = y div 256 div 256 div 256"
    by (simp_all flip: zdiv_zmult2_eq)
  have "y div 256 div 256 div 256 < 256" "0 \<le> y div 256 div 256 div 256"
    using assms by (simp_all add: div_less_iff_less_mult pos_imp_zdiv_nonneg_iff)
  then have "y div 256 div 256 div 256 mod 256 = y div 256 div 256 div 256" by simp
  moreover have "256 * (y div 256) + y mod 256 = y"
    "256 * (y div 256 div 256) + y div 256 mod 256 = y div 256"
    "256 * (y div 256 div 256 div 256) + y div 256 div 256 mod 256 = y div 256 div 256"
    by (rule mult_div_mod_eq)+
  ultimately show ?thesis unfolding d2 d3 by linarith
qed

lemma be_val_write_be: "be_val (write_be x) = uint x"
proof -
  have "uint (ucast (drop_bit n x) :: u8) = uint x div 2 ^ n mod 256" for n
    by (simp add: uint_ucast uint_drop_bit)
  moreover have "uint (ucast x :: u8) = uint x mod 256"
    by (simp add: uint_ucast)
  ultimately show ?thesis
    using byte_digits[OF uint_ge_0 uint_lt_u32] by (simp add: write_be_def be_val_4)
qed

lemma read_write_be [simp]: "read_be (write_be x @ bs) = x"
  using uint_read_be[of "write_be x @ bs"] be_val_write_be[of x] by (simp add: word_uint_eq_iff)

lemma read_write_le [simp]: "read_le (write_le x @ bs) = x"
  using uint_read_le[of "write_le x @ bs"] be_val_write_be[of x]
  by (simp add: word_uint_eq_iff le_val_def write_le_rev)

lemma write_read_be: "length bs = 4 \<Longrightarrow> write_be (read_be bs) = bs"
  by (rule be_val_inj) (simp_all add: be_val_write_be uint_read_be)

text \<open>Eight 32-bit words, least significant first, repacked into nine limbs.\<close>

lemma repack_arith:
  fixes t l :: int
  assumes t: "0 \<le> t" "t < 2 ^ (2 * i)" and l: "0 \<le> l" "l < 2 ^ 32" and i: "i < 8"
  shows "l * 2 ^ (2 * i) mod 2 ^ 32 mod 2 ^ (2 * i) = 0"
    and "(t + l * 2 ^ (2 * i) mod 2 ^ 32) mod 2 ^ 30 = (t + l * 2 ^ (2 * i)) mod 2 ^ 30"
    and "(t + l * 2 ^ (2 * i)) div 2 ^ 30 = l div 2 ^ (30 - 2 * i)"
    and "l div 2 ^ (30 - 2 * i) < 2 ^ (2 * Suc i)"
proof -
  have dvd: "(2 :: int) ^ (2 * i) dvd 2 ^ 32" by (rule le_imp_power_dvd) (use i in simp)
  show "l * 2 ^ (2 * i) mod 2 ^ 32 mod 2 ^ (2 * i) = 0"
    by (simp only: mod_mod_cancel[OF dvd] mod_mult_self2_is_0)
  have "(t + l * 2 ^ (2 * i) mod 2 ^ 32) mod 2 ^ 30 = (t + l * 2 ^ (2 * i) mod 2 ^ 32 mod 2 ^ 30) mod 2 ^ 30"
    by (simp only: mod_add_right_eq)
  also have "l * 2 ^ (2 * i) mod 2 ^ 32 mod 2 ^ 30 = l * 2 ^ (2 * i) mod 2 ^ 30"
    by (rule mod_mod_cancel) simp
  finally show "(t + l * 2 ^ (2 * i) mod 2 ^ 32) mod 2 ^ 30 = (t + l * 2 ^ (2 * i)) mod 2 ^ 30"
    by (simp only: mod_add_right_eq)
  have p30: "(2 :: int) ^ 30 = 2 ^ (2 * i) * 2 ^ (30 - 2 * i)"
    using i by (simp flip: power_add)
  have "(t + l * 2 ^ (2 * i)) div 2 ^ (2 * i) = l" using t by simp
  then show "(t + l * 2 ^ (2 * i)) div 2 ^ 30 = l div 2 ^ (30 - 2 * i)"
    unfolding p30 by (simp add: zdiv_zmult2_eq)
  have "(2 :: int) ^ 32 = 2 ^ (2 * Suc i) * 2 ^ (30 - 2 * i)"
    using i by (simp flip: power_add)
  then have "l < 2 ^ (2 * Suc i) * 2 ^ (30 - 2 * i)" using l by (simp only:)
  then show "l div 2 ^ (30 - 2 * i) < 2 ^ (2 * Suc i)"
    by (rule div_ltI) simp
qed

lemma repack_loop:
  fixes limb :: "nat \<Rightarrow> u32"
  defines "r \<equiv> for_up 0 8 (\<lambda>i (temp, v).
            let limb = limb i; temp = temp OR push_bit (2 * i) limb
            in (drop_bit (30 - 2 * i) limb, v[i := temp AND 0x3FFFFFFF])) (0, replicate 9 0)"
  shows "bn_normalized \<lparr>val = (snd r)[8 := fst r]\<rparr>"
    and "bn_val \<lparr>val = (snd r)[8 := fst r]\<rparr> = (\<Sum>i<8. uint (limb i) * 2 ^ (32 * i))"
proof -
  let ?D = "\<lambda>i. uint (limb i) * 2 ^ (2 * i)"
  let ?P = "\<lambda>i (t, v). carry_inv ?D 0 (replicate 9 0) i (uint t) v \<and> uint t < 2 ^ (2 * i)"
  have "?P 8 r"
    unfolding r_def
  proof (rule for_up_inv, goal_cases)
    case 2
    show ?case by (simp add: carry_inv_init[where t = 0, simplified])
  next
    case (3 i s)
    obtain t v where s: "s = (t, v)" by (cases s)
    have inv: "carry_inv ?D 0 (replicate 9 0) i (uint t) v" and t: "uint t < 2 ^ (2 * i)"
      using 3 by (simp_all add: s)
    have l: "uint (limb i) < 2 ^ 32" using uint_lt2p[of "limb i"] by simp
    note ar = repack_arith[OF uint_ge_0 t uint_ge_0 l 3(2)]
    have p: "uint (push_bit (2 * i) (limb i)) = ?D i mod 2 ^ 32" by (simp add: uint_push_bit)
    have "uint (t OR push_bit (2 * i) (limb i)) = uint t + ?D i mod 2 ^ 32"
      unfolding p[symmetric] by (rule uint_or_add[OF t]) (simp only: p ar)
    then have x: "uint ((t OR push_bit (2 * i) (limb i)) AND 0x3FFFFFFF) = (uint t + ?D i) mod 2 ^ 30"
      by (simp only: uint_and_30bit ar)
    have "carry_inv ?D 0 (replicate 9 0) (Suc i) (uint (drop_bit (30 - 2 * i) (limb i)))
        (v[i := (t OR push_bit (2 * i) (limb i)) AND 0x3FFFFFFF])"
      using carry_inv_step[OF inv _ x refl] 3 by (simp only: uint_drop_bit ar)
    then show ?case by (simp only: s prod.case Let_def uint_drop_bit ar simp_thms)
  qed simp
  then obtain t v where r: "r = (t, v)" and inv: "carry_inv ?D 0 (replicate 9 0) 8 (uint t) v"
    and t: "uint t < 2 ^ 16" by (cases r) auto
  have len: "length v = 9" and nv: "\<forall>k<8. uint (v ! k) < 2 ^ 30" and
    val: "limbs_val (take 8 v) + uint t * 2 ^ 240 = (\<Sum>k<8. ?D k * 2 ^ (30 * k))"
    using inv by (simp_all add: carry_inv_def)
  show "bn_normalized \<lparr>val = (snd r)[8 := fst r]\<rparr>"
    by (rule bn_normalizedI) (use len nv t in \<open>auto simp: r nth_list_update\<close>)
  have "v[8 := t] = take 8 v @ [t]"
    using len take_Suc_update[of 8 v t] by simp
  then have "bn_val \<lparr>val = (snd r)[8 := fst r]\<rparr> = (\<Sum>k<8. ?D k * 2 ^ (30 * k))"
    using len val by (simp add: r bn_val_def limbs_val_append mult.commute)
  also have "\<dots> = (\<Sum>i<8. uint (limb i) * 2 ^ (32 * i))"
    by (rule sum.cong) (simp_all add: mult.assoc flip: power_add)
  finally show "bn_val \<lparr>val = (snd r)[8 := fst r]\<rparr> = (\<Sum>i<8. uint (limb i) * 2 ^ (32 * i))" .
qed

lemma be_val_chunks:
  "length bs = 4 * n \<Longrightarrow> be_val bs = (\<Sum>i<n. be_val (take 4 (drop (4 * (n - 1 - i)) bs)) * 2 ^ (32 * i))"
proof (induction n arbitrary: bs)
  case 0
  then show ?case by simp
next
  case (Suc n)
  have IH: "be_val (take (4 * n) bs)
      = (\<Sum>i<n. be_val (take 4 (drop (4 * (n - 1 - i)) (take (4 * n) bs))) * 2 ^ (32 * i))"
    by (rule Suc.IH) (use Suc.prems in simp)
  have "be_val bs = be_val (take (4 * n) bs @ drop (4 * n) bs)" by simp
  also have "\<dots> = be_val (drop (4 * n) bs) + be_val (take (4 * n) bs) * 2 ^ 32"
    using Suc.prems by (simp only: be_val_append) simp
  also have "be_val (take (4 * n) bs) * 2 ^ 32
      = (\<Sum>i<n. be_val (take 4 (drop (4 * (n - 1 - i)) bs)) * 2 ^ (32 * Suc i))"
    unfolding IH sum_distrib_right
  proof (rule sum.cong[OF refl], goal_cases)
    case (1 i)
    then have "4 \<le> 4 * n - 4 * (n - 1 - i)" by auto
    then have "take 4 (drop (4 * (n - 1 - i)) (take (4 * n) bs)) = take 4 (drop (4 * (n - 1 - i)) bs)"
      by (simp add: drop_take min_absorb1)
    then show ?case by (simp add: power_add)
  qed
  also have "be_val (drop (4 * n) bs) = be_val (take 4 (drop (4 * (Suc n - 1 - 0)) bs)) * 2 ^ (32 * 0)"
    using Suc.prems by simp
  also have "be_val (take 4 (drop (4 * (Suc n - 1 - 0)) bs)) * 2 ^ (32 * 0)
      + (\<Sum>i<n. be_val (take 4 (drop (4 * (n - 1 - i)) bs)) * 2 ^ (32 * Suc i))
      = (\<Sum>i<Suc n. be_val (take 4 (drop (4 * (Suc n - 1 - i)) bs)) * 2 ^ (32 * i))"
    unfolding sum.lessThan_Suc_shift by simp
  finally show ?case .
qed

lemma bn_read_be_correct:
  assumes "length bs = 32"
  shows "bn_normalized (bn_read_be bs)" and "bn_val (bn_read_be bs) = be_val bs"
proof -
  note R = repack_loop[where limb = "\<lambda>i. read_be (drop ((7 - i) * 4) bs)"]
  show "bn_normalized (bn_read_be bs)"
    using R(1) by (simp add: bn_read_be_def split_beta)
  have "bn_val (bn_read_be bs) = (\<Sum>i<8. uint (read_be (drop ((7 - i) * 4) bs)) * 2 ^ (32 * i))"
    using R(2) by (simp add: bn_read_be_def split_beta)
  also have "\<dots> = (\<Sum>i<8. be_val (take 4 (drop (4 * (8 - 1 - i)) bs)) * 2 ^ (32 * i))"
    by (rule sum.cong[OF refl]) (use assms in \<open>auto simp: uint_read_be mult.commute\<close>)
  also have "\<dots> = be_val bs" using be_val_chunks[of bs 8] assms by simp
  finally show "bn_val (bn_read_be bs) = be_val bs" .
qed

lemma bn_read_le_correct:
  assumes "length bs = 32"
  shows "bn_normalized (bn_read_le bs)" and "bn_val (bn_read_le bs) = le_val bs"
proof -
  note R = repack_loop[where limb = "\<lambda>i. read_le (drop (i * 4) bs)"]
  show "bn_normalized (bn_read_le bs)"
    using R(1) by (simp add: bn_read_le_def split_beta)
  have "bn_val (bn_read_le bs) = (\<Sum>i<8. uint (read_le (drop (i * 4) bs)) * 2 ^ (32 * i))"
    using R(2) by (simp add: bn_read_le_def split_beta)
  also have "\<dots> = (\<Sum>i<8. be_val (take 4 (drop (4 * (8 - 1 - i)) (rev bs))) * 2 ^ (32 * i))"
  proof (rule sum.cong[OF refl], goal_cases)
    case (1 i)
    have "rev (take 4 (drop (i * 4) bs)) = take 4 (drop (4 * (8 - 1 - i)) (rev bs))"
    proof -
      have "28 - i * 4 = 4 * (7 - i)" "32 - (i * 4 + 4 * (7 - i)) = 4" using 1 by auto
      then show ?thesis using assms 1 by (simp add: rev_take rev_drop drop_take mult.commute)
    qed
    then show ?case using assms 1 by (simp add: uint_read_le le_val_def)
  qed
  also have "\<dots> = le_val bs" using be_val_chunks[of "rev bs" 8] assms by (simp add: le_val_def)
  finally show "bn_val (bn_read_le bs) = le_val bs" .
qed

subsection \<open>Writing\<close>

lemma bn_write_words:
  "for_up 0 n (\<lambda>i (temp, out). let limb = f i;
        temp = push_bit (a i) temp OR drop_bit (b i) limb in (limb, g temp out)) (t0, out0)
   = (if n = 0 then t0 else f (n - 1),
      for_up 0 n (\<lambda>i out. g (push_bit (a i) (if i = 0 then t0 else f (i - 1)) OR drop_bit (b i) (f i)) out) out0)"
  by (induction n) (simp_all add: for_up_last Let_def)

lemma for_up_append: "for_up 0 n (\<lambda>i out. out @ h i) out0 = out0 @ concat (map h [0..<n])"
  by (induction n) (simp_all add: for_up_last)

lemma for_up_prepend: "for_up 0 n (\<lambda>i out. h i @ out) out0 = concat (map h (rev [0..<n])) @ out0"
  by (induction n) (simp_all add: for_up_last)

text \<open>The \<open>j\<close>-th least significant 32-bit word of a normalized number.\<close>

definition bn_word :: "bignum256 \<Rightarrow> nat \<Rightarrow> u32" where
  "bn_word a j = push_bit (30 - 2 * j) (val a ! Suc j) OR drop_bit (2 * j) (val a ! j)"

lemma bn_write_be_words: "bn_write_be a = concat (map (\<lambda>i. write_be (bn_word a (7 - i))) [0..<8])"
proof -
  have "bn_write_be a = concat (map (\<lambda>i. write_be (push_bit (16 + 2 * i)
      (if i = 0 then val a ! 8 else val a ! (7 - (i - 1))) OR drop_bit (14 - 2 * i) (val a ! (7 - i)))) [0..<8])"
    unfolding bn_write_be_def bn_write_words snd_conv by (simp only: for_up_append append_Nil)
  also have "\<dots> = concat (map (\<lambda>i. write_be (bn_word a (7 - i))) [0..<8])"
    by (rule arg_cong[where f = concat], rule map_cong[OF refl])
      (auto simp: bn_word_def less_Suc_eq numeral_eq_Suc)
  finally show ?thesis .
qed

lemma bn_write_le_words: "bn_write_le a = concat (map (\<lambda>i. write_le (bn_word a (7 - i))) (rev [0..<8]))"
proof -
  have "bn_write_le a = concat (map (\<lambda>i. write_le (push_bit (16 + 2 * i)
      (if i = 0 then val a ! 8 else val a ! (7 - (i - 1))) OR drop_bit (14 - 2 * i) (val a ! (7 - i)))) (rev [0..<8]))"
    unfolding bn_write_le_def bn_write_words snd_conv by (simp only: for_up_prepend append_Nil2)
  also have "\<dots> = concat (map (\<lambda>i. write_le (bn_word a (7 - i))) (rev [0..<8]))"
    by (rule arg_cong[where f = concat], rule map_cong[OF refl])
      (auto simp: bn_word_def less_Suc_eq numeral_eq_Suc)
  finally show ?thesis .
qed

lemma uint_bn_word:
  assumes a: "bn_normalized a" and j: "j < 8"
  shows "uint (bn_word a j)
    = uint (val a ! Suc j) mod 2 ^ (2 + 2 * j) * 2 ^ (30 - 2 * j) + uint (val a ! j) div 2 ^ (2 * j)"
proof -
  have "uint (push_bit (30 - 2 * j) (val a ! Suc j)) = uint (val a ! Suc j) * 2 ^ (30 - 2 * j) mod 2 ^ 32"
    by (simp add: uint_push_bit)
  also have "(2 :: int) ^ 32 = 2 ^ (2 + 2 * j) * 2 ^ (30 - 2 * j)" using j by (simp flip: power_add)
  also have "uint (val a ! Suc j) * 2 ^ (30 - 2 * j) mod (2 ^ (2 + 2 * j) * 2 ^ (30 - 2 * j))
      = uint (val a ! Suc j) mod 2 ^ (2 + 2 * j) * 2 ^ (30 - 2 * j)"
    by (simp only: mult_mod_left)
  finally have hi: "uint (push_bit (30 - 2 * j) (val a ! Suc j))
      = uint (val a ! Suc j) mod 2 ^ (2 + 2 * j) * 2 ^ (30 - 2 * j)" .
  have lo: "uint (drop_bit (2 * j) (val a ! j)) = uint (val a ! j) div 2 ^ (2 * j)"
    by (simp add: uint_drop_bit)
  have "(2 :: int) ^ 30 = 2 ^ (30 - 2 * j) * 2 ^ (2 * j)" using j by (simp flip: power_add)
  then have "uint (val a ! j) < 2 ^ (30 - 2 * j) * 2 ^ (2 * j)"
    using bn_limb_lt[OF a, of j] j by (simp only:)
  then have b: "uint (val a ! j) div 2 ^ (2 * j) < 2 ^ (30 - 2 * j)"
    by (rule div_ltI) simp
  have "uint (drop_bit (2 * j) (val a ! j) OR push_bit (30 - 2 * j) (val a ! Suc j))
      = uint (drop_bit (2 * j) (val a ! j)) + uint (push_bit (30 - 2 * j) (val a ! Suc j))"
    by (rule uint_or_add[where n = "30 - 2 * j"]) (simp_all only: hi lo b mod_mult_self2_is_0)
  then show ?thesis by (simp only: bn_word_def or.commute hi lo add.commute)
qed

lemma bn_words_sum:
  assumes a: "bn_normalized a" and n: "n \<le> 8"
  shows "(\<Sum>j<n. uint (bn_word a j) * 2 ^ (32 * j))
    = (\<Sum>j<n. uint (val a ! j) * 2 ^ (30 * j)) + uint (val a ! n) mod 2 ^ (2 * n) * 2 ^ (30 * n)"
  using n
proof (induction n)
  case 0
  then show ?case by simp
next
  case (Suc n)
  let ?x = "uint (val a ! n)"
  have e: "(2 :: int) ^ (30 - 2 * n) * (2 ^ (2 * n) * 2 ^ (30 * n)) = 2 ^ (30 * Suc n)"
    "(2 :: int) ^ (32 * n) = 2 ^ (2 * n) * 2 ^ (30 * n)" "2 + 2 * n = 2 * Suc n"
    using Suc.prems by (simp_all flip: power_add)
  have "(\<Sum>j<Suc n. uint (bn_word a j) * 2 ^ (32 * j))
      = (\<Sum>j<n. uint (val a ! j) * 2 ^ (30 * j)) + ?x mod 2 ^ (2 * n) * 2 ^ (30 * n)
      + (uint (val a ! Suc n) mod 2 ^ (2 + 2 * n) * 2 ^ (30 - 2 * n) + ?x div 2 ^ (2 * n)) * 2 ^ (32 * n)"
    using Suc uint_bn_word[OF a, of n] by simp
  also have "\<dots> = (\<Sum>j<n. uint (val a ! j) * 2 ^ (30 * j))
      + (?x mod 2 ^ (2 * n) + 2 ^ (2 * n) * (?x div 2 ^ (2 * n))) * 2 ^ (30 * n)
      + uint (val a ! Suc n) mod 2 ^ (2 * Suc n) * 2 ^ (30 * Suc n)"
    unfolding distrib_right mult.assoc e by (simp only: ac_simps)
  finally show ?case by (simp only: mod_mult_div_eq sum.lessThan_Suc)
qed

lemma be_val_words:
  "be_val (concat (map (\<lambda>i. write_be (w i)) [0..<n])) = (\<Sum>j<n. uint (w (n - 1 - j)) * 2 ^ (32 * j))"
proof (induction n)
  case (Suc n)
  have "(\<Sum>j<Suc n. uint (w (Suc n - 1 - j)) * 2 ^ (32 * j))
      = uint (w n) + (\<Sum>j<n. uint (w (n - 1 - j)) * 2 ^ (32 * j)) * 2 ^ 32"
    unfolding sum.lessThan_Suc_shift by (simp add: sum_distrib_right power_add ac_simps)
  then show ?case using Suc by (simp add: be_val_append be_val_write_be)
qed simp

lemma length_bn_write_be [simp]: "length (bn_write_be a) = 32"
  by (simp add: bn_write_be_words length_concat comp_def sum_list_triv)

text \<open>Every normalized number is written modulo \<open>2^256\<close>, so exactly when it fits.\<close>

lemma bn_write_be_correct:
  assumes a: "bn_normalized a"
  shows "be_val (bn_write_be a) = bn_val a mod 2 ^ 256"
proof -
  have "be_val (bn_write_be a) = (\<Sum>j<8. uint (bn_word a j) * 2 ^ (32 * j))"
    unfolding bn_write_be_words be_val_words by (rule sum.cong) (auto simp: diff_diff_cancel)
  also have "\<dots> = (\<Sum>j<8. uint (val a ! j) * 2 ^ (30 * j)) + uint (val a ! 8) mod 2 ^ 16 * 2 ^ 240"
    using bn_words_sum[OF a, of 8] by simp
  finally have bw: "be_val (bn_write_be a)
      = (\<Sum>j<8. uint (val a ! j) * 2 ^ (30 * j)) + uint (val a ! 8) mod 2 ^ 16 * 2 ^ 240" .
  have "be_val (bn_write_be a) + uint (val a ! 8) div 2 ^ 16 * 2 ^ 256
      = (\<Sum>j<8. uint (val a ! j) * 2 ^ (30 * j))
        + (2 ^ 16 * (uint (val a ! 8) div 2 ^ 16) + uint (val a ! 8) mod 2 ^ 16) * 2 ^ 240"
  proof -
    have "s + r * 2 ^ 240 + q * 2 ^ 256 = s + (2 ^ 16 * q + r) * 2 ^ 240" for s q r :: int by simp
    then show ?thesis by (simp only: bw)
  qed
  also have "\<dots> = (\<Sum>j<Suc 8. uint (val a ! j) * 2 ^ (30 * j))"
    unfolding mult_div_mod_eq sum.lessThan_Suc by simp
  finally have w: "be_val (bn_write_be a) + uint (val a ! 8) div 2 ^ 16 * 2 ^ 256 = bn_val a"
    using a by (simp add: bn_val_sum)
  have "be_val (bn_write_be a) < 2 ^ 256" using be_val_lt[of "bn_write_be a"] by simp
  then have "be_val (bn_write_be a) = (be_val (bn_write_be a) + uint (val a ! 8) div 2 ^ 16 * 2 ^ 256) mod 2 ^ 256"
    by simp
  then show ?thesis by (simp only: w)
qed

lemma bn_write_le_rev: "bn_write_le a = rev (bn_write_be a)"
  by (simp add: bn_write_le_words bn_write_be_words write_le_rev rev_concat rev_map comp_def)

lemma bn_read_write_be:
  assumes "bn_normalized a" and "bn_val a < 2 ^ 256"
  shows "bn_read_be (bn_write_be a) = a"
  using bn_read_be_correct[of "bn_write_be a"] bn_write_be_correct[OF assms(1)] assms
  by (simp add: bn_normalized_eq[symmetric])

lemma bn_write_read_be:
  assumes "length bs = 32"
  shows "bn_write_be (bn_read_be bs) = bs"
proof (rule be_val_inj)
  have "be_val bs < 2 ^ 256" using be_val_lt[of bs] assms by simp
  then show "be_val (bn_write_be (bn_read_be bs)) = be_val bs"
    using bn_write_be_correct bn_read_be_correct[OF assms] by simp
qed (use assms in simp)

end
