(* ===== verification/BignumMul.thy ===== *)
theory BignumMul
  imports Bignum
begin

text \<open>
  Multiplication and the modular operations of \<open>trezor-crypto/src/bignum.c\<close>: the long
  product in an 18-limb scratch array, its reduction by an estimated quotient, the partial
  and full reduction, halving, multiplication by a small factor, and the two powers that the
  code computes by square and multiply (\<open>x^(p-2)\<close> for the inverse, \<open>x^((p+1)/4)\<close> for the
  square root).

  The code states its contract in comments: primes lie between \<open>2^256 - 2^224\<close> and \<open>2^256\<close>,
  a partly reduced number is normalized and below twice the prime. \<open>bn_prime\<close> and
  \<open>partly_reduced\<close> are these two predicates; primality itself is used by none of the
  operations.
\<close>

unbundle bit_operations_syntax

section \<open>Operations\<close>

subsection \<open>Reduction\<close>

definition bn_fast_mod :: "bignum256 \<Rightarrow> bignum256 \<Rightarrow> bignum256" where
  "bn_fast_mod x prime =
     (let coef = drop_bit 16 (val x ! 8);
          temp = 0x2000000000000000 + ucast (val x ! 0) - ucast (val prime ! 0) * (ucast coef :: u64);
          v = (val x)[0 := ucast (temp AND 0x3FFFFFFF)];
          (temp, v) = for_up 1 9 (\<lambda>j (temp, v).
            let temp = drop_bit 30 temp;
                temp = temp + (0x1FFFFFFF80000000 + ucast (v ! j) - ucast (val prime ! j) * ucast coef)
            in (temp, v[j := ucast (temp AND 0x3FFFFFFF)])) (temp, v)
      in x\<lparr>val := v\<rparr>)"

definition bn_mod :: "bignum256 \<Rightarrow> bignum256 \<Rightarrow> bignum256" where
  "bn_mod x prime =
     (let flag = of_bool (bn_is_less x prime);
          temp = bn_subtract x prime
      in bn_cmov flag x temp)"

definition bn_addmod :: "bignum256 \<Rightarrow> bignum256 \<Rightarrow> bignum256 \<Rightarrow> bignum256" where
  "bn_addmod a b prime =
     bn_fast_mod (a\<lparr>val := for_up 0 9 (\<lambda>i v. v[i := v ! i + val b ! i]) (val a)\<rparr>) prime"

definition bn_mult_k :: "bignum256 \<Rightarrow> u8 \<Rightarrow> bignum256 \<Rightarrow> bignum256" where
  "bn_mult_k x k prime =
     bn_fast_mod (x\<lparr>val := for_up 0 9 (\<lambda>j v. v[j := ucast k * v ! j]) (val x)\<rparr>) prime"

definition bn_mult_half :: "bignum256 \<Rightarrow> bignum256 \<Rightarrow> bignum256" where
  "bn_mult_half x prime =
     (let xodd = - (val x ! 0 AND 1);
          tmp1 = drop_bit 1 (val x ! 0 + (val prime ! 0 AND xodd));
          (tmp1, v) = for_up 0 8 (\<lambda>j (tmp1, v).
            let tmp2 = v ! (j + 1) + (val prime ! (j + 1) AND xodd);
                tmp1 = tmp1 + push_bit 29 (tmp2 AND 1);
                v = v[j := tmp1 AND 0x3FFFFFFF];
                tmp1 = drop_bit 30 tmp1;
                tmp1 = tmp1 + drop_bit 1 tmp2
            in (tmp1, v)) (tmp1, val x)
      in x\<lparr>val := v[8 := tmp1]\<rparr>)"

subsection \<open>Multiplication\<close>

definition bn_multiply_long :: "bignum256 \<Rightarrow> bignum256 \<Rightarrow> u32 list" where
  "bn_multiply_long k x =
     (let res = replicate 18 0;
          (temp, res) = for_up 0 9 (\<lambda>i (temp :: u64, res :: u32 list).
            let temp = for_up 0 (i + 1) (\<lambda>j temp. temp + ucast (val k ! j) * ucast (val x ! (i - j))) temp
            in (drop_bit 30 temp, res[i := ucast (temp AND 0x3FFFFFFF)])) (0, res);
          (temp, res) = for_up 9 17 (\<lambda>i (temp, res).
            let temp = for_up (i - 8) 9 (\<lambda>j temp. temp + ucast (val k ! j) * ucast (val x ! (i - j))) temp
            in (drop_bit 30 temp, res[i := ucast (temp AND 0x3FFFFFFF)])) (temp, res)
      in res[17 := ucast temp])"

text \<open>The quotient estimate of a step; the code asserts that it stays below \<open>2^31\<close>.\<close>

definition reduce_coef :: "u32 list \<Rightarrow> nat \<Rightarrow> u32" where
  "reduce_coef res i = drop_bit 16 (res ! i) + push_bit 14 (res ! (i + 1))"

definition bn_multiply_reduce_step :: "u32 list \<Rightarrow> bignum256 \<Rightarrow> nat \<Rightarrow> u32 list" where
  "bn_multiply_reduce_step res prime i =
     (let coef = reduce_coef res i;
          temp = 0x2000000000000000 + ucast (res ! (i - 8)) - ucast (val prime ! 0) * (ucast coef :: u64);
          res = res[i - 8 := ucast (temp AND 0x3FFFFFFF)];
          (temp, res) = for_up 1 9 (\<lambda>j (temp, res).
            let temp = drop_bit 30 temp;
                temp = temp + (0x1FFFFFFF80000000 + ucast (res ! (i - 8 + j))
                               - ucast (val prime ! j) * ucast coef)
            in (temp, res[i - 8 + j := ucast (temp AND 0x3FFFFFFF)])) (temp, res);
          temp = drop_bit 30 temp;
          temp = temp + (0x1FFFFFFF80000000 + ucast (res ! (i - 8 + 9)))
      in res[i - 8 + 9 := ucast (temp AND 0x3FFFFFFF)])"

definition bn_multiply_reduce :: "u32 list \<Rightarrow> bignum256 \<Rightarrow> bignum256" where
  "bn_multiply_reduce res prime =
     (let res = for_down 17 8 (\<lambda>i res. bn_multiply_reduce_step res prime i) res
      in \<lparr>val = for_up 0 9 (\<lambda>i v. v[i := res ! i]) (replicate 9 0)\<rparr>)"

definition bn_multiply :: "bignum256 \<Rightarrow> bignum256 \<Rightarrow> bignum256 \<Rightarrow> bignum256" where
  "bn_multiply k x prime = bn_multiply_reduce (bn_multiply_long k x) prime"

subsection \<open>Powers\<close>

text \<open>
  One pass over the 30 bits of a limb, least significant first. \<open>last_limb\<close> is the test
  \<open>i == 8\<close> of the early exit: the remaining bits of the last limb are zero.
\<close>

fun pow_bits :: "nat \<Rightarrow> bool \<Rightarrow> u32 \<Rightarrow> bignum256 \<Rightarrow> bignum256 \<times> bignum256 \<Rightarrow> bignum256 \<times> bignum256" where
  "pow_bits 0 last_limb limb prime (x, res) = (x, res)"
| "pow_bits (Suc n) last_limb limb prime (x, res) =
     (if last_limb \<and> limb = 0 then (x, res)
      else pow_bits n last_limb (drop_bit 1 limb) prime
             (bn_multiply x x prime, if limb AND 1 = 1 then bn_multiply x res prime else res))"

definition bn_inverse :: "bignum256 \<Rightarrow> bignum256 \<Rightarrow> bignum256" where
  "bn_inverse x prime =
     (let (x, res) = for_up 0 9 (\<lambda>i (x, res).
            let limb = val prime ! i;
                limb = (if i = 0 then limb - 2 else limb)
            in pow_bits 30 (i = 8) limb prime (x, res)) (x, bn_one)
      in bn_mod res prime)"

definition bn_sqrt :: "bignum256 \<Rightarrow> bignum256 \<Rightarrow> bignum256" where
  "bn_sqrt x prime =
     (let p = bn_rshift (bn_rshift (bn_addi prime 1));
          (x, res) = for_up 0 9 (\<lambda>i (x, res). pow_bits 30 (i = 8) (val p ! i) prime (x, res)) (x, bn_one)
      in bn_mod res prime)"

section \<open>Contracts\<close>

definition bn_prime :: "bignum256 \<Rightarrow> bool" where
  "bn_prime p \<longleftrightarrow> bn_normalized p \<and> 2 ^ 256 - 2 ^ 224 \<le> bn_val p \<and> bn_val p < 2 ^ 256"

definition partly_reduced :: "bignum256 \<Rightarrow> bignum256 \<Rightarrow> bool" where
  "partly_reduced x p \<longleftrightarrow> bn_normalized x \<and> bn_val x < 2 * bn_val p"

section \<open>The carry chain in a window of a longer array\<close>

text \<open>
  \<open>win_inv D t0 v0 off i t v\<close>: the loop has rewritten the \<open>i\<close> limbs of \<open>v0\<close> from
  index \<open>off\<close>, \<open>t\<close> is the outgoing carry.
\<close>

definition win_inv :: "(nat \<Rightarrow> int) \<Rightarrow> int \<Rightarrow> u32 list \<Rightarrow> nat \<Rightarrow> nat \<Rightarrow> int \<Rightarrow> u32 list \<Rightarrow> bool" where
  "win_inv D t0 v0 off i t v \<longleftrightarrow>
     length v = length v0 \<and> (\<forall>k. k < off \<or> off + i \<le> k \<longrightarrow> v ! k = v0 ! k) \<and>
     (\<forall>k<i. uint (v ! (off + k)) < 2 ^ 30) \<and>
     limbs_val (take i (drop off v)) + t * 2 ^ (30 * i) = t0 + (\<Sum>k<i. D k * 2 ^ (30 * k))"

lemma win_inv_init: "win_inv D t v off 0 t v"
  by (simp add: win_inv_def)

lemma win_inv_nth: "win_inv D t0 v0 off i t v \<Longrightarrow> v ! (off + i) = v0 ! (off + i)"
  by (simp add: win_inv_def)

lemma win_inv_length: "win_inv D t0 v0 off i t v \<Longrightarrow> length v = length v0"
  by (simp add: win_inv_def)

lemma win_inv_step:
  assumes inv: "win_inv D t0 v0 off i t v" and i: "off + i < length v0"
    and x: "uint x = T mod 2 ^ 30" and T: "T = t + D i"
  shows "win_inv D t0 v0 off (Suc i) (T div 2 ^ 30) (v[off + i := x])"
proof -
  have len: "length v = length v0" using inv by (rule win_inv_length)
  have tk: "take (Suc i) (drop off (v[off + i := x])) = take i (drop off v) @ [x]"
    using len i by (simp add: drop_update_swap take_Suc_update)
  have "limbs_val (take (Suc i) (drop off (v[off + i := x]))) + q * 2 ^ (30 * Suc i)
      = limbs_val (take i (drop off v)) + (uint x + 2 ^ 30 * q) * 2 ^ (30 * i)" for q
    unfolding tk using len i by (simp add: limbs_val_append algebra_simps power_add)
  note this [of "T div 2 ^ 30"]
  also have "uint x + 2 ^ 30 * (T div 2 ^ 30) = t + D i"
    by (simp only: x T mod_mult_div_eq)
  finally have "limbs_val (take (Suc i) (drop off (v[off + i := x]))) + T div 2 ^ 30 * 2 ^ (30 * Suc i)
      = t0 + (\<Sum>k<Suc i. D k * 2 ^ (30 * k))"
    using inv by (simp add: win_inv_def algebra_simps)
  moreover have "\<forall>k<Suc i. uint (v[off + i := x] ! (off + k)) < 2 ^ 30"
    using inv len i x by (auto simp: win_inv_def nth_list_update less_Suc_eq)
  ultimately show ?thesis
    using inv len by (simp add: win_inv_def)
qed

lemma uint_low30_u64: "uint (ucast ((t :: u64) AND 0x3FFFFFFF) :: u32) = uint t mod 2 ^ 30"
  by (simp add: uint_ucast uint_and_30bit mod_mod_trivial)

text \<open>The biased 64-bit digit of the two subtraction loops never wraps.\<close>

definition sub_bias :: int where
  "sub_bias = 2 ^ 61 - 2 ^ 31"

lemma sub_bias_num: "sub_bias = 2305843007066210304"
  by (simp add: sub_bias_def)

lemma mult_lt_bound:
  fixes p c :: int
  assumes "0 \<le> p" "p < 2 ^ 30" "0 \<le> c" "c < 2 ^ 31"
  shows "0 \<le> p * c" and "p * c \<le> 2305843005992468481"
proof -
  show "0 \<le> p * c" using assms by simp
  have "p * c \<le> (2 ^ 30 - 1) * (2 ^ 31 - 1)" using assms by (intro mult_mono) simp_all
  then show "p * c \<le> 2305843005992468481" by simp
qed

lemma uint_sub_digit:
  fixes t :: u64 and r p c :: u32
  assumes p: "uint p < 2 ^ 30" and c: "uint c < 2 ^ 31" and t: "uint t < 2 ^ 34"
  shows "uint (t + (0x1FFFFFFF80000000 + ucast r - ucast p * ucast c)) = uint t + (sub_bias + uint r - uint p * uint c)"
    and "0 \<le> sub_bias + uint r - uint p * uint c"
proof -
  note pc = mult_lt_bound[OF uint_ge_0 p uint_ge_0 c]
  have r: "0 \<le> uint r" "uint r < 4294967296" using uint_lt_u32[of r] by simp_all
  show nn: "0 \<le> sub_bias + uint r - uint p * uint c"
    unfolding sub_bias_num using pc r by linarith
  show "uint (t + (0x1FFFFFFF80000000 + ucast r - ucast p * ucast c)) = uint t + (sub_bias + uint r - uint p * uint c)"
  proof (rule uint_eqI)
    show "t + (0x1FFFFFFF80000000 + ucast r - ucast p * ucast c)
        = word_of_int (uint t + (sub_bias + uint r - uint p * uint c))"
      by (simp add: sub_bias_def)
    show "0 \<le> uint t + (sub_bias + uint r - uint p * uint c)" using nn by simp
    show "uint t + (sub_bias + uint r - uint p * uint c) < 2 ^ LENGTH(64)"
    proof -
      have "uint t < 17179869184" using t by simp
      then show ?thesis unfolding sub_bias_num len64 using pc r by linarith
    qed
  qed
qed

text \<open>
  The subtraction of \<open>c\<close> times the prime from nine limbs at \<open>off\<close>, as both
  \<open>bn_fast_mod\<close> and \<open>bn_multiply_reduce_step\<close> run it, up to the carry after limb 8.
\<close>

definition sub_mul :: "u32 list \<Rightarrow> bignum256 \<Rightarrow> nat \<Rightarrow> u32 \<Rightarrow> u64 \<times> u32 list" where
  "sub_mul v prime off coef =
     (let temp = 0x2000000000000000 + ucast (v ! off) - ucast (val prime ! 0) * (ucast coef :: u64);
          v = v[off := ucast (temp AND 0x3FFFFFFF)]
      in for_up 1 9 (\<lambda>j (temp, v).
            let temp = drop_bit 30 temp;
                temp = temp + (0x1FFFFFFF80000000 + ucast (v ! (off + j)) - ucast (val prime ! j) * ucast coef)
            in (temp, v[off + j := ucast (temp AND 0x3FFFFFFF)])) (temp, v))"

definition sub_digit :: "u32 list \<Rightarrow> bignum256 \<Rightarrow> nat \<Rightarrow> u32 \<Rightarrow> nat \<Rightarrow> int" where
  "sub_digit v prime off coef j = sub_bias + uint (v ! (off + j)) - uint (val prime ! j) * uint coef"

lemma sub_mul_inv:
  assumes p: "bn_normalized prime" and c: "uint coef < 2 ^ 31" and len: "off + 9 \<le> length v0"
  obtains t v where "sub_mul v0 prime off coef = (t, v)"
    and "win_inv (sub_digit v0 prime off coef) (2 ^ 31) v0 off 9 (uint t div 2 ^ 30) v"
proof -
  let ?D = "sub_digit v0 prime off coef"
  let ?P = "\<lambda>j (t :: u64, v). win_inv ?D (2 ^ 31) v0 off j (uint t div 2 ^ 30) v"
  let ?t0 = "0x2000000000000000 + ucast (v0 ! off) - ucast (val prime ! 0) * (ucast coef :: u64)"
  let ?v1 = "v0[off := ucast (?t0 AND 0x3FFFFFFF)]"
  have eq: "?t0 = 0x80000000 + (0x1FFFFFFF80000000 + ucast (v0 ! off) - ucast (val prime ! 0) * ucast coef)"
    by simp
  have u31: "uint (0x80000000 :: u64) = 2 ^ 31" by simp
  have "uint ((0x80000000 :: u64) + (0x1FFFFFFF80000000 + ucast (v0 ! off) - ucast (val prime ! 0) * ucast coef))
      = uint (0x80000000 :: u64) + (sub_bias + uint (v0 ! off) - uint (val prime ! 0) * uint coef)"
    by (rule uint_sub_digit(1)[OF bn_limb_lt[OF p] c]) simp_all
  then have t0: "uint ?t0 = 2 ^ 31 + ?D 0"
    by (subst eq) (simp only: u31 sub_digit_def add_0_right)
  have "?P 9 (sub_mul v0 prime off coef)"
    unfolding sub_mul_def Let_def
  proof (rule for_up_inv, goal_cases)
    case 2
    have "win_inv ?D (2 ^ 31) v0 off (Suc 0) (uint ?t0 div 2 ^ 30) (v0[off + 0 := ucast (?t0 AND 0x3FFFFFFF)])"
      by (rule win_inv_step[where D = ?D, OF win_inv_init _ uint_low30_u64 t0]) (use len in simp)
    then show ?case by simp
  next
    case (3 j s)
    obtain t v where s: "s = (t, v)" by (cases s)
    have inv: "win_inv ?D (2 ^ 31) v0 off j (uint t div 2 ^ 30) v" using 3 by (simp add: s)
    let ?t = "drop_bit 30 t + (0x1FFFFFFF80000000 + ucast (v ! (off + j)) - ucast (val prime ! j) * ucast coef)"
    have "uint (drop_bit 30 t) < 2 ^ 34"
      using uint_lt_u64[of t] by (simp add: uint_drop_bit div_ltI)
    then have t: "uint ?t = uint t div 2 ^ 30 + ?D j"
      using uint_sub_digit(1)[OF bn_limb_lt[OF p 3(2)] c, of "drop_bit 30 t" "v ! (off + j)"] win_inv_nth[OF inv]
      by (simp add: sub_digit_def uint_drop_bit)
    have "win_inv ?D (2 ^ 31) v0 off (Suc j) (uint ?t div 2 ^ 30) (v[off + j := ucast (?t AND 0x3FFFFFFF)])"
      by (rule win_inv_step[OF inv _ uint_low30_u64 t]) (use len 3 in simp)
    then show ?case by (simp add: s)
  qed simp
  then show ?thesis using that by (cases "sub_mul v0 prime off coef") auto
qed

lemma sub_digit_sum:
  assumes "length v = n" "off + 9 \<le> n" "bn_wf prime"
  shows "(\<Sum>k<9. sub_digit v prime off coef k * 2 ^ (30 * k))
    = 2 ^ 31 * (2 ^ 270 - 1) + limbs_val (take 9 (drop off v)) - uint coef * bn_val prime"
proof -
  have "(\<Sum>k<9. sub_digit v prime off coef k * 2 ^ (30 * k))
      = (\<Sum>k<9. 2 ^ 31 * (2 ^ 30 - 1) * 2 ^ (30 * k) + uint (take 9 (drop off v) ! k) * 2 ^ (30 * k)
          - uint coef * (uint (val prime ! k) * 2 ^ (30 * k)))"
    by (rule sum.cong[OF refl]) (use assms in \<open>simp add: sub_digit_def sub_bias_num algebra_simps\<close>)
  also have "\<dots> = 2 ^ 31 * (2 ^ 270 - 1) + limbs_val (take 9 (drop off v)) - uint coef * bn_val prime"
    unfolding sum.distrib sum_subtractf sum_radix_9
    using assms by (simp add: bn_val_sum limbs_val_sum sum_distrib_left)
  finally show ?thesis .
qed

section \<open>Partial and full reduction\<close>

lemma bn_fast_mod_sub_mul:
  "bn_fast_mod x prime = \<lparr>val = snd (sub_mul (val x) prime 0 (drop_bit 16 (val x ! 8)))\<rparr>"
  by (simp add: bn_fast_mod_def sub_mul_def Let_def split_beta)

text \<open>Any nine limbs: the upper 16 bits of the top limb estimate the quotient.\<close>

lemma fast_mod_bounds:
  fixes low x8 c p :: int
  assumes "0 \<le> low" and "low < 2 ^ 243" and x8: "0 \<le> x8" "x8 < 2 ^ 32" and c: "c = x8 div 2 ^ 16"
    and p: "2 ^ 256 - 2 ^ 224 \<le> p" "p < 2 ^ 256"
  shows "0 \<le> low + x8 * 2 ^ 240 - c * p" and "low + x8 * 2 ^ 240 - c * p < 2 * p" and "c < 2 ^ 31" "0 \<le> c"
proof -
  have c0: "0 \<le> c" and c16: "c < 2 ^ 16"
    using x8 by (simp_all add: c div_ltI pos_imp_zdiv_nonneg_iff)
  then show "c < 2 ^ 31" "0 \<le> c" by simp_all
  have x: "x8 * 2 ^ 240 = c * 2 ^ 256 + x8 mod 2 ^ 16 * 2 ^ 240"
  proof -
    have "(2 ^ 16 * q + r) * 2 ^ 240 = q * 2 ^ 256 + r * 2 ^ 240" for q r :: int by simp
    from this[of c "x8 mod 2 ^ 16"] show ?thesis unfolding c mult_div_mod_eq .
  qed
  have r: "0 \<le> x8 mod 2 ^ 16" "x8 mod 2 ^ 16 \<le> 2 ^ 16 - 1"
    using pos_mod_bound[of "2 ^ 16" x8] by simp_all
  have e: "low + x8 * 2 ^ 240 - c * p = low + x8 mod 2 ^ 16 * 2 ^ 240 + c * (2 ^ 256 - p)"
    unfolding x by (simp only: right_diff_distrib)
  have cp: "0 \<le> c * (2 ^ 256 - p)" "c * (2 ^ 256 - p) \<le> 2 ^ 16 * 2 ^ 224"
    using c0 c16 p by (simp, intro mult_mono) simp_all
  show "0 \<le> low + x8 * 2 ^ 240 - c * p"
    unfolding e using assms(1) cp r by simp
  show "low + x8 * 2 ^ 240 - c * p < 2 * p"
    unfolding e using assms(2) cp r p by simp
qed

lemma limbs_low8_lt:
  assumes "length xs = 8"
  shows "limbs_val xs < 2 ^ 243"
proof -
  have "limbs_val xs = (\<Sum>k<8. uint (xs ! k) * 2 ^ (30 * k))"
    using assms by (simp add: limbs_val_sum)
  also have "\<dots> \<le> (\<Sum>k<8. (2 ^ 32 - 1) * 2 ^ (30 * k))"
  proof (intro sum_mono mult_right_mono)
    show "uint (xs ! k) \<le> 2 ^ 32 - 1" for k using uint_lt_u32[of "xs ! k"] by simp
  qed simp
  also have "\<dots> < 2 ^ 243"
    by (simp add: eval_nat_numeral)
  finally show ?thesis .
qed

lemma bn_fast_mod_correct:
  assumes x: "bn_wf x" and p: "bn_prime p"
  shows "bn_normalized (bn_fast_mod x p)"
    and "bn_val (bn_fast_mod x p) = bn_val x - uint (drop_bit 16 (val x ! 8)) * bn_val p"
    and "bn_val (bn_fast_mod x p) < 2 * bn_val p"
proof -
  let ?c = "drop_bit 16 (val x ! 8)"
  have pn: "bn_normalized p" and pb: "2 ^ 256 - 2 ^ 224 \<le> bn_val p" "bn_val p < 2 ^ 256"
    using p by (simp_all add: bn_prime_def)
  have len: "length (val x) = 9" using x by simp
  have "val x = take 8 (val x) @ [val x ! 8]"
    using len take_Suc_conv_app_nth[of 8 "val x"] by simp
  then have "bn_val x = limbs_val (take 8 (val x) @ [val x ! 8])"
    by (simp add: bn_val_def)
  then have X: "bn_val x = limbs_val (take 8 (val x)) + uint (val x ! 8) * 2 ^ 240"
    using len by (simp add: limbs_val_append)
  have c: "uint ?c = uint (val x ! 8) div 2 ^ 16" by (simp add: uint_drop_bit)
  have x8: "uint (val x ! 8) < 2 ^ 32" using uint_lt_u32[of "val x ! 8"] by simp
  note B = fast_mod_bounds[OF limbs_val_nonneg limbs_low8_lt uint_ge_0 x8 c pb, of "take 8 (val x)", folded X]
  have B: "0 \<le> bn_val x - uint ?c * bn_val p" "bn_val x - uint ?c * bn_val p < 2 * bn_val p"
    "uint ?c < 2 ^ 31"
    using B len by simp_all
  obtain t v where sm: "sub_mul (val x) p 0 ?c = (t, v)"
    and inv: "win_inv (sub_digit (val x) p 0 ?c) (2 ^ 31) (val x) 0 9 (uint t div 2 ^ 30) v"
    by (rule sub_mul_inv[OF pn B(3), of 0 "val x"]) (use len in simp_all)
  have v: "bn_fast_mod x p = \<lparr>val = v\<rparr>" by (simp add: bn_fast_mod_sub_mul sm)
  have lv: "length v = 9" using win_inv_length[OF inv] len by simp
  show norm: "bn_normalized (bn_fast_mod x p)"
    unfolding v by (rule bn_normalizedI) (use inv lv in \<open>simp_all add: win_inv_def\<close>)
  have "bn_val (bn_fast_mod x p) + uint t div 2 ^ 30 * 2 ^ 270
      = 2 ^ 31 + (2 ^ 31 * (2 ^ 270 - 1) + bn_val x - uint ?c * bn_val p)"
    using inv sub_digit_sum[of "val x" 9 0 p ?c] len pn lv by (simp add: v win_inv_def bn_val_def)
  then have "bn_val x - uint ?c * bn_val p
      = bn_val (bn_fast_mod x p) + (uint t div 2 ^ 30 - 2 ^ 31) * 2 ^ 270"
    by (simp add: algebra_simps)
  moreover have "bn_val x - uint ?c * bn_val p < 2 ^ 270" using B(2) pb by simp
  ultimately have "bn_val (bn_fast_mod x p) mod 2 ^ 270 = bn_val x - uint ?c * bn_val p"
    using B(1) by (metis mod_mult_self1 mod_pos_pos_trivial)
  then show val: "bn_val (bn_fast_mod x p) = bn_val x - uint ?c * bn_val p"
    using bn_val_lt[OF norm] by simp
  show "bn_val (bn_fast_mod x p) < 2 * bn_val p" unfolding val by (rule B(2))
qed

lemma bn_fast_mod_partly_reduced: "bn_wf x \<Longrightarrow> bn_prime p \<Longrightarrow> partly_reduced (bn_fast_mod x p) p"
  unfolding partly_reduced_def using bn_fast_mod_correct(1,3) by blast

lemma bn_fast_mod_cong: "bn_wf x \<Longrightarrow> bn_prime p \<Longrightarrow> bn_val (bn_fast_mod x p) mod bn_val p = bn_val x mod bn_val p"
  using mod_mult_self1[of "bn_val x" "- uint (drop_bit 16 (val x ! 8))" "bn_val p"]
  by (simp add: bn_fast_mod_correct(2))

lemma bn_prime_normalized [simp]: "bn_prime p \<Longrightarrow> bn_normalized p"
  by (simp add: bn_prime_def)

lemma bn_prime_pos: "bn_prime p \<Longrightarrow> 0 < bn_val p"
  by (simp add: bn_prime_def)

lemma partly_reducedD: "partly_reduced x p \<Longrightarrow> bn_normalized x" "partly_reduced x p \<Longrightarrow> bn_val x < 2 * bn_val p"
  by (simp_all add: partly_reduced_def)

lemma bn_mod_correct:
  assumes x: "partly_reduced x p" and p: "bn_normalized p"
  shows "bn_normalized (bn_mod x p)" and "bn_val (bn_mod x p) = bn_val x mod bn_val p"
proof -
  have xn: "bn_normalized x" and x2: "bn_val x < 2 * bn_val p" using x by (simp_all add: partly_reduced_def)
  note S = bn_subtract_correct[OF xn p]
  have "bn_normalized (bn_mod x p) \<and> bn_val (bn_mod x p) = bn_val x mod bn_val p"
  proof (cases "bn_val x < bn_val p")
    case True
    then have "bn_mod x p = x"
      using xn S(1) by (simp add: bn_mod_def bn_is_less_correct[OF xn p] bn_cmov_correct Let_def)
    then show ?thesis using True xn by simp
  next
    case False
    then have eq: "bn_mod x p = bn_subtract x p"
      using xn S(1) by (simp add: bn_mod_def bn_is_less_correct[OF xn p] bn_cmov_correct Let_def)
    have "bn_val (bn_subtract x p) = bn_val x - bn_val p"
    proof -
      have "0 \<le> bn_val x - bn_val p" "bn_val x - bn_val p < 2 ^ 270"
        using False bn_val_lt[OF xn] bn_val_nonneg[of p] by linarith+
      then show ?thesis unfolding S(2) by (rule mod_pos_pos_trivial)
    qed
    moreover have "bn_val x mod bn_val p = bn_val x - bn_val p"
    proof -
      have "(bn_val x - bn_val p) mod bn_val p = bn_val x - bn_val p"
        by (rule mod_pos_pos_trivial) (use False x2 in linarith)+
      then show ?thesis by simp
    qed
    ultimately show ?thesis using eq S(1) by simp
  qed
  then show "bn_normalized (bn_mod x p)" and "bn_val (bn_mod x p) = bn_val x mod bn_val p" by simp_all
qed

lemma bn_addmod_correct:
  assumes a: "bn_normalized a" and b: "bn_normalized b" and p: "bn_prime p"
  shows "partly_reduced (bn_addmod a b p) p"
    and "bn_val (bn_addmod a b p) mod bn_val p = (bn_val a + bn_val b) mod bn_val p"
proof -
  let ?P = "\<lambda>i v. length v = 9 \<and> (\<forall>k<i. v ! k = val a ! k + val b ! k) \<and> (\<forall>k. i \<le> k \<longrightarrow> v ! k = val a ! k)"
  let ?v = "for_up 0 9 (\<lambda>i v. v[i := v ! i + val b ! i]) (val a)"
  have P: "?P 9 ?v"
    by (rule for_up_inv[where P = ?P]) (use a in \<open>auto simp: nth_list_update less_Suc_eq\<close>)
  then have wf: "bn_wf \<lparr>val = ?v\<rparr>" by (simp add: bn_wf_def)
  have "bn_val \<lparr>val = ?v\<rparr> = (\<Sum>k<9. uint (val a ! k) * 2 ^ (30 * k) + uint (val b ! k) * 2 ^ (30 * k))"
    unfolding bn_val_sum[OF wf]
    by (rule sum.cong[OF refl]) (use P in \<open>simp add: uint_limb_add[OF a b] distrib_right\<close>)
  then have "bn_val \<lparr>val = ?v\<rparr> = bn_val a + bn_val b"
    using a b by (simp add: sum.distrib bn_val_sum)
  then show "partly_reduced (bn_addmod a b p) p"
    and "bn_val (bn_addmod a b p) mod bn_val p = (bn_val a + bn_val b) mod bn_val p"
    using bn_fast_mod_partly_reduced[OF wf p] bn_fast_mod_cong[OF wf p] by (simp_all add: bn_addmod_def)
qed

lemma bn_mult_k_correct:
  assumes x: "bn_normalized x" and k: "k \<le> 4" and p: "bn_prime p"
  shows "partly_reduced (bn_mult_k x k p) p"
    and "bn_val (bn_mult_k x k p) mod bn_val p = (uint k * bn_val x) mod bn_val p"
proof -
  let ?P = "\<lambda>i v. length v = 9 \<and> (\<forall>j<i. v ! j = ucast k * val x ! j) \<and> (\<forall>j. i \<le> j \<longrightarrow> v ! j = val x ! j)"
  let ?v = "for_up 0 9 (\<lambda>j v. v[j := ucast k * v ! j]) (val x)"
  have P: "?P 9 ?v"
    by (rule for_up_inv[where P = ?P]) (use x in \<open>auto simp: nth_list_update less_Suc_eq\<close>)
  then have wf: "bn_wf \<lparr>val = ?v\<rparr>" by (simp add: bn_wf_def)
  have k4: "uint k \<le> 4" using k by (simp add: word_le_def)
  have limb: "uint (ucast k * val x ! j) = uint k * uint (val x ! j)" if "j < 9" for j
  proof -
    have "uint k * uint (val x ! j) \<le> 4 * (2 ^ 30 - 1)"
      using bn_limb_lt[OF x that] k4 by (intro mult_mono) simp_all
    then show ?thesis by (subst uint_mult_nowrap) (simp_all add: uint_ucast_up)
  qed
  have "bn_val \<lparr>val = ?v\<rparr> = (\<Sum>j<9. uint k * (uint (val x ! j) * 2 ^ (30 * j)))"
    unfolding bn_val_sum[OF wf]
    by (rule sum.cong[OF refl]) (use P in \<open>simp add: limb mult.assoc\<close>)
  then have "bn_val \<lparr>val = ?v\<rparr> = uint k * bn_val x"
    using x by (simp add: bn_val_sum sum_distrib_left)
  then show "partly_reduced (bn_mult_k x k p) p"
    and "bn_val (bn_mult_k x k p) mod bn_val p = (uint k * bn_val x) mod bn_val p"
    using bn_fast_mod_partly_reduced[OF wf p] bn_fast_mod_cong[OF wf p] by (simp_all add: bn_mult_k_def)
qed

section \<open>The long product\<close>

lemma cauchy_product:
  fixes k x :: "nat \<Rightarrow> int"
  shows "(\<Sum>i<17. (\<Sum>j\<in>{i - 8..<min (Suc i) 9}. k j * x (i - j)) * 2 ^ (30 * i))
    = (\<Sum>j<9. k j * 2 ^ (30 * j)) * (\<Sum>l<9. x l * 2 ^ (30 * l))"
proof -
  have "(\<Sum>j<9. k j * 2 ^ (30 * j)) * (\<Sum>l<9. x l * 2 ^ (30 * l))
      = (\<Sum>(j, l)\<in>{..<9} \<times> {..<9}. k j * x l * 2 ^ (30 * (j + l)))"
    unfolding sum_product sum.cartesian_product
    by (rule sum.cong) (auto simp: power_add algebra_simps)
  also have "\<dots> = (\<Sum>(i, j)\<in>(SIGMA i:{..<17}. {i - 8..<min (Suc i) 9}). k j * x (i - j) * 2 ^ (30 * i))"
    by (rule sum.reindex_bij_witness[where i = "\<lambda>(i, j). (j, i - j)" and j = "\<lambda>(j, l). (j + l, j)"]) auto
  also have "\<dots> = (\<Sum>i<17. \<Sum>j\<in>{i - 8..<min (Suc i) 9}. k j * x (i - j) * 2 ^ (30 * i))"
    by (subst sum.Sigma) auto
  finally show ?thesis by (simp only: sum_distrib_right)
qed

lemma uint_row:
  fixes k x :: "u32 list"
  assumes k: "\<And>j. j < 9 \<Longrightarrow> uint (k ! j) < 2 ^ 30" and x: "\<And>j. j < 9 \<Longrightarrow> uint (x ! j) < 2 ^ 30"
    and lo: "lo \<le> hi" "hi \<le> 9" and i: "hi \<le> Suc i" "i < lo + 9" and t: "uint t < 2 ^ 34"
  shows "uint (for_up lo hi (\<lambda>j temp. temp + ucast (k ! j) * ucast (x ! (i - j))) (t :: u64))
    = uint t + (\<Sum>j\<in>{lo..<hi}. uint (k ! j) * uint (x ! (i - j)))"
proof -
  let ?S = "\<lambda>n. \<Sum>j\<in>{lo..<n}. uint (k ! j) * uint (x ! (i - j))"
  let ?P = "\<lambda>n temp. uint (temp :: u64) = uint t + ?S n \<and> ?S n \<le> int n * 2 ^ 60"
  have "?P hi (for_up lo hi (\<lambda>j temp. temp + ucast (k ! j) * ucast (x ! (i - j))) t)"
  proof (rule for_up_inv[where P = ?P], goal_cases)
    case (3 n s)
    have kx: "uint (k ! n) < 2 ^ 30" "uint (x ! (i - n)) < 2 ^ 30" using 3 lo i k[of n] x[of "i - n"] by auto
    then have "uint (k ! n) * uint (x ! (i - n)) \<le> 2 ^ 30 * 2 ^ 30" by (intro mult_mono) simp_all
    then have m: "uint (k ! n) * uint (x ! (i - n)) \<le> 2 ^ 60" by simp
    then have p: "uint (ucast (k ! n) * ucast (x ! (i - n)) :: u64) = uint (k ! n) * uint (x ! (i - n))"
      by (subst uint_mult_nowrap) (simp_all add: uint_ucast_up)
    have S: "?S (Suc n) = ?S n + uint (k ! n) * uint (x ! (i - n))" using 3 by simp
    have n9: "int n * 2 ^ 60 \<le> 8 * 2 ^ 60" using 3 lo by simp
    have "uint (s + ucast (k ! n) * ucast (x ! (i - n))) = uint s + uint (k ! n) * uint (x ! (i - n))"
      unfolding p[symmetric] by (rule uint_add_nowrap) (unfold p, use 3(3) m t n9 in simp)
    then show ?case using 3(3) m unfolding S by (simp add: algebra_simps)
  qed (use lo in simp_all)
  then show ?thesis by simp
qed

lemma bn_multiply_long_correct:
  assumes k: "bn_normalized k" and x: "bn_normalized x"
  shows "length (bn_multiply_long k x) = 18"
    and "\<forall>l\<in>set (bn_multiply_long k x). uint l < 2 ^ 30"
    and "limbs_val (bn_multiply_long k x) = bn_val k * bn_val x"
proof -
  define D where "D i = (\<Sum>j\<in>{i - 8..<min (Suc i) 9}. uint (val k ! j) * uint (val x ! (i - j)))" for i
  define row where "row i lo hi t = for_up lo hi (\<lambda>j temp. temp + ucast (val k ! j) * ucast (val x ! (i - j))) (t :: u64)" for i lo hi t
  let ?r0 = "replicate 18 0 :: u32 list"
  let ?P = "\<lambda>i (t, v). win_inv D 0 ?r0 0 i (uint (t :: u64)) v \<and> uint t < 2 ^ 34"
  have row: "?P (Suc i) (drop_bit 30 (row i (i - 8) (min (Suc i) 9) t),
        v[i := ucast (row i (i - 8) (min (Suc i) 9) t AND 0x3FFFFFFF)])"
    if P: "?P i (t, v)" and i: "i < 17" for i t v
  proof -
    have inv: "win_inv D 0 ?r0 0 i (uint t) v" and t: "uint t < 2 ^ 34" using P by simp_all
    have T: "uint (row i (i - 8) (min (Suc i) 9) t) = uint t + D i"
      unfolding row_def D_def by (rule uint_row[OF bn_limb_lt[OF k] bn_limb_lt[OF x] _ _ _ _ t]) (use i in auto)
    have "win_inv D 0 ?r0 0 (Suc i) (uint (row i (i - 8) (min (Suc i) 9) t) div 2 ^ 30)
        (v[0 + i := ucast (row i (i - 8) (min (Suc i) 9) t AND 0x3FFFFFFF)])"
      by (rule win_inv_step[OF inv _ uint_low30_u64 T]) (use i in simp)
    moreover have "uint (row i (i - 8) (min (Suc i) 9) t) div 2 ^ 30 < 2 ^ 34"
      using uint_lt_u64 by (simp add: div_ltI)
    ultimately show ?thesis by (simp add: uint_drop_bit)
  qed
  let ?l1 = "for_up 0 9 (\<lambda>i (temp, res). let temp = row i 0 (i + 1) temp
      in (drop_bit 30 temp, res[i := ucast (temp AND 0x3FFFFFFF)])) (0, ?r0)"
  let ?l2 = "for_up 9 17 (\<lambda>i (temp, res). let temp = row i (i - 8) 9 temp
      in (drop_bit 30 temp, res[i := ucast (temp AND 0x3FFFFFFF)])) ?l1"
  have "?P 9 ?l1"
  proof (rule for_up_inv[where P = ?P], goal_cases)
    case (3 i s)
    then show ?case using row[of i "fst s" "snd s"] by (simp add: split_beta Let_def min_absorb1)
  qed (simp_all add: win_inv_init)
  then have "?P 17 ?l2"
    by (rule for_up_inv[where P = ?P, rotated]) (use row in \<open>force simp: split_beta Let_def min_absorb2\<close>, simp)
  then obtain t v where l2: "?l2 = (t, v)" and inv: "win_inv D 0 ?r0 0 17 (uint t) v" and t: "uint t < 2 ^ 34"
    by (cases ?l2) auto
  have eq: "bn_multiply_long k x = v[17 := ucast t]"
    using l2 unfolding bn_multiply_long_def Let_def row_def by (simp add: split_beta Let_def)
  have len: "length v = 18" using win_inv_length[OF inv] by simp
  have tot: "limbs_val (take 17 v) + uint t * 2 ^ 510 = bn_val k * bn_val x"
    using inv cauchy_product[of "\<lambda>j. uint (val k ! j)" "\<lambda>j. uint (val x ! j)"] k x
    by (simp add: win_inv_def D_def bn_val_sum)
  have "bn_val k * bn_val x < 2 ^ 270 * 2 ^ 270"
    using bn_val_lt[OF k] bn_val_lt[OF x] by (intro mult_strict_mono) simp_all
  moreover have "0 \<le> limbs_val (take 17 v)" by simp
  moreover have "(2 :: int) ^ 270 * 2 ^ 270 = 2 ^ 30 * 2 ^ 510" by simp
  ultimately have "uint t * 2 ^ 510 < 2 ^ 30 * 2 ^ 510" using tot by linarith
  then have t30: "uint t < 2 ^ 30" by simp
  then have ut: "uint (ucast t :: u32) = uint t" by (simp add: uint_ucast)
  show "length (bn_multiply_long k x) = 18" by (simp add: eq len)
  have "v[17 := ucast t] = take 17 v @ [ucast t]"
    using len take_Suc_update[of 17 v "ucast t"] by simp
  then show "limbs_val (bn_multiply_long k x) = bn_val k * bn_val x"
    using tot len ut by (simp add: eq limbs_val_append mult.commute)
  show "\<forall>l\<in>set (bn_multiply_long k x). uint l < 2 ^ 30"
  proof -
    have "uint (v[17 := ucast t] ! i) < 2 ^ 30" if "i < 18" for i
      using that inv t30 ut len by (cases "i = 17") (simp_all add: win_inv_def nth_list_update)
    then show ?thesis using len by (auto simp: eq in_set_conv_nth)
  qed
qed

section \<open>One reduction step\<close>

lemma reduce_step_sub_mul:
  "bn_multiply_reduce_step res prime i =
     (let (t, v) = sub_mul res prime (i - 8) (reduce_coef res i);
          temp = drop_bit 30 t + (0x1FFFFFFF80000000 + ucast (v ! (i - 8 + 9)))
      in v[i - 8 + 9 := ucast (temp AND 0x3FFFFFFF)])"
  by (simp add: bn_multiply_reduce_step_def sub_mul_def Let_def split_beta)

lemma div_eqI: "W = r + q * M \<Longrightarrow> 0 \<le> r \<Longrightarrow> r < M \<Longrightarrow> W div M = q"
  for W :: int
  by simp

text \<open>The ten limbs a step works on, and what it leaves of them.\<close>

definition window :: "u32 list \<Rightarrow> nat \<Rightarrow> int" where
  "window res k = limbs_val (take 10 (drop k res))"

lemma take_drop_nth: "k + n \<le> length xs \<Longrightarrow> j < n \<Longrightarrow> take n (drop k xs) ! j = xs ! (k + j)"
  by simp

lemma window_split:
  assumes "length res = 18" "k \<le> 8"
  shows "window res k = limbs_val (take 8 (drop k res)) + uint (res ! (k + 8)) * 2 ^ 240 + uint (res ! (k + 9)) * 2 ^ 270"
proof -
  have "take 10 (drop k res) = take 8 (drop k res) @ [res ! (k + 8), res ! (k + 9)]"
  proof -
    have "drop (k + 8) res = res ! (k + 8) # res ! (k + 9) # drop (k + 10) res"
      using drop_eq_Cons[of "k + 8" res] drop_eq_Cons[of "k + 9" res] assms by (simp add: add.commute)
    moreover have "take 10 (drop k res) = take 8 (drop k res) @ take 2 (drop (k + 8) res)"
      using take_add[of 8 2 "drop k res"] by (simp add: add.commute)
    ultimately show ?thesis by simp
  qed
  then show ?thesis using assms by (simp add: window_def limbs_val_append)
qed

lemma uint_reduce_coef:
  assumes len: "length res = 18" and k: "k \<le> 8" and small: "\<forall>l\<in>set res. uint l < 2 ^ 30"
    and W: "window res k < 2 ^ 287"
  shows "uint (reduce_coef res (k + 8)) = window res k div 2 ^ 256" and "uint (reduce_coef res (k + 8)) < 2 ^ 31"
proof -
  let ?a = "uint (res ! (k + 8))" and ?b = "uint (res ! (k + 9))"
  let ?low = "limbs_val (take 8 (drop k res))"
  have ab: "?a < 2 ^ 30" "?b < 2 ^ 30" using len k small by simp_all
  have low: "?low < 2 ^ 240"
    using limbs_val_upper[of "take 8 (drop k res)"] small len k by (auto dest!: in_set_takeD in_set_dropD)
  have W2: "window res k = ?low + ?a * 2 ^ 240 + ?b * 2 ^ 270" by (rule window_split[OF len k])
  have "?b * 2 ^ 270 < 2 ^ 17 * 2 ^ 270"
  proof -
    have "0 \<le> ?low" "0 \<le> ?a * 2 ^ 240" "(2 :: int) ^ 287 = 2 ^ 17 * 2 ^ 270" by simp_all
    then show ?thesis using W W2 by linarith
  qed
  then have b17: "?b < 2 ^ 17" by simp
  have a': "uint (drop_bit 16 (res ! (k + 8))) = ?a div 2 ^ 16" by (simp add: uint_drop_bit)
  have b': "uint (push_bit 14 (res ! (k + 9))) = ?b * 2 ^ 14"
    using b17 by (subst uint_push_bit) simp
  have a14: "?a div 2 ^ 16 < 2 ^ 14" "0 \<le> ?a div 2 ^ 16"
    using ab by (simp_all add: div_ltI pos_imp_zdiv_nonneg_iff)
  have c: "uint (reduce_coef res (k + 8)) = ?a div 2 ^ 16 + ?b * 2 ^ 14"
  proof -
    have "uint (drop_bit 16 (res ! (k + 8)) + push_bit 14 (res ! (k + 9)))
        = uint (drop_bit 16 (res ! (k + 8))) + uint (push_bit 14 (res ! (k + 9)))"
      by (rule uint_add_nowrap) (unfold a' b', use a14 b17 in simp)
    then show ?thesis by (simp add: reduce_coef_def a' b' add.commute)
  qed
  have "window res k = (?low + ?a mod 2 ^ 16 * 2 ^ 240) + (?a div 2 ^ 16 + ?b * 2 ^ 14) * 2 ^ 256"
  proof -
    have "(2 ^ 16 * q + r) * 2 ^ 240 = r * 2 ^ 240 + q * 2 ^ 256" for q r :: int by simp
    from this[of "?a div 2 ^ 16" "?a mod 2 ^ 16"]
    have "?a * 2 ^ 240 = ?a mod 2 ^ 16 * 2 ^ 240 + ?a div 2 ^ 16 * 2 ^ 256" unfolding mult_div_mod_eq .
    then show ?thesis unfolding W2 by simp
  qed
  moreover have "0 \<le> ?low + ?a mod 2 ^ 16 * 2 ^ 240" "?low + ?a mod 2 ^ 16 * 2 ^ 240 < 2 ^ 256"
  proof -
    have "?a mod 2 ^ 16 \<le> 2 ^ 16 - 1" using pos_mod_bound[of "2 ^ 16" ?a] by simp
    then show "?low + ?a mod 2 ^ 16 * 2 ^ 240 < 2 ^ 256" using low by simp
  qed simp
  ultimately show cw: "uint (reduce_coef res (k + 8)) = window res k div 2 ^ 256"
    unfolding c by (rule div_eqI[symmetric])
  have "window res k < 2 ^ 31 * 2 ^ 256" using W by simp
  then show "uint (reduce_coef res (k + 8)) < 2 ^ 31" unfolding cw by (rule div_ltI) simp
qed

lemma window_reduced:
  fixes W c P :: int
  assumes W: "0 \<le> W" "W < 2 ^ 287" and c: "c = W div 2 ^ 256"
    and P: "2 ^ 256 - 2 ^ 224 \<le> P" "P < 2 ^ 256"
  shows "0 \<le> W - c * P" and "W - c * P < 2 * P"
proof -
  have W': "W = c * 2 ^ 256 + W mod 2 ^ 256" unfolding c by simp
  have r: "0 \<le> W mod 2 ^ 256" "W mod 2 ^ 256 < 2 ^ 256" by simp_all
  have c0: "0 \<le> c" "c < 2 ^ 31"
    using W by (simp_all add: c pos_imp_zdiv_nonneg_iff div_ltI)
  have "0 \<le> c * (2 ^ 256 - P)" "c * (2 ^ 256 - P) \<le> 2 ^ 31 * 2 ^ 224"
    using c0 P by (simp, intro mult_mono) simp_all
  moreover have "W - c * P = W mod 2 ^ 256 + c * (2 ^ 256 - P)"
    using W' by (simp only: right_diff_distrib)
  ultimately show "0 \<le> W - c * P" and "W - c * P < 2 * P" using r P by simp_all
qed

text \<open>
  A step subtracts the right multiple of the prime from its window, leaves the rest of the
  array alone, and clears the top limb of the window (the code's second assertion).
\<close>

lemma bn_multiply_reduce_step_correct:
  assumes len: "length res = 18" and small: "\<forall>l\<in>set res. uint l < 2 ^ 30" and k: "k \<le> 8"
    and p: "bn_prime p" and W: "window res k < 2 ^ 287"
  defines "res' \<equiv> bn_multiply_reduce_step res p (k + 8)"
  shows "length res' = 18" and "\<forall>l\<in>set res'. uint l < 2 ^ 30"
    and "\<forall>j. j < k \<or> k + 10 \<le> j \<longrightarrow> res' ! j = res ! j"
    and "window res' k = window res k - uint (reduce_coef res (k + 8)) * bn_val p"
    and "window res' k < 2 * bn_val p" and "res' ! (k + 9) = 0"
proof -
  let ?c = "reduce_coef res (k + 8)"
  let ?D = "\<lambda>j. if j < 9 then sub_digit res p k ?c j else sub_bias + uint (res ! (k + 9))"
  have pn: "bn_normalized p" and pb: "2 ^ 256 - 2 ^ 224 \<le> bn_val p" "bn_val p < 2 ^ 256"
    using p by (simp_all add: bn_prime_def)
  note C = uint_reduce_coef[OF len k small W]
  have W0: "0 \<le> window res k" by (simp add: window_def)
  note R = window_reduced[OF W0 W C(1) pb]
  obtain t v where sm: "sub_mul res p k ?c = (t, v)"
    and inv: "win_inv (sub_digit res p k ?c) (2 ^ 31) res k 9 (uint t div 2 ^ 30) v"
    by (rule sub_mul_inv[OF pn C(2), of k res]) (use len k in simp)
  have inv9: "win_inv ?D (2 ^ 31) res k 9 (uint t div 2 ^ 30) v"
    using inv by (simp add: win_inv_def)
  let ?T = "drop_bit 30 t + (0x1FFFFFFF80000000 + ucast (v ! (k + 9)))"
  have "uint (drop_bit 30 t) < 2 ^ 34"
    using uint_lt_u64[of t] by (simp add: uint_drop_bit div_ltI)
  then have T: "uint ?T = uint t div 2 ^ 30 + ?D 9"
    using uint_sub_digit(1)[of 0 0 "drop_bit 30 t" "v ! (k + 9)"] win_inv_nth[OF inv]
    by (simp add: uint_drop_bit)
  have res': "res' = v[k + 9 := ucast (?T AND 0x3FFFFFFF)]"
    by (simp add: res'_def reduce_step_sub_mul sm Let_def add.commute)
  have inv10: "win_inv ?D (2 ^ 31) res k 10 (uint ?T div 2 ^ 30) res'"
    using win_inv_step[where D = ?D, OF inv9 _ uint_low30_u64 T] len k by (simp add: res')
  show len': "length res' = 18" using win_inv_length[OF inv10] len by simp
  show frame: "\<forall>j. j < k \<or> k + 10 \<le> j \<longrightarrow> res' ! j = res ! j" using inv10 by (simp add: win_inv_def)
  have small': "uint (res' ! j) < 2 ^ 30" if "j < 18" for j
  proof (cases "j < k \<or> k + 10 \<le> j")
    case True
    then have "res' ! j = res ! j" using frame by blast
    then show ?thesis using small len that by simp
  next
    case False
    then have "j = k + (j - k)" "j - k < 10" by auto
    then show ?thesis using inv10 unfolding win_inv_def by metis
  qed
  then show sset: "\<forall>l\<in>set res'. uint l < 2 ^ 30" using len' by (auto simp: in_set_conv_nth)
  have swin: "\<forall>l\<in>set (take 10 (drop k res')). uint l < 2 ^ 30"
    using sset by (meson in_set_takeD in_set_dropD)
  have "window res' k + uint ?T div 2 ^ 30 * 2 ^ 300 = 2 ^ 31 + (\<Sum>j<10. ?D j * 2 ^ (30 * j))"
    using inv10 by (simp add: win_inv_def window_def)
  also have "(\<Sum>j<10. ?D j * 2 ^ (30 * j)) = (\<Sum>j<Suc 9. ?D j * 2 ^ (30 * j))" by simp
  also have "\<dots> = (\<Sum>j<9. sub_digit res p k ?c j * 2 ^ (30 * j)) + (sub_bias + uint (res ! (k + 9))) * 2 ^ 270"
    unfolding sum.lessThan_Suc by simp
  also have "\<dots> = 2 ^ 31 * (2 ^ 270 - 1) + limbs_val (take 9 (drop k res)) - uint ?c * bn_val p
      + (sub_bias + uint (res ! (k + 9))) * 2 ^ 270"
    by (subst sub_digit_sum[OF len]) (use k pn in simp_all)
  also have "limbs_val (take 9 (drop k res)) = window res k - uint (res ! (k + 9)) * 2 ^ 270"
  proof -
    have "take 10 (drop k res) = take 9 (drop k res) @ [res ! (k + 9)]"
      using take_Suc_conv_app_nth[of 9 "drop k res"] len k by (simp add: add.commute)
    then show ?thesis using len k by (simp add: window_def limbs_val_append)
  qed
  finally have "window res k - uint ?c * bn_val p = window res' k + (uint ?T div 2 ^ 30 - 2 ^ 31) * 2 ^ 300"
    by (simp add: sub_bias_num)
  moreover have "window res k - uint ?c * bn_val p < 2 ^ 300" using R(2) pb by simp
  moreover have w300: "window res' k < 2 ^ 300" "0 \<le> window res' k"
    using limbs_val_upper[OF swin] len' k by (simp_all add: window_def)
  ultimately show w: "window res' k = window res k - uint ?c * bn_val p"
    using R(1) by (metis mod_mult_self1 mod_pos_pos_trivial)
  then show lt: "window res' k < 2 * bn_val p" using R(2) by simp
  have "0 \<le> limbs_val (take 8 (drop k res')) + uint (res' ! (k + 8)) * 2 ^ 240" by simp
  then have "uint (res' ! (k + 9)) * 2 ^ 270 \<le> window res' k"
    using window_split[OF len' k] by linarith
  also have "\<dots> < 1 * 2 ^ 270" using lt pb by simp
  finally have "uint (res' ! (k + 9)) < 1" by simp
  then show "res' ! (k + 9) = 0"
    unfolding uint_eq_0_iff[symmetric] using uint_ge_0[of "res' ! (k + 9)"] by linarith
qed

section \<open>The whole reduction\<close>

lemma limbs_val_split3:
  assumes "length res = 18" "k \<le> 8"
  shows "limbs_val res = limbs_val (take k res) + 2 ^ (30 * k) * window res k
    + 2 ^ (30 * k) * (2 ^ 300 * limbs_val (drop (k + 10) res))"
proof -
  have "res = take k res @ take 10 (drop k res) @ drop (k + 10) res"
    by (metis append_take_drop_id drop_drop add.commute)
  then have "limbs_val res = limbs_val (take k res @ take 10 (drop k res) @ drop (k + 10) res)"
    by simp
  then show ?thesis using assms by (simp add: limbs_val_append window_def distrib_left)
qed

definition reduce_inv :: "bignum256 \<Rightarrow> int \<Rightarrow> nat \<Rightarrow> u32 list \<Rightarrow> bool" where
  "reduce_inv p V k res \<longleftrightarrow> length res = 18 \<and> (\<forall>l\<in>set res. uint l < 2 ^ 30) \<and>
     limbs_val res < 2 ^ (30 * k) * (2 * bn_val p) \<and> limbs_val res mod bn_val p = V mod bn_val p"

lemma reduce_inv_window:
  assumes inv: "reduce_inv p V (Suc k) res" and k: "k \<le> 8" and p: "bn_prime p"
  shows "window res k < 2 ^ 287" and "limbs_val (drop (k + 10) res) = 0"
proof -
  have len: "length res = 18" and lt: "limbs_val res < 2 ^ (30 * Suc k) * (2 * bn_val p)"
    using inv by (simp_all add: reduce_inv_def)
  have "2 ^ (30 * k) * (window res k + 2 ^ 300 * limbs_val (drop (k + 10) res)) \<le> limbs_val res"
    unfolding limbs_val_split3[OF len k] by (simp add: distrib_left)
  also note lt
  also have "2 ^ (30 * Suc k) * (2 * bn_val p) = 2 ^ (30 * k) * (2 ^ 30 * (2 * bn_val p))"
    by (simp add: power_add)
  finally have w: "window res k + 2 ^ 300 * limbs_val (drop (k + 10) res) < 2 ^ 30 * (2 * bn_val p)"
    by simp
  have w0: "0 \<le> window res k" by (simp add: window_def)
  have pb: "bn_val p < 2 ^ 256" using p by (simp add: bn_prime_def)
  have "2 ^ 300 * limbs_val (drop (k + 10) res) < 2 ^ 300 * 1" using w w0 pb by simp
  then have "limbs_val (drop (k + 10) res) < 1" by simp
  then show h: "limbs_val (drop (k + 10) res) = 0"
    using limbs_val_nonneg[of "drop (k + 10) res"] by linarith
  show "window res k < 2 ^ 287" using w pb unfolding h by simp
qed

lemma reduce_inv_step:
  assumes inv: "reduce_inv p V (Suc k) res" and k: "k \<le> 8" and p: "bn_prime p"
  shows "reduce_inv p V k (bn_multiply_reduce_step res p (k + 8))"
    and "uint (reduce_coef res (k + 8)) < 2 ^ 31"
    and "bn_multiply_reduce_step res p (k + 8) ! (k + 9) = 0"
proof -
  let ?r = "bn_multiply_reduce_step res p (k + 8)"
  have len: "length res = 18" and small: "\<forall>l\<in>set res. uint l < 2 ^ 30"
    and V: "limbs_val res mod bn_val p = V mod bn_val p"
    using inv by (simp_all add: reduce_inv_def)
  note W = reduce_inv_window[OF inv k p]
  note S = bn_multiply_reduce_step_correct[OF len small k p W(1)]
  show "uint (reduce_coef res (k + 8)) < 2 ^ 31" by (rule uint_reduce_coef(2)[OF len k small W(1)])
  show "?r ! (k + 9) = 0" by (rule S(6))
  have lo: "take k ?r = take k res" and hi: "drop (k + 10) ?r = drop (k + 10) res"
    using S(1,3) len k by (auto intro!: nth_equalityI)
  have old: "limbs_val res = limbs_val (take k res) + 2 ^ (30 * k) * window res k"
    using limbs_val_split3[OF len k] W(2) by simp
  have new: "limbs_val ?r = limbs_val (take k res) + 2 ^ (30 * k) * window ?r k"
    using limbs_val_split3[OF S(1) k] W(2) lo hi by simp
  have "\<forall>l\<in>set (take k res). uint l < 2 ^ 30" using small by (meson in_set_takeD)
  then have "limbs_val (take k res) < 2 ^ (30 * k)"
    using limbs_val_upper[of "take k res"] len k by simp
  moreover have "2 ^ (30 * k) * (window ?r k + 1) \<le> 2 ^ (30 * k) * (2 * bn_val p)"
    using S(5) by (intro mult_left_mono) simp_all
  ultimately have lt: "limbs_val ?r < 2 ^ (30 * k) * (2 * bn_val p)"
    unfolding new by (simp add: distrib_left)
  have "limbs_val ?r = limbs_val res + (- (2 ^ (30 * k) * uint (reduce_coef res (k + 8)))) * bn_val p"
    unfolding new old S(4) by (simp add: algebra_simps)
  then have "limbs_val ?r mod bn_val p = limbs_val res mod bn_val p"
    by (simp only: mod_mult_self1)
  then show "reduce_inv p V k ?r" using S(1,2) lt V by (simp add: reduce_inv_def)
qed

lemma bn_multiply_reduce_correct:
  assumes len: "length res = 18" and small: "\<forall>l\<in>set res. uint l < 2 ^ 30"
    and lt: "limbs_val res < 2 ^ 270 * (2 * bn_val p)" and p: "bn_prime p"
  shows "partly_reduced (bn_multiply_reduce res p) p"
    and "bn_val (bn_multiply_reduce res p) mod bn_val p = limbs_val res mod bn_val p"
proof -
  let ?P = "\<lambda>i. reduce_inv p (limbs_val res) (i - 8)"
  let ?r = "for_down 17 8 (\<lambda>i res. bn_multiply_reduce_step res p i) res"
  have "?P 8 ?r"
  proof (rule for_down_inv[where P = ?P], goal_cases)
    case (3 i s)
    then have "Suc i - 8 = Suc (i - 8)" by simp
    then have "reduce_inv p (limbs_val res) (Suc (i - 8)) s" using 3 by (simp only:)
    from reduce_inv_step(1)[OF this _ p] show ?case using 3 by simp
  qed (use len small lt in \<open>simp_all add: reduce_inv_def\<close>)
  then have inv: "reduce_inv p (limbs_val res) 0 ?r" by simp
  have lr: "length ?r = 18" and sr: "\<forall>l\<in>set ?r. uint l < 2 ^ 30" and ltr: "limbs_val ?r < 2 * bn_val p"
    and mr: "limbs_val ?r mod bn_val p = limbs_val res mod bn_val p"
    using inv by (simp_all add: reduce_inv_def)
  have "map ((!) ?r) [0..<9] = take 9 ?r" using lr by (intro nth_equalityI) simp_all
  then have out: "bn_multiply_reduce res p = \<lparr>val = take 9 ?r\<rparr>"
    by (simp add: bn_multiply_reduce_def fold_update_all)
  have norm: "bn_normalized \<lparr>val = take 9 ?r\<rparr>"
    using lr sr by (auto simp: bn_normalized_def bn_wf_def dest: in_set_takeD)
  have split: "limbs_val ?r = limbs_val (take 9 ?r) + 2 ^ 270 * limbs_val (drop 9 ?r)"
    using limbs_val_append[of "take 9 ?r" "drop 9 ?r"] lr by simp
  have "bn_val p < 2 ^ 256" using p by (simp add: bn_prime_def)
  then have "limbs_val ?r < 2 ^ 270 * 1" using ltr by simp
  moreover have "2 ^ 270 * limbs_val (drop 9 ?r) \<le> limbs_val ?r"
    using split limbs_val_nonneg[of "take 9 ?r"] by linarith
  ultimately have "2 ^ 270 * limbs_val (drop 9 ?r) < 2 ^ 270 * 1" by (rule le_less_trans[rotated])
  then have "limbs_val (drop 9 ?r) < 1" by simp
  then have "limbs_val (drop 9 ?r) = 0" using limbs_val_nonneg[of "drop 9 ?r"] by linarith
  then have v: "bn_val \<lparr>val = take 9 ?r\<rparr> = limbs_val ?r" using split by (simp add: bn_val_def)
  show "partly_reduced (bn_multiply_reduce res p) p"
    unfolding out partly_reduced_def using norm ltr v by simp
  show "bn_val (bn_multiply_reduce res p) mod bn_val p = limbs_val res mod bn_val p"
    unfolding out v by (rule mr)
qed

text \<open>The documented input bound of \<open>bn_multiply\<close>: both factors below \<open>180 * prime\<close>.\<close>

lemma bn_multiply_product_lt:
  assumes "bn_normalized k" "bn_val k < 180 * bn_val p" "bn_normalized x" "bn_val x < 180 * bn_val p" "bn_prime p"
  shows "limbs_val (bn_multiply_long k x) < 2 ^ 270 * (2 * bn_val p)"
proof -
  have pb: "0 < bn_val p" "bn_val p < 2 ^ 256" using assms(5) by (simp_all add: bn_prime_def)
  have "bn_val k * bn_val x < (180 * bn_val p) * (180 * bn_val p)"
    using assms by (intro mult_strict_mono') simp_all
  also have "\<dots> \<le> (32400 * 2 ^ 256) * bn_val p" using pb by simp
  also have "\<dots> \<le> 2 ^ 270 * (2 * bn_val p)" using pb by simp
  finally show ?thesis by (simp only: bn_multiply_long_correct[OF assms(1,3)])
qed

lemma bn_multiply_correct:
  assumes k: "bn_normalized k" "bn_val k < 180 * bn_val p" and x: "bn_normalized x" "bn_val x < 180 * bn_val p"
    and p: "bn_prime p"
  shows "partly_reduced (bn_multiply k x p) p"
    and "bn_val (bn_multiply k x p) mod bn_val p = (bn_val k * bn_val x) mod bn_val p"
proof -
  note L = bn_multiply_long_correct[OF k(1) x(1)]
  show "partly_reduced (bn_multiply k x p) p"
    and "bn_val (bn_multiply k x p) mod bn_val p = (bn_val k * bn_val x) mod bn_val p"
    using bn_multiply_reduce_correct[OF L(1,2) bn_multiply_product_lt[OF k x p] p] by (simp_all add: bn_multiply_def L(3))
qed

text \<open>
  The scratch array at the beginning of iteration \<open>i\<close> of the reduction, and the two assertions of that
  iteration: the estimated quotient fits 31 bits, and the limb above the window has become zero.
\<close>

definition reduce_at :: "bignum256 \<Rightarrow> bignum256 \<Rightarrow> bignum256 \<Rightarrow> nat \<Rightarrow> u32 list" where
  "reduce_at k x p i = for_down 17 (Suc i) (\<lambda>i res. bn_multiply_reduce_step res p i) (bn_multiply_long k x)"

lemma bn_multiply_asserts:
  assumes "bn_normalized k" "bn_val k < 180 * bn_val p" "bn_normalized x" "bn_val x < 180 * bn_val p" "bn_prime p"
    and i: "8 \<le> i" "i \<le> 16"
  shows "reduce_coef (reduce_at k x p i) i < 0x80000000"
    and "bn_multiply_reduce_step (reduce_at k x p i) p i ! (i + 1) = 0"
proof -
  note L = bn_multiply_long_correct[OF assms(1,3)] and lt = bn_multiply_product_lt[OF assms(1-5)]
  let ?V = "limbs_val (bn_multiply_long k x)"
  have "reduce_inv p ?V (Suc i - 8) (reduce_at k x p i)"
    unfolding reduce_at_def
  proof (rule for_down_inv[where P = "\<lambda>i. reduce_inv p ?V (i - 8)"], goal_cases)
    case (3 j s)
    then have "Suc j - 8 = Suc (j - 8)" "j - 8 \<le> 8" "j - 8 + 8 = j" using i by simp_all
    with 3 show ?case using reduce_inv_step(1)[of p ?V "j - 8" s] assms(5) by simp
  qed (use i L(1,2) lt in \<open>simp_all add: reduce_inv_def\<close>)
  moreover have "Suc i - 8 = Suc (i - 8)" "i - 8 \<le> 8" "i - 8 + 8 = i" "i - 8 + 9 = i + 1" using i by simp_all
  ultimately show "reduce_coef (reduce_at k x p i) i < 0x80000000"
    and "bn_multiply_reduce_step (reduce_at k x p i) p i ! (i + 1) = 0"
    using reduce_inv_step(2,3)[of p ?V "i - 8" "reduce_at k x p i"] assms(5) by (simp_all add: word_less_def)
qed

section \<open>Halving modulo the prime\<close>

lemma and_odd_mask: "p AND - (x AND 1) = (if odd (uint x) then p else 0)"
  for p x :: u32
proof -
  have "x AND 1 = (if odd (uint x) then 1 else 0)"
    unfolding word_uint_eq_iff uint_and_1 by (simp add: mod_2_eq_odd)
  then show ?thesis by simp
qed

lemma bn_mult_half_correct:
  assumes x: "bn_normalized x" and p: "bn_prime p" and odd: "odd (bn_val p)"
  shows "bn_normalized (bn_mult_half x p)"
    and "2 * bn_val (bn_mult_half x p) = (if odd (bn_val x) then bn_val x + bn_val p else bn_val x)"
proof -
  let ?o = "odd (bn_val x)"
  define pl where "pl j = (if ?o then val p ! j else 0)" for j
  let ?s = "\<lambda>j. uint (val x ! j) + uint (pl j)"
  let ?D = "\<lambda>j. ?s j div 2 + 2 ^ 29 * (?s (Suc j) mod 2)"
  let ?P = "\<lambda>j (t, v). carry_inv ?D 0 (val x) j (uint (t :: u32) - ?s j div 2) v \<and> uint t < 2 ^ 31"
  have pn: "bn_normalized p" using p by simp
  have par: "odd (bn_val z) \<longleftrightarrow> odd (uint (val z ! 0))" if "bn_normalized z" for z
    using that by (cases "val z") (simp_all add: bn_val_def bn_normalized_def bn_wf_def)
  have mask: "val p ! j AND - (val x ! 0 AND 1) = pl j" for j
    by (simp add: pl_def and_odd_mask par[OF x])
  have s: "uint (val x ! j + pl j) = ?s j" "?s j < 2 ^ 31" if "j < 9" for j
    using bn_limb_lt[OF x that] bn_limb_lt[OF pn that] by (auto simp: pl_def uint_add_nowrap)
  have half: "uint (drop_bit 1 (val x ! j + pl j)) = ?s j div 2" "?s j div 2 < 2 ^ 30" "0 \<le> ?s j div 2" if "j < 9" for j
    using s[OF that] by (simp_all add: uint_drop_bit div_ltI pos_imp_zdiv_nonneg_iff)
  let ?body = "\<lambda>j (tmp1, v). let tmp2 = v ! (j + 1) + pl (j + 1);
                tmp1 = tmp1 + push_bit 29 (tmp2 AND 1);
                v = v[j := tmp1 AND 0x3FFFFFFF];
                tmp1 = drop_bit 30 tmp1;
                tmp1 = tmp1 + drop_bit 1 tmp2
            in (tmp1, v)"
  let ?t0 = "drop_bit 1 (val x ! 0 + pl 0)"
  have "?P 8 (for_up 0 8 ?body (?t0, val x))"
  proof (rule for_up_inv[where P = ?P], goal_cases)
    case 2
    show ?case using x half[of 0] carry_inv_init[of "val x" ?D 0] by simp
  next
    case (3 j st)
    obtain t v where st: "st = (t, v)" by (cases st)
    have inv: "carry_inv ?D 0 (val x) j (uint t - ?s j div 2) v" and t: "uint t < 2 ^ 31"
      using 3 by (simp_all add: st)
    have j: "j < 9" "j + 1 < 9" using 3 by simp_all
    have vj: "v ! (j + 1) = val x ! (j + 1)" using inv by (simp add: carry_inv_def)
    let ?tmp2 = "val x ! (j + 1) + pl (j + 1)"
    have lowbit: "uint (push_bit 29 (?tmp2 AND 1)) = 2 ^ 29 * (?s (Suc j) mod 2)"
      using s(1)[OF j(2)] by (subst uint_push_bit, subst uint_and_1) simp
    let ?T = "t + push_bit 29 (?tmp2 AND 1)"
    have "?s (Suc j) mod 2 \<le> 1" by simp
    then have T: "uint ?T = uint t + 2 ^ 29 * (?s (Suc j) mod 2)"
      unfolding lowbit[symmetric] by (intro uint_add_nowrap) (unfold lowbit, use t in simp)
    have T': "uint ?T = (uint t - ?s j div 2) + ?D j" unfolding T by simp
    have inv': "carry_inv ?D 0 (val x) (Suc j) (uint ?T div 2 ^ 30) (v[j := ?T AND 0x3FFFFFFF])"
      by (rule carry_inv_step[OF inv j(1) uint_and_30bit T'])
    have Td: "uint ?T div 2 ^ 30 < 4" using uint_lt_u32[of ?T] by (simp add: div_ltI)
    have t': "uint (drop_bit 30 ?T + drop_bit 1 ?tmp2) = uint ?T div 2 ^ 30 + ?s (Suc j) div 2"
      using half[OF j(2)] Td by (subst uint_add_nowrap) (simp_all add: uint_drop_bit)
    have "uint (drop_bit 30 ?T + drop_bit 1 ?tmp2) - ?s (Suc j) div 2 = uint ?T div 2 ^ 30"
      and "uint (drop_bit 30 ?T + drop_bit 1 ?tmp2) < 2 ^ 31"
      unfolding t' using Td half[OF j(2)] by simp_all
    then show ?case using inv' by (simp only: st prod.case Let_def vj simp_thms)
  qed simp
  then obtain t v where r: "for_up 0 8 ?body (?t0, val x) = (t, v)"
    and inv: "carry_inv ?D 0 (val x) 8 (uint t - ?s 8 div 2) v" by (cases "for_up 0 8 ?body (?t0, val x)") auto
  have out: "bn_mult_half x p = \<lparr>val = v[8 := t]\<rparr>"
    using r by (simp add: bn_mult_half_def mask Let_def)
  have len: "length v = 9" using inv by (rule carry_inv_length)
  have "v[8 := t] = take 8 v @ [t]" using len take_Suc_update[of 8 v t] by simp
  then have R: "bn_val \<lparr>val = v[8 := t]\<rparr> = limbs_val (take 8 v) + uint t * 2 ^ 240"
    using len by (simp add: bn_val_def limbs_val_append)
  define q r where "q j = ?s j div 2" and "r j = ?s j mod 2" for j
  have V: "limbs_val (take 8 v) + uint t * 2 ^ 240 = q 8 * 2 ^ 240 + (\<Sum>k<8. (q k + 2 ^ 29 * r (Suc k)) * 2 ^ (30 * k))"
    using inv by (simp add: carry_inv_def q_def r_def left_diff_distrib)
  have "bn_val x + (if ?o then bn_val p else 0) = (\<Sum>k<9. ?s k * 2 ^ (30 * k))"
    using x pn by (simp add: pl_def bn_val_sum sum.distrib distrib_right)
  also have "\<dots> = (\<Sum>k<9. (2 * q k + r k) * 2 ^ (30 * k))"
    by (simp add: q_def r_def)
  also have "r 0 = 0"
    using par[OF x] par[OF pn] odd by (simp add: r_def pl_def mod_2_eq_odd)
  then have "(\<Sum>k<9. (2 * q k + r k) * 2 ^ (30 * k))
      = 2 * (q 8 * 2 ^ 240 + (\<Sum>k<8. (q k + 2 ^ 29 * r (Suc k)) * 2 ^ (30 * k)))"
    by (simp add: sum_9 eval_nat_numeral)
  finally have twice: "2 * bn_val (bn_mult_half x p) = (if ?o then bn_val x + bn_val p else bn_val x)"
    using R V by (simp add: out split: if_splits)
  then show "2 * bn_val (bn_mult_half x p) = (if ?o then bn_val x + bn_val p else bn_val x)" .
  have p270: "(2::int) ^ 270 = 2 ^ 30 * 2 ^ 240" by simp
  have "bn_val p < 2 ^ 256" using p by (simp add: bn_prime_def)
  then have "bn_val (bn_mult_half x p) < 2 ^ 270"
    using twice bn_val_lt[OF x] by (simp split: if_splits)
  then have "uint t * 2 ^ 240 < 2 ^ 30 * 2 ^ 240"
    using R limbs_val_nonneg[of "take 8 v"] p270 unfolding out by linarith
  then have "uint t < 2 ^ 30" by simp
  then show "bn_normalized (bn_mult_half x p)"
    unfolding out using inv len
    by (intro bn_normalizedI) (auto simp: nth_list_update carry_inv_def)
qed

section \<open>Square and multiply\<close>

lemma bn_one_correct: "bn_normalized bn_one" "bn_val bn_one = 1"
  by (rule bn_normalizedI) (auto simp: bn_one_def bn_val_def nth_Cons split: nat.splits)

lemma bn_multiply_partly:
  assumes "partly_reduced k p" "partly_reduced x p" "bn_prime p"
  shows "partly_reduced (bn_multiply k x p) p"
    and "bn_val (bn_multiply k x p) mod bn_val p = (bn_val k * bn_val x) mod bn_val p"
proof -
  have "bn_val k < 180 * bn_val p" "bn_val x < 180 * bn_val p"
    using partly_reducedD(2)[OF assms(1)] partly_reducedD(2)[OF assms(2)] bn_prime_pos[OF assms(3)]
    by linarith+
  then show "partly_reduced (bn_multiply k x p) p"
    and "bn_val (bn_multiply k x p) mod bn_val p = (bn_val k * bn_val x) mod bn_val p"
    using assms by (simp_all add: bn_multiply_correct partly_reducedD)
qed

lemma nat_halves: "0 \<le> u \<Longrightarrow> nat u = 2 * nat (u div 2) + nat (u mod 2)"
  by (simp add: nat_div_distrib nat_mod_distrib)

lemma pow_cong_mod: "x mod p = a mod p \<Longrightarrow> (x ^ k) mod p = (a ^ k) mod (p :: int)"
  by (metis power_mod)

lemma pow_mod_double: "x mod p = (a * a) mod p \<Longrightarrow> (x ^ k) mod p = (a ^ (2 * k)) mod (p :: int)"
  by (metis power_mod power_mult power2_eq_square)

text \<open>What a multiplication accepts.\<close>

definition mulable :: "bignum256 \<Rightarrow> bignum256 \<Rightarrow> bool" where
  "mulable x p \<longleftrightarrow> bn_normalized x \<and> bn_val x < 180 * bn_val p"

lemma partly_mulable: "partly_reduced x p \<Longrightarrow> bn_prime p \<Longrightarrow> mulable x p"
  using bn_prime_pos[of p] by (simp add: partly_reduced_def mulable_def)

lemma bn_multiply_mulable:
  assumes "mulable k p" "mulable x p" "bn_prime p"
  shows "partly_reduced (bn_multiply k x p) p"
    and "bn_val (bn_multiply k x p) mod bn_val p = (bn_val k * bn_val x) mod bn_val p"
  using assms by (simp_all add: bn_multiply_correct mulable_def)

text \<open>
  \<open>pow_bits\<close> on \<open>n\<close> remaining bits multiplies the accumulator by \<open>x ^ limb\<close>; unless it may
  stop early it also leaves \<open>x\<close> squared \<open>n\<close> times.
\<close>

lemma pow_bits_correct:
  assumes p: "bn_prime p"
  shows "\<lbrakk>uint limb < 2 ^ n; mulable x p; partly_reduced res p; pow_bits n l limb p (x, res) = (x', res')\<rbrakk>
    \<Longrightarrow> mulable x' p \<and> partly_reduced res' p
      \<and> bn_val res' mod bn_val p = (bn_val res * bn_val x ^ nat (uint limb)) mod bn_val p
      \<and> (\<not> l \<longrightarrow> bn_val x' mod bn_val p = (bn_val x ^ (2 ^ n)) mod bn_val p)"
proof (induction n arbitrary: limb x res)
  case 0
  have "uint limb = 0" using 0(1) uint_nonnegative[of limb] unfolding power_0 by linarith
  with 0 show ?case by (simp add: uint_eq_0_iff)
next
  case (Suc n)
  show ?case
  proof (cases "l \<and> limb = 0")
    case True
    then show ?thesis using Suc.prems by simp
  next
    case False
    let ?P = "bn_val p" and ?h = "uint limb div 2"
    let ?x = "bn_multiply x x p" and ?r = "if limb AND 1 = 1 then bn_multiply x res p else res"
    note X = bn_multiply_mulable[OF Suc.prems(2,2) p] and R = bn_multiply_mulable[OF Suc.prems(2) partly_mulable[OF Suc.prems(3) p] p]
    have bit: "limb AND 1 = 1 \<longleftrightarrow> uint limb mod 2 = 1"
      by (simp add: word_uint_eq_iff uint_and_1)
    have "uint (drop_bit 1 limb) < 2 ^ n"
      using Suc.prems(1) by (simp add: uint_drop_bit)
    from Suc.IH[OF this partly_mulable[OF X(1) p], of ?r] Suc.prems False R(1)
    have IH: "mulable x' p" "partly_reduced res' p"
        "bn_val res' mod ?P = (bn_val ?r * bn_val ?x ^ nat ?h) mod ?P"
        "\<not> l \<Longrightarrow> bn_val x' mod ?P = (bn_val ?x ^ (2 ^ n)) mod ?P"
      by (auto simp: uint_drop_bit split: if_splits)
    have "nat (uint limb) = 2 * nat ?h + nat (uint limb mod 2)"
      by (rule nat_halves) simp
    then have pw: "bn_val x ^ nat (uint limb) = bn_val x ^ nat (uint limb mod 2) * bn_val x ^ (2 * nat ?h)"
      by (simp only: power_add mult.commute)
    have "bn_val ?r mod ?P = (bn_val res * bn_val x ^ nat (uint limb mod 2)) mod ?P"
    proof (cases "uint limb mod 2 = 1")
      case True
      then show ?thesis using R(2) by (simp add: bit mult.commute)
    next
      case False
      then have "uint limb mod 2 = 0" by presburger
      then show ?thesis by (simp add: bit)
    qed
    moreover have "(bn_val ?x ^ nat ?h) mod ?P = (bn_val x ^ (2 * nat ?h)) mod ?P"
      by (rule pow_mod_double[OF X(2)])
    ultimately have "bn_val res' mod ?P = (bn_val res * bn_val x ^ nat (uint limb)) mod ?P"
      unfolding IH(3) pw mult.assoc[symmetric] by (rule mod_mult_cong)
    moreover have "\<not> l \<Longrightarrow> bn_val x' mod ?P = (bn_val x ^ (2 ^ Suc n)) mod ?P"
      using IH(4) pow_mod_double[OF X(2), of "2 ^ n"] by simp
    ultimately show ?thesis using IH by blast
  qed
qed

text \<open>All nine limbs of an exponent \<open>E\<close>.\<close>

lemma pow_limbs_correct:
  assumes p: "bn_prime p" and x: "mulable x p"
    and E: "length E = 9" "\<forall>e\<in>set E. uint e < 2 ^ 30"
    and r: "for_up 0 9 (\<lambda>i (x, res). pow_bits 30 (i = 8) (E ! i) p (x, res)) (x, bn_one) = (x', res)"
  shows "partly_reduced res p" and "bn_val res mod bn_val p = (bn_val x ^ nat (limbs_val E)) mod bn_val p"
proof -
  let ?P = "\<lambda>i (y, res). mulable y p \<and> partly_reduced res p
      \<and> bn_val res mod bn_val p = (bn_val x ^ nat (limbs_val (take i E))) mod bn_val p
      \<and> (i < 9 \<longrightarrow> bn_val y mod bn_val p = (bn_val x ^ (2 ^ (30 * i))) mod bn_val p)"
  have "?P 9 (for_up 0 9 (\<lambda>i (x, res). pow_bits 30 (i = 8) (E ! i) p (x, res)) (x, bn_one))"
  proof (rule for_up_inv[where P = ?P], goal_cases)
    case 2
    have "partly_reduced bn_one p"
      using p bn_one_correct by (simp add: partly_reduced_def bn_prime_def)
    then show ?case using x bn_one_correct by simp
  next
    case (3 i s)
    obtain y q where s: "s = (y, q)" by (cases s)
    obtain y' q' where b: "pow_bits 30 (i = 8) (E ! i) p (y, q) = (y', q')"
      by (cases "pow_bits 30 (i = 8) (E ! i) p (y, q)")
    have inv: "mulable y p" "partly_reduced q p"
        "bn_val q mod bn_val p = (bn_val x ^ nat (limbs_val (take i E))) mod bn_val p"
        "bn_val y mod bn_val p = (bn_val x ^ (2 ^ (30 * i))) mod bn_val p"
      using 3 by (simp_all add: s)
    have Ei: "uint (E ! i) < 2 ^ 30" using E 3 by simp
    note B = pow_bits_correct[OF p Ei inv(1,2) b]
    let ?e = "nat (uint (E ! i))"
    have "nat (limbs_val (take (Suc i) E)) = nat (limbs_val (take i E)) + 2 ^ (30 * i) * ?e"
      using 3 E by (simp add: take_Suc_conv_app_nth limbs_val_append nat_add_distrib nat_mult_distrib nat_power_eq)
    moreover have "(bn_val y ^ ?e) mod bn_val p = (bn_val x ^ (2 ^ (30 * i) * ?e)) mod bn_val p"
      by (subst power_mult[of _ "2 ^ (30 * i)"], rule pow_cong_mod[OF inv(4)])
    ultimately have "bn_val q' mod bn_val p = (bn_val x ^ nat (limbs_val (take (Suc i) E))) mod bn_val p"
      using B mod_mult_cong[OF inv(3)] by (simp only: power_add)
    moreover have "bn_val y' mod bn_val p = (bn_val x ^ (2 ^ (30 * Suc i))) mod bn_val p" if "Suc i < 9"
    proof -
      have "bn_val y' mod bn_val p = (bn_val y ^ (2 ^ 30)) mod bn_val p" using B that by auto
      also have "\<dots> = ((bn_val x ^ (2 ^ (30 * i))) ^ (2 ^ 30)) mod bn_val p"
        by (rule pow_cong_mod[OF inv(4)])
      also have "(2 :: nat) ^ (30 * Suc i) = 2 ^ (30 * i) * 2 ^ 30" by (simp only: power_add[symmetric]) simp
      ultimately show ?thesis by (simp only: power_mult)
    qed
    ultimately show ?case using B by (simp only: s b prod.case) auto
  qed simp
  then show "partly_reduced res p" and "bn_val res mod bn_val p = (bn_val x ^ nat (limbs_val E)) mod bn_val p"
    using E unfolding r by simp_all
qed
lemma bn_inverse_power:
  assumes x: "mulable x p" and p: "bn_prime p" and low: "2 \<le> uint (val p ! 0)"
  shows "bn_normalized (bn_inverse x p)"
    and "bn_val (bn_inverse x p) = bn_val x ^ nat (bn_val p - 2) mod bn_val p"
proof -
  let ?E = "(val p)[0 := val p ! 0 - 2]"
  have pn: "bn_normalized p" using p by simp
  have low': "uint (val p ! 0 - 2) = uint (val p ! 0) - 2"
    using low by (subst uint_sub_nowrap) simp_all
  obtain y res where r: "for_up 0 9 (\<lambda>i (x, res). pow_bits 30 (i = 8) (?E ! i) p (x, res)) (x, bn_one) = (y, res)"
    by (cases "for_up 0 9 (\<lambda>i (x, res). pow_bits 30 (i = 8) (?E ! i) p (x, res)) (x, bn_one)")
  have "for_up 0 9 (\<lambda>i (x, res). let limb = val p ! i; limb = (if i = 0 then limb - 2 else limb)
            in pow_bits 30 (i = 8) limb p (x, res)) (x, bn_one) = (y, res)"
    unfolding r[symmetric] by (rule for_up_cong) (use pn in \<open>auto simp: nth_list_update\<close>)
  then have out: "bn_inverse x p = bn_mod res p"
    by (simp add: bn_inverse_def)
  have E: "length ?E = 9" "\<forall>e\<in>set ?E. uint e < 2 ^ 30"
  proof -
    show "\<forall>e\<in>set ?E. uint e < 2 ^ 30"
    proof
      fix e assume "e \<in> set ?E"
      then have "e = val p ! 0 - 2 \<or> e \<in> set (val p)" by (auto dest: set_update_subset_insert[THEN subsetD])
      then show "uint e < 2 ^ 30"
      proof
        assume e: "e = val p ! 0 - 2"
        have "uint (val p ! 0) < 2 ^ 30" using bn_limb_lt[OF pn, of 0] by simp
        then show ?thesis unfolding e low' by simp
      next
        assume "e \<in> set (val p)"
        then show ?thesis using pn by (auto simp: bn_normalized_def)
      qed
    qed
  qed (use pn in simp)
  have V: "limbs_val ?E = bn_val p - 2"
    using low' bn_normalized_len[OF pn] by (cases "val p") (simp_all add: bn_val_def)
  note C = pow_limbs_correct[OF p x E r]
  show "bn_normalized (bn_inverse x p)"
    and "bn_val (bn_inverse x p) = bn_val x ^ nat (bn_val p - 2) mod bn_val p"
    using bn_mod_correct[OF C(1) pn] C(2) by (simp_all add: out V)
qed

lemma bn_inverse_correct:
  assumes x: "partly_reduced x p" and p: "bn_prime p" and low: "2 \<le> uint (val p ! 0)"
  shows "bn_normalized (bn_inverse x p)"
    and "bn_val (bn_inverse x p) = bn_val x ^ nat (bn_val p - 2) mod bn_val p"
  using bn_inverse_power[OF partly_mulable[OF x p] p low] .

lemma bn_sqrt_power:
  assumes x: "mulable x p" and p: "bn_prime p"
  shows "bn_normalized (bn_sqrt x p)"
    and "bn_val (bn_sqrt x p) = bn_val x ^ nat ((bn_val p + 1) div 4) mod bn_val p"
proof -
  let ?e = "bn_rshift (bn_rshift (bn_addi p 1))"
  have pn: "bn_normalized p" using p by simp
  have ov: "uint (val p ! k) + max 3 (uint (1 :: u32)) < 2 ^ 32" if "k < 9" for k
    using bn_limb_lt[OF pn that] by simp
  note A = bn_addi_correct[OF bn_normalized_wf[OF pn] ov]
  note R1 = bn_rshift_correct[OF A(1)] and R2 = bn_rshift_correct[OF bn_rshift_correct(1)[OF A(1)]]
  have "bn_val p + 1 < 2 ^ 270" using p by (simp add: bn_prime_def)
  then have V: "limbs_val (val ?e) = (bn_val p + 1) div 4"
    using R1(2) R2(2) A(2) unfolding bn_val_def[symmetric] by (simp add: zdiv_zmult2_eq[symmetric])
  have E: "length (val ?e) = 9" "\<forall>e\<in>set (val ?e). uint e < 2 ^ 30"
    using R2(1) by (simp_all add: bn_normalized_def)
  obtain y res where r: "for_up 0 9 (\<lambda>i (x, res). pow_bits 30 (i = 8) (val ?e ! i) p (x, res)) (x, bn_one) = (y, res)"
    by (cases "for_up 0 9 (\<lambda>i (x, res). pow_bits 30 (i = 8) (val ?e ! i) p (x, res)) (x, bn_one)")
  note C = pow_limbs_correct[OF p x E r]
  show "bn_normalized (bn_sqrt x p)"
    and "bn_val (bn_sqrt x p) = bn_val x ^ nat ((bn_val p + 1) div 4) mod bn_val p"
    using bn_mod_correct[OF C(1) pn] C(2) r by (simp_all add: bn_sqrt_def V)
qed

lemma bn_sqrt_correct:
  assumes x: "partly_reduced x p" and p: "bn_prime p"
  shows "bn_normalized (bn_sqrt x p)"
    and "bn_val (bn_sqrt x p) = bn_val x ^ nat ((bn_val p + 1) div 4) mod bn_val p"
  using bn_sqrt_power[OF partly_mulable[OF x p] p] .

text \<open>
  The two roots under the number-theoretic condition each needs: Fermat's equation for the
  inverse, Euler's criterion for the square root.
\<close>

lemma bn_inverse_inverts:
  assumes x: "partly_reduced x p" and p: "bn_prime p" and low: "2 \<le> uint (val p ! 0)"
    and fermat: "bn_val x ^ nat (bn_val p - 1) mod bn_val p = 1"
  shows "(bn_val x * bn_val (bn_inverse x p)) mod bn_val p = 1"
proof -
  have "2 < bn_val p" using p by (simp add: bn_prime_def)
  then have "nat (bn_val p - 1) = Suc (nat (bn_val p - 2))" by linarith
  then show ?thesis
    using fermat by (simp add: bn_inverse_correct(2)[OF x p low] mod_mult_right_eq)
qed

lemma bn_sqrt_squares:
  assumes x: "partly_reduced x p" and p: "bn_prime p" and three: "bn_val p mod 4 = 3"
    and euler: "bn_val x ^ nat ((bn_val p - 1) div 2) mod bn_val p = 1"
  shows "(bn_val (bn_sqrt x p))\<^sup>2 mod bn_val p = bn_val x mod bn_val p"
proof -
  have "2 * ((bn_val p + 1) div 4) = (bn_val p - 1) div 2 + 1" using three by presburger
  moreover have "0 < bn_val p" by (rule bn_prime_pos[OF p])
  ultimately have e: "2 * nat ((bn_val p + 1) div 4) = Suc (nat ((bn_val p - 1) div 2))" by linarith
  have "(bn_val (bn_sqrt x p))\<^sup>2 mod bn_val p = (bn_val x ^ nat ((bn_val p + 1) div 4))\<^sup>2 mod bn_val p"
    by (simp add: bn_sqrt_correct(2)[OF x p] power_mod)
  also have "\<dots> = (bn_val x * bn_val x ^ nat ((bn_val p - 1) div 2)) mod bn_val p"
    by (simp add: power_mult[symmetric] mult.commute[of _ 2] e)
  also have "\<dots> = bn_val x mod bn_val p"
    using euler by (metis mod_mult_right_eq mult.right_neutral)
  finally show ?thesis .
qed

lemma minus_one_fermat: "1 < p \<Longrightarrow> odd p \<Longrightarrow> (p - 1) ^ nat (p - 1) mod p = (1 :: int)"
proof -
  assume p: "1 < p" "odd p"
  then obtain i where "p = 2 * i + 1" by (auto elim: oddE)
  then have k: "nat (p - 1) = 2 * nat i" using p(1) by simp
  have "(p - 1) * (p - 1) = 1 + p * (p - 2)" by (simp add: algebra_simps)
  then have "(p - 1) * (p - 1) mod p = 1 mod p" by (simp only: mod_mult_self2)
  then have "((p - 1)\<^sup>2) ^ nat i mod p = 1 ^ nat i mod p"
    unfolding power2_eq_square by (rule pow_cong_mod)
  then show ?thesis using p by (simp add: k power_mult)
qed

lemma bn_subi_minus_one:
  assumes "bn_normalized p" "1 \<le> val p ! 0" "0 < bn_val p"
  shows "bn_normalized (bn_subi bn_zero 1 p)" "bn_val (bn_subi bn_zero 1 p) = bn_val p - 1"
proof -
  have z: "bn_normalized bn_zero" "bn_val bn_zero = 0"
    by (simp_all add: bn_zero_def bn_normalized_def bn_wf_def bn_val_def eval_nat_numeral)
  show "bn_normalized (bn_subi bn_zero 1 p)" "bn_val (bn_subi bn_zero 1 p) = bn_val p - 1"
    using bn_subi_correct[OF z(1) assms(1,2)] z(2) assms(3) bn_val_lt[OF assms(1)] by simp_all
qed

lemma bn_prime_lt: "bn_prime p \<Longrightarrow> bn_val p < 2 ^ 256"
  by (simp add: bn_prime_def)

lemma bn_subtractmod_cong:
  assumes a: "partly_reduced a p" and b: "partly_reduced b p" and p: "bn_prime p"
  shows "bn_val (bn_subtractmod a b p) mod bn_val p = (bn_val a - bn_val b) mod bn_val p"
proof -
  have bounds: "0 \<le> bn_val a" "bn_val a < 2 * bn_val p" "0 \<le> bn_val b" "bn_val b < 2 * bn_val p" "bn_val p < 2 ^ 256"
    using partly_reducedD(2)[OF a] partly_reducedD(2)[OF b] bn_prime_lt[OF p] by (simp_all only: bn_val_nonneg)
  have "0 \<le> bn_val a + 2 * bn_val p - bn_val b" "bn_val a + 2 * bn_val p - bn_val b < 4 * 2 ^ 256"
    using bounds by linarith+
  then have "bn_val (bn_subtractmod a b p) = (bn_val a - bn_val b) + bn_val p * 2"
    unfolding bn_subtractmod_correct(2)[OF partly_reducedD(1)[OF a] partly_reducedD(1)[OF b] bn_prime_normalized[OF p]]
    by simp
  then show ?thesis by (simp only: mod_mult_self2)
qed

end
