(* ===== verification/BignumDiv.thy ===== *)
theory BignumDiv
  imports BignumMul
begin

text \<open>
  Division of a big number by a small constant and the count of decimal digits that rests on it:
  \<open>bn_divmod58\<close>, \<open>bn_divmod1000\<close> and \<open>bn_digitcount\<close> of \<open>trezor-crypto/src/bignum.c\<close>.

  Both divisions are one loop over the limbs with the constants \<open>2^30 = q * d + m\<close>; the
  locale \<open>bn_divider\<close> states what a client relies on (quotient and remainder of the value)
  and is interpreted on the two functions.
\<close>

unbundle bit_operations_syntax

section \<open>Operations\<close>

definition bn_divmod58 :: "bignum256 \<Rightarrow> bignum256 \<times> u32" where
  "bn_divmod58 a =
     (let rem = val a ! 8 mod 58;
          v = (val a)[8 := val a ! 8 div 58];
          (rem, v) = for_down 8 0 (\<lambda>i (rem, v).
            let tmp = rem * 4 + v ! i;
                v = v[i := rem * 18512790 + tmp div 58]
            in (tmp mod 58, v)) (rem, v)
      in (a\<lparr>val := v\<rparr>, rem))"

definition bn_divmod1000 :: "bignum256 \<Rightarrow> bignum256 \<times> u32" where
  "bn_divmod1000 a =
     (let rem = val a ! 8 mod 1000;
          v = (val a)[8 := val a ! 8 div 1000];
          (rem, v) = for_down 8 0 (\<lambda>i (rem, v).
            let tmp = rem * 824 + v ! i;
                v = v[i := rem * 1073741 + tmp div 1000]
            in (tmp mod 1000, v)) (rem, v)
      in (a\<lparr>val := v\<rparr>, rem))"

text \<open>\<open>DIGITS\<close> is 78 and the loop counter steps by three, so it runs 26 times.\<close>

definition bn_digitcount :: "bignum256 \<Rightarrow> nat" where
  "bn_digitcount a =
     snd (for_up 0 26 (\<lambda>k (w, digits).
       let i = 3 * k;
           (w, limb) = bn_divmod1000 w
       in (w, if 100 \<le> limb then i + 3 else if 10 \<le> limb then i + 2
              else if 1 \<le> limb then i + 1 else digits)) (a, 1))"

section \<open>Division by a small constant\<close>

lemma small_div_step:
  fixes rem q m a d :: u32
  assumes c: "uint q * uint d + uint m = 2 ^ 30" and d: "0 < uint d" "uint d \<le> 1000" "uint m < uint d"
    and r: "uint rem < uint d" and a: "uint a < 2 ^ 30"
  shows "uint ((rem * m + a) mod d) = (uint rem * 2 ^ 30 + uint a) mod uint d"
    and "uint (rem * q + (rem * m + a) div d) = (uint rem * 2 ^ 30 + uint a) div uint d"
    and "(uint rem * 2 ^ 30 + uint a) div uint d < 2 ^ 30"
proof -
  let ?W = "uint rem * 2 ^ 30 + uint a"
  have "uint rem * uint m \<le> 1000 * 1000"
    using r d by (intro mult_mono) simp_all
  then have t: "uint (rem * m + a) = uint rem * uint m + uint a"
    using a by (simp add: uint_add_nowrap uint_mult_nowrap)
  have W: "?W = (uint rem * uint m + uint a) + (uint rem * uint q) * uint d"
    unfolding c[symmetric] by (simp add: algebra_simps)
  show "uint ((rem * m + a) mod d) = ?W mod uint d"
    unfolding uint_mod t W by (rule mod_mult_self1[symmetric])
  have div: "?W div uint d = uint rem * uint q + (uint rem * uint m + uint a) div uint d"
    unfolding W using d by simp
  have "?W < uint d * 2 ^ 30"
  proof -
    have "(uint rem + 1) * 2 ^ 30 \<le> uint d * 2 ^ 30" using r by (intro mult_right_mono) simp_all
    then show ?thesis using a by simp
  qed
  then show lt: "?W div uint d < 2 ^ 30"
    using d by (simp add: div_ltI mult.commute)
  have "0 \<le> (uint rem * uint m + uint a) div uint d" "0 \<le> uint rem * uint q"
    using d by (simp_all add: pos_imp_zdiv_nonneg_iff)
  then have "uint rem * uint q < 2 ^ 30" "(uint rem * uint m + uint a) div uint d < 2 ^ 30"
    using lt unfolding div by linarith+
  then show "uint (rem * q + (rem * m + a) div d) = ?W div uint d"
    unfolding div by (simp add: uint_add_nowrap uint_mult_nowrap uint_div t)
qed

definition div_inv :: "int \<Rightarrow> u32 list \<Rightarrow> nat \<Rightarrow> u32 \<Rightarrow> u32 list \<Rightarrow> bool" where
  "div_inv d v0 i rem v \<longleftrightarrow> length v = 9 \<and> take i v = take i v0 \<and> (\<forall>k<9. uint (v ! k) < 2 ^ 30)
     \<and> uint rem < d \<and> limbs_val (drop i v0) = d * limbs_val (drop i v) + uint rem"

lemma div_inv_step:
  assumes inv: "div_inv (uint d) v0 (Suc i) rem v" and i: "i < 9" and l: "length v0 = 9"
    and c: "uint q * uint d + uint m = 2 ^ 30" and d: "0 < uint d" "uint d \<le> 1000" "uint m < uint d"
  shows "div_inv (uint d) v0 i ((rem * m + v ! i) mod d) (v[i := rem * q + (rem * m + v ! i) div d])"
proof -
  have v: "length v = 9" "take (Suc i) v = take (Suc i) v0" "uint (v ! i) < 2 ^ 30" "uint rem < uint d"
      "limbs_val (drop (Suc i) v0) = uint d * limbs_val (drop (Suc i) v) + uint rem"
      "\<forall>k<9. uint (v ! k) < 2 ^ 30"
    using inv i by (simp_all add: div_inv_def)
  note S = small_div_step[OF c d v(4) v(3)]
  have vi: "v ! i = v0 ! i" using v(1,2) i l by (metis lessI nth_take)
  have "take i v = take i v0" using v(2) by (metis min.absorb1 le_SucI order_refl take_take)
  moreover have "limbs_val (drop i v0) = uint (v ! i) + 2 ^ 30 * limbs_val (drop (Suc i) v0)"
    using i l by (simp add: drop_eq_Cons vi)
  moreover have "uint rem * 2 ^ 30 + uint (v ! i)
      = uint d * ((uint rem * 2 ^ 30 + uint (v ! i)) div uint d) + (uint rem * 2 ^ 30 + uint (v ! i)) mod uint d"
    by simp
  ultimately show ?thesis
    using i v(1,5,6) S d by (simp add: div_inv_def nth_list_update drop_eq_Cons algebra_simps)
qed

lemma small_div_loop:
  assumes a: "bn_normalized a" and c: "uint q * uint d + uint m = 2 ^ 30"
    and d: "0 < uint d" "uint d \<le> 1000" "uint m < uint d"
    and r: "for_down 8 0 (\<lambda>i (rem, v). let tmp = rem * m + v ! i; v = v[i := rem * q + tmp div d] in (tmp mod d, v))
              (val a ! 8 mod d, (val a)[8 := val a ! 8 div d]) = (rem, v)"
  shows "bn_normalized \<lparr>val = v\<rparr>" "bn_val \<lparr>val = v\<rparr> = bn_val a div uint d" "uint rem = bn_val a mod uint d"
proof -
  let ?P = "\<lambda>i (rem, v). div_inv (uint d) (val a) i rem v"
  have "?P 0 (for_down 8 0 (\<lambda>i (rem, v). let tmp = rem * m + v ! i; v = v[i := rem * q + tmp div d] in (tmp mod d, v))
              (val a ! 8 mod d, (val a)[8 := val a ! 8 div d]))"
  proof (rule for_down_inv[where P = ?P], goal_cases)
    case 2
    have a8: "uint (val a ! 8) < 2 ^ 30" using bn_limb_lt[OF a, of 8] by simp
    have "uint (val a ! 8) * 1 \<le> uint (val a ! 8) * uint d"
      using d by (intro mult_left_mono) simp_all
    then have "uint (val a ! 8) div uint d < 2 ^ 30"
      using a8 d by (intro div_ltI) simp_all
    then show ?case
      using a d bn_limb_lt[OF a] by (simp add: div_inv_def drop_eq_Cons uint_div uint_mod nth_list_update)
  next
    case (3 i s)
    then show ?case
      using div_inv_step[OF _ _ bn_normalized_len[OF a] c d] by (auto simp: Let_def split: prod.splits)
  qed simp
  then have inv: "div_inv (uint d) (val a) 0 rem v" unfolding r by simp
  then have "bn_val a = uint d * bn_val \<lparr>val = v\<rparr> + uint rem" "uint rem < uint d"
    by (simp_all add: div_inv_def bn_val_def)
  then show "bn_val \<lparr>val = v\<rparr> = bn_val a div uint d" "uint rem = bn_val a mod uint d"
    using d by simp_all
  show "bn_normalized \<lparr>val = v\<rparr>" using inv by (auto intro: bn_normalizedI simp: div_inv_def)
qed

lemma bn_divmod58_correct:
  assumes "bn_normalized a" "bn_divmod58 a = (b, r)"
  shows "bn_normalized b" "bn_val b = bn_val a div 58" "uint r = bn_val a mod 58"
  using small_div_loop[OF assms(1), of 18512790 58 4] assms(2)
  by (auto simp: bn_divmod58_def Let_def split: prod.splits)

lemma bn_divmod1000_correct:
  assumes "bn_normalized a" "bn_divmod1000 a = (b, r)"
  shows "bn_normalized b" "bn_val b = bn_val a div 1000" "uint r = bn_val a mod 1000"
  using small_div_loop[OF assms(1), of 1073741 1000 824] assms(2)
  by (auto simp: bn_divmod1000_def Let_def split: prod.splits)

section \<open>The divider as an interface\<close>

text \<open>
  What a client needs of a division by \<open>d\<close>; inside, the remainders of repeated division are
  the digits of the value in base \<open>d\<close>.
\<close>

locale bn_divider =
  fixes divmod :: "bignum256 \<Rightarrow> bignum256 \<times> u32" and d :: int
  assumes base: "1 < d"
    and quot_normalized: "bn_normalized a \<Longrightarrow> bn_normalized (fst (divmod a))"
    and quot: "bn_normalized a \<Longrightarrow> bn_val (fst (divmod a)) = bn_val a div d"
    and rem: "bn_normalized a \<Longrightarrow> uint (snd (divmod a)) = bn_val a mod d"
begin

lemma iterate_normalized: "bn_normalized a \<Longrightarrow> bn_normalized (((\<lambda>a. fst (divmod a)) ^^ n) a)"
  by (induction n) (simp_all add: quot_normalized)

lemma iterate: "bn_normalized a \<Longrightarrow> bn_val (((\<lambda>a. fst (divmod a)) ^^ n) a) = bn_val a div d ^ n"
proof (induction n)
  case (Suc n)
  then show ?case
    using base by (simp add: quot iterate_normalized mult.commute[of d] zdiv_zmult2_eq)
qed simp

lemma digit: "bn_normalized a \<Longrightarrow> uint (snd (divmod (((\<lambda>a. fst (divmod a)) ^^ n) a))) = bn_val a div d ^ n mod d"
  by (simp add: rem iterate_normalized iterate)

lemma exhausted: "bn_normalized a \<Longrightarrow> bn_val a < d ^ n \<Longrightarrow> bn_val (((\<lambda>a. fst (divmod a)) ^^ n) a) = 0"
  by (simp add: iterate)

end

interpretation div58: bn_divider bn_divmod58 58
  by unfold_locales (use bn_divmod58_correct in \<open>auto simp: prod_eq_iff\<close>)

interpretation div1000: bn_divider bn_divmod1000 1000
  by unfold_locales (use bn_divmod1000_correct in \<open>auto simp: prod_eq_iff\<close>)

section \<open>Counting decimal digits\<close>

text \<open>\<open>n\<close> is written with \<open>k\<close> decimal digits; zero is written with one.\<close>

definition has_digits :: "int \<Rightarrow> nat \<Rightarrow> bool" where
  "has_digits n k \<longleftrightarrow> 1 \<le> k \<and> 0 \<le> n \<and> n < 10 ^ k \<and> (if n = 0 then k = 1 else 10 ^ (k - 1) \<le> n)"

lemma has_digits_unique: "has_digits n k \<Longrightarrow> has_digits n l \<Longrightarrow> k = l"
proof (rule ccontr)
  assume "has_digits n k" "has_digits n l" "k \<noteq> l"
  then have k: "n < 10 ^ k" "n < 10 ^ l" "10 ^ (k - 1) \<le> n" "10 ^ (l - 1) \<le> n" "1 \<le> k" "1 \<le> l"
    by (auto simp: has_digits_def split: if_splits)
  have "(10::int) ^ (k - 1) < 10 ^ l" "(10::int) ^ (l - 1) < 10 ^ k" using k by linarith+
  then have "k - 1 < l" "l - 1 < k" by simp_all
  with k \<open>k \<noteq> l\<close> show False by linarith
qed

lemma has_digits_top:
  assumes n: "n = 1000 ^ k * t + r" and r: "0 \<le> r" "r < 1000 ^ k" and t: "10 ^ j \<le> t" "t < 10 ^ Suc j"
  shows "has_digits n (3 * k + Suc j)"
proof -
  have e: "(10::int) ^ (k * 3) = 1000 ^ k" by (simp add: power_mult mult.commute[of k])
  have "10 ^ j * 1000 ^ k \<le> t * 1000 ^ k" using t by (intro mult_right_mono) simp_all
  then have lo: "10 ^ j * 1000 ^ k \<le> r + t * 1000 ^ k" using r by linarith
  have "1000 ^ k * (t + 1) \<le> 1000 ^ k * 10 ^ Suc j" using t by (intro mult_left_mono) simp_all
  moreover have "0 < t" using t(1) zero_less_power[of "10::int" j] by linarith
  then have "0 < 1000 ^ k * t" by simp
  ultimately show ?thesis
    using r n lo by (auto simp: has_digits_def power_add e algebra_simps)
qed

lemma digitcount_step:
  fixes limb :: u32
  assumes D: "has_digits (n mod 1000 ^ k) digits" and n: "0 \<le> n"
    and l: "uint limb = n div 1000 ^ k mod 1000"
  shows "has_digits (n mod 1000 ^ Suc k)
     (if 100 \<le> limb then 3 * k + 3 else if 10 \<le> limb then 3 * k + 2 else if 1 \<le> limb then 3 * k + 1 else digits)"
proof -
  have split: "n mod 1000 ^ Suc k = 1000 ^ k * uint limb + n mod 1000 ^ k"
    unfolding l power_Suc2 by (simp only: zmod_zmult2_eq zero_le_numeral)
  have r: "0 \<le> n mod 1000 ^ k" "n mod 1000 ^ k < 1000 ^ k" by simp_all
  have lt: "uint limb < 1000" using l by simp
  consider "100 \<le> uint limb" | "10 \<le> uint limb" "uint limb < 100" | "1 \<le> uint limb" "uint limb < 10" | "uint limb = 0"
    using uint_nonnegative[of limb] by linarith
  then show ?thesis
  proof cases
    case 1 then show ?thesis using has_digits_top[OF split r, of 2] lt by (simp add: word_le_def)
  next
    case 2 then show ?thesis using has_digits_top[OF split r, of 1] by (simp add: word_le_def)
  next
    case 3 then show ?thesis using has_digits_top[OF split r, of 0] by (simp add: word_le_def)
  next
    case 4 then show ?thesis using D using split by (simp add: word_le_def)
  qed
qed

lemma bn_digitcount_correct:
  assumes a: "bn_normalized a" and lt: "bn_val a < 10 ^ 78"
  shows "has_digits (bn_val a) (bn_digitcount a)"
proof -
  let ?body = "\<lambda>k (w, digits).
       let i = 3 * k;
           (w, limb) = bn_divmod1000 w
       in (w, if 100 \<le> limb then i + 3 else if 10 \<le> limb then i + 2
              else if 1 \<le> limb then i + 1 else digits)"
  let ?P = "\<lambda>k (w, digits). w = ((\<lambda>a. fst (bn_divmod1000 a)) ^^ k) a \<and> has_digits (bn_val a mod 1000 ^ k) digits"
  have "?P 26 (for_up 0 26 ?body (a, 1))"
  proof (rule for_up_inv[where P = ?P], goal_cases)
    case 2
    then show ?case by (simp add: has_digits_def)
  next
    case (3 k s)
    obtain w dg where s: "s = (w, dg)" by (cases s)
    obtain w' limb where b: "bn_divmod1000 w = (w', limb)" by (cases "bn_divmod1000 w")
    have "uint limb = bn_val a div 1000 ^ k mod 1000"
      using div1000.digit[OF a, of k] 3 b by (simp add: s)
    then show ?case using 3 b digitcount_step[of "bn_val a" k dg limb] by (simp add: s Let_def)
  qed simp
  moreover have "bn_val a mod 1000 ^ 26 = bn_val a" using lt by simp
  ultimately show ?thesis by (simp add: bn_digitcount_def split: prod.splits)
qed

end
