(* ===== verification/Curves.thy ===== *)
theory Curves
  imports BignumMul
begin

text \<open>
  The curve parameters of \<open>trezor-crypto/src/secp256k1.c\<close> and \<open>nist256p1.c\<close>, with the records
  of \<open>ecdsa.h\<close> that hold them. The precomputed multiples \<open>cp\<close> come from generated tables
  and are not part of the record.

  The lemmas say that the constants are what the arithmetic of \<open>bignum.c\<close> asks of them:
  primes and orders lie in the range every reduction assumes, \<open>order_half\<close> is half the order,
  and the base point satisfies the curve equation.
\<close>

record curve_point =
  px :: bignum256
  py :: bignum256

record ecdsa_curve =
  curve_prime :: bignum256
  curve_G :: curve_point
  curve_order :: bignum256
  curve_order_half :: bignum256
  curve_a :: int
  curve_b :: bignum256

definition secp256k1 :: ecdsa_curve where
  "secp256k1 = \<lparr>
     curve_prime = \<lparr>val = [0x3ffffc2f, 0x3ffffffb, 0x3fffffff, 0x3fffffff, 0x3fffffff, 0x3fffffff, 0x3fffffff, 0x3fffffff, 0xffff]\<rparr>,
     curve_G = \<lparr>px = \<lparr>val = [0x16f81798, 0x27ca056c, 0x1ce28d95, 0x26ff36cb, 0x70b0702, 0x18a573a, 0xbbac55a, 0x199fbe77, 0x79be]\<rparr>,
          py = \<lparr>val = [0x3b10d4b8, 0x311f423f, 0x28554199, 0x5ed1229, 0x1108a8fd, 0x13eff038, 0x3c4655da, 0x369dc9a8, 0x483a]\<rparr>\<rparr>,
     curve_order = \<lparr>val = [0x10364141, 0x3f497a33, 0x348a03bb, 0x2bb739ab, 0x3ffffeba, 0x3fffffff, 0x3fffffff, 0x3fffffff, 0xffff]\<rparr>,
     curve_order_half = \<lparr>val = [0x281b20a0, 0x3fa4bd19, 0x3a4501dd, 0x15db9cd5, 0x3fffff5d, 0x3fffffff, 0x3fffffff, 0x3fffffff, 0x7fff]\<rparr>,
     curve_a = 0,
     curve_b = \<lparr>val = [7, 0, 0, 0, 0, 0, 0, 0, 0]\<rparr>\<rparr>"

definition nist256p1 :: ecdsa_curve where
  "nist256p1 = \<lparr>
     curve_prime = \<lparr>val = [0x3fffffff, 0x3fffffff, 0x3fffffff, 0x3f, 0x0, 0x0, 0x1000, 0x3fffc000, 0xffff]\<rparr>,
     curve_G = \<lparr>px = \<lparr>val = [0x1898c296, 0x1284e517, 0x1eb33a0f, 0xdf604b, 0x2440f277, 0x339b958e, 0x4247f8b, 0x347cb84b, 0x6b17]\<rparr>,
          py = \<lparr>val = [0x37bf51f5, 0x2ed901a0, 0x3315ecec, 0x338cd5da, 0xf9e162b, 0x1fad29f0, 0x27f9b8ee, 0x10b8bf86, 0x4fe3]\<rparr>\<rparr>,
     curve_order = \<lparr>val = [0x3c632551, 0xee72b0b, 0x3179e84f, 0x39beab69, 0x3fffffbc, 0x3fffffff, 0xfff, 0x3fffc000, 0xffff]\<rparr>,
     curve_order_half = \<lparr>val = [0x3e3192a8, 0x27739585, 0x38bcf427, 0x1cdf55b4, 0x3fffffde, 0x3fffffff, 0x7ff, 0x3fffe000, 0x7fff]\<rparr>,
     curve_a = - 3,
     curve_b = \<lparr>val = [0x27d2604b, 0x2f38f0f8, 0x53b0f63, 0x741ac33, 0x1886bc65, 0x2ef555da, 0x293e7b3e, 0xd762a8e, 0x5ac6]\<rparr>\<rparr>"

definition on_curve :: "ecdsa_curve \<Rightarrow> curve_point \<Rightarrow> bool" where
  "on_curve c P \<longleftrightarrow>
     ((bn_val (py P))\<^sup>2 - (bn_val (px P) ^ 3 + curve_a c * bn_val (px P) + bn_val (curve_b c))) mod bn_val (curve_prime c) = 0"

definition curve_ok :: "ecdsa_curve \<Rightarrow> bool" where
  "curve_ok c \<longleftrightarrow> bn_prime (curve_prime c) \<and> bn_prime (curve_order c) \<and> odd (bn_val (curve_prime c)) \<and> odd (bn_val (curve_order c))
     \<and> 2 \<le> uint (val (curve_prime c) ! 0) \<and> 2 \<le> uint (val (curve_order c) ! 0)
     \<and> bn_normalized (curve_order_half c) \<and> bn_val (curve_order_half c) = bn_val (curve_order c) div 2
     \<and> bn_normalized (px (curve_G c)) \<and> bn_normalized (py (curve_G c)) \<and> on_curve c (curve_G c)"

text \<open>The curve equation is checked by a quotient: multiplying is cheaper than reducing.\<close>

lemma on_curveI:
  "(bn_val (py P))\<^sup>2 - (bn_val (px P) ^ 3 + curve_a c * bn_val (px P) + bn_val (curve_b c)) = bn_val (curve_prime c) * k
    \<Longrightarrow> on_curve c P"
  by (simp add: on_curve_def)

lemma secp256k1_base_point: "on_curve secp256k1 (curve_G secp256k1)"
  by (rule on_curveI[where k = "- 1442042049659660869506300006036683750029629333882594701370927246876626245108435922902327776681700708714008192087431130951749952236093997894375239788520937"])
    (simp add: secp256k1_def bn_val_def power2_eq_square power3_eq_cube)

lemma secp256k1_ok: "curve_ok secp256k1"
  unfolding curve_ok_def using secp256k1_base_point
  by (simp add: secp256k1_def bn_prime_def bn_normalized_def bn_wf_def bn_val_def)

lemma nist256p1_base_point: "on_curve nist256p1 (curve_G nist256p1)"
  by (rule on_curveI[where k = "- 981570988164258562257936101525215858910690391106138407341175333813841188485201771743408849884010754226965632845910189239885256093057339116530079505515608"])
    (simp add: nist256p1_def bn_val_def power2_eq_square power3_eq_cube)

lemma nist256p1_ok: "curve_ok nist256p1"
  unfolding curve_ok_def using nist256p1_base_point
  by (simp add: nist256p1_def bn_prime_def bn_normalized_def bn_wf_def bn_val_def)

lemma secp256k1_mod4: "bn_val (curve_prime secp256k1) mod 4 = 3"
  by (simp add: secp256k1_def bn_val_def)

end
