(* ===== verification/Tlv.thy ===== *)
theory Tlv
  imports Prelude "HOL-Library.Monad_Syntax"
begin

text \<open>
  The BER-TLV header parser of the secure-channel code, \<open>gpc/src/tlvparse.c\<close>.

  The C function reads up to five bytes through \<open>*p\<close>, then writes \<open>*tag\<close> and \<open>*len\<close>. The
  model takes the readable bytes from \<open>*p\<close> on, the difference \<open>end - *p\<close>, and the old values
  of the two outputs; a read past the readable bytes is \<open>None\<close>, otherwise the result is the
  return code with the two outputs as the function leaves them.
\<close>

type_synonym u16 = "16 word"

definition GPC_SCP11_ERR_TLV_OUT_OF_DATA :: int where
  "GPC_SCP11_ERR_TLV_OUT_OF_DATA = - 0x60"

text \<open>The first bytes of the tags, and the second bytes of the two-byte tags.\<close>

definition tlv_tags1 :: "u8 list" where
  "tlv_tags1 = [0x86, 0xB0, 0xF0, 0x42, 0x53, 0x73, 0x93, 0x95]"

definition tlv_tags_5F :: "u8 list" where
  "tlv_tags_5F = [0x20, 0x24, 0x25, 0x37, 0x49]"

definition rd :: "u8 list \<Rightarrow> nat \<Rightarrow> u8 option" where
  "rd m i = (if i < length m then Some (m ! i) else None)"

text \<open>The length field of the two constructed tags: one or two bytes after \<open>0x81\<close> or \<open>0x82\<close>.\<close>

definition tlv_long_length :: "u8 list \<Rightarrow> u8 \<Rightarrow> (int + u64) option" where
  "tlv_long_length m l =
     (if l = 0x82 then do {
        hi \<leftarrow> rd m 3;
        lo \<leftarrow> rd m 4;
        Some (Inr (push_bit 8 (ucast hi) OR (ucast lo AND 0xFF)))
      }
      else if l = 0x81 then do { b \<leftarrow> rd m 3; Some (Inr (ucast b)) }
      else Some (Inl GPC_SCP11_ERR_TLV_OUT_OF_DATA))"

text \<open>The switch over the tag: the tag and length it recognises, or the error of a \<open>default\<close> case.\<close>

definition tlv_switch :: "u8 list \<Rightarrow> (int + u16 \<times> u64) option" where
  "tlv_switch m = do {
     t \<leftarrow> rd m 0;
     sub \<leftarrow> rd m 1;
     let tag2 = push_bit 8 (ucast t) + ucast sub;
     let err = Some (Inl GPC_SCP11_ERR_TLV_OUT_OF_DATA);
     let long = (\<lambda>l. do {
           r \<leftarrow> tlv_long_length m l;
           Some (case r of Inl e \<Rightarrow> Inl e | Inr n \<Rightarrow> Inr (tag2, n))
         });
     if t = 0x7F then do {
       l \<leftarrow> rd m 2;
       if sub = 0x21 then long l
       else if sub = 0x49 then Some (Inr (tag2, ucast l))
       else err
     }
     else if t \<in> set tlv_tags1 then Some (Inr (ucast t, ucast sub))
     else if t = 0x5F then do {
       l \<leftarrow> rd m 2;
       if sub \<in> set tlv_tags_5F then Some (Inr (tag2, ucast l)) else err
     }
     else if t = 0xBF then do {
       l \<leftarrow> rd m 2;
       if sub = 0x20 then Some (Inr (tag2, ucast l))
       else if sub = 0x21 then long l
       else err
     }
     else err
   }"

definition gpc_tlv_get_tag :: "u8 list \<Rightarrow> int \<Rightarrow> u16 \<Rightarrow> u64 \<Rightarrow> (int \<times> u16 \<times> u64) option" where
  "gpc_tlv_get_tag m remain tag len = do {
     r \<leftarrow> tlv_switch m;
     Some (case r of
       Inl e \<Rightarrow> (e, tag, len)
     | Inr (t, n) \<Rightarrow>
         if word_of_int remain < len then (GPC_SCP11_ERR_TLV_OUT_OF_DATA, t, len)
         else (0, t, n))
   }"

section \<open>The headers the parser recognises\<close>

text \<open>
  \<open>tlv_headers t n\<close> lists the byte strings that stand for tag \<open>t\<close> and length \<open>n\<close>: a
  constructed tag has the two long forms and no short one, every other tag has one length
  byte, also from \<open>0x80\<close> on.
\<close>

definition tlv_headers :: "u16 \<Rightarrow> u64 \<Rightarrow> u8 list list" where
  "tlv_headers t n =
     (let hi = ucast (drop_bit 8 t); lo = ucast t in
      if t = 0x7F21 \<or> t = 0xBF21 then
        (if n < 256 then [[hi, lo, 0x81, ucast n]] else [])
        @ (if n < 65536 then [[hi, lo, 0x82, ucast (drop_bit 8 n), ucast n]] else [])
      else if t = 0x7F49 \<or> t = 0xBF20 \<or> hi = 0x5F \<and> lo \<in> set tlv_tags_5F then
        (if n < 256 then [[hi, lo, ucast n]] else [])
      else if hi = 0 \<and> lo \<in> set tlv_tags1 then
        (if n < 256 then [[lo, ucast n]] else [])
      else [])"

lemma ucast_u8_u64: "ucast (ucast (x :: u8) :: u64) = x" "(ucast (x :: u8) :: u64) < 256"
    "uint (ucast (x :: u8) :: u64) = uint x"
  using uint_lt_u8[of x] by (simp_all add: word_uint_eq_iff uint_ucast word_less_def)

lemma ucast_u64_u8: "n < 256 \<Longrightarrow> ucast (ucast (n :: u64) :: u8) = n"
  by (simp add: word_uint_eq_iff uint_ucast word_less_def)

lemma tlv_two_bytes:
  fixes h l :: u8
  defines "n \<equiv> push_bit 8 (ucast h) OR (ucast l AND 0xFF) :: u64"
  shows "ucast (drop_bit 8 n) = h" and "ucast n = l" and "n < 65536"
proof -
  have l: "(ucast l AND 0xFF :: u64) = ucast l"
    unfolding and_8bit using uint_lt_u8[of l] by (simp add: word_uint_eq_iff uint_take_bit uint_ucast)
  have "uint n = uint (ucast l :: u64) + uint (push_bit 8 (ucast h) :: u64)"
    unfolding n_def l or.commute[of "push_bit 8 _"]
    using uint_lt_u8[of l] uint_lt_u8[of h]
    by (intro uint_or_add[where n = 8]) (simp_all add: uint_push_bit ucast_u8_u64)
  then have n: "uint n = uint h * 256 + uint l"
    using uint_lt_u8[of h] by (simp add: uint_push_bit ucast_u8_u64)
  show "ucast (drop_bit 8 n) = h" "ucast n = l" "n < 65536"
    using n uint_lt_u8[of h] uint_lt_u8[of l] by (simp_all add: word_uint_eq_iff uint_ucast uint_drop_bit word_less_def)
qed

lemma tlv_bind_None [simp]: "Option.bind None f = None" by simp

lemma rd_Cons [simp]: "rd (x # m) 0 = Some x" "rd (x # m) (Suc i) = rd m i"
    "rd (x # m) (numeral k) = rd m (pred_numeral k)" "rd [] i = None"
  by (simp_all add: rd_def numeral_eq_Suc)

lemma rd_Some: "rd m i = Some x \<longleftrightarrow> i < length m \<and> x = m ! i"
  by (auto simp: rd_def)

lemma take_nth_prefix: "\<exists>r. m = take k m @ r"
  by (rule exI[of _ "drop k m"]) simp

lemma take_explicit: "Suc 0 < length m \<Longrightarrow> take (Suc (Suc 0)) m = [m ! 0, m ! Suc 0]"
    "2 < length m \<Longrightarrow> take (Suc (Suc (Suc 0))) m = [m ! 0, m ! Suc 0, m ! 2]"
    "3 < length m \<Longrightarrow> take (Suc (Suc (Suc (Suc 0)))) m = [m ! 0, m ! Suc 0, m ! 2, m ! 3]"
    "4 < length m \<Longrightarrow> take (Suc (Suc (Suc (Suc (Suc 0))))) m = [m ! 0, m ! Suc 0, m ! 2, m ! 3, m ! 4]"
  by (cases m; cases "tl m"; cases "tl (tl m)"; cases "tl (tl (tl m))"; cases "tl (tl (tl (tl m)))"; auto)+

text \<open>Sound: what the switch recognises stands at the front of the buffer.\<close>

lemma tlv_long_sound:
  assumes "tlv_long_length m (m ! 2) = Some (Inr n)" "2 < length m"
  shows "(m ! 2 = 0x81 \<and> 3 < length m \<and> n < 256 \<and> m ! 3 = ucast n)
    \<or> (m ! 2 = 0x82 \<and> 4 < length m \<and> n < 65536 \<and> m ! 3 = ucast (drop_bit 8 n) \<and> m ! 4 = ucast n)"
  using assms tlv_two_bytes[of "m ! 3" "m ! 4"]
  by (auto simp: tlv_long_length_def rd_Some bind_eq_Some_conv ucast_u8_u64 split: if_splits)
lemma tlv_tagged_Inr: "(case r of Inl e \<Rightarrow> Inl e | Inr k \<Rightarrow> Inr (t', k)) = Inr (t, n) \<longleftrightarrow> r = Inr n \<and> t' = t"
  by (cases r) auto

lemma tlv_switch_sound:
  assumes "tlv_switch m = Some (Inr (t, n))"
  shows "\<exists>h\<in>set (tlv_headers t n). take (length h) m = h"
proof -
  obtain len: "0 < length m" "1 < length m"
    using assms by (auto simp: tlv_switch_def rd_def bind_eq_Some_conv split: if_splits)
  let ?t = "push_bit 8 (ucast (m ! 0)) + ucast (m ! 1) :: u16"
  consider "m ! 0 = 0x7F" | "m ! 0 \<in> set tlv_tags1" | "m ! 0 = 0x5F" | "m ! 0 = 0xBF"
    using assms len by (auto simp: tlv_switch_def rd_def Let_def split: if_splits)
  then show ?thesis
  proof cases
    case 1
    then show ?thesis
      using assms len tlv_long_sound[of m n] take_explicit[of m]
      by (auto simp: tlv_switch_def rd_Some bind_eq_Some_conv tlv_tags1_def tlv_headers_def ucast_u8_u64 Let_def tlv_tagged_Inr
          split: if_splits)
  next
    case 2
    then show ?thesis
      using assms len take_explicit[of m]
      by (auto simp: tlv_switch_def rd_Some bind_eq_Some_conv tlv_tags1_def tlv_headers_def ucast_u8_u64 Let_def tlv_tagged_Inr
          split: if_splits)
  next
    case 3
    then show ?thesis
      using assms len take_explicit[of m]
      by (auto simp: tlv_switch_def rd_Some bind_eq_Some_conv tlv_tags1_def tlv_tags_5F_def tlv_headers_def ucast_u8_u64 Let_def tlv_tagged_Inr
          split: if_splits)
  next
    case 4
    then show ?thesis
      using assms len tlv_long_sound[of m n] take_explicit[of m]
      by (auto simp: tlv_switch_def rd_Some bind_eq_Some_conv tlv_tags1_def tlv_headers_def ucast_u8_u64 Let_def tlv_tagged_Inr
          split: if_splits)
  qed
qed

lemma uint_tag_bytes: "t = push_bit 8 (ucast (ucast (drop_bit 8 t) :: u8)) + ucast (ucast t :: u8)"
  for t :: u16
proof -
  have t: "uint t < 65536" using uint_lt2p[of t] by simp
  then have d: "uint t div 256 < 256" by simp
  have "uint (push_bit 8 (ucast (ucast (drop_bit 8 t) :: u8)) :: u16) = uint t div 256 * 256"
    using d by (simp add: uint_push_bit uint_ucast uint_drop_bit mod_pos_pos_trivial)
  moreover have "uint (ucast (ucast t :: u8) :: u16) = uint t mod 256"
    by (simp add: uint_ucast)
  ultimately show ?thesis
    using t by (simp add: word_uint_eq_iff uint_word_ariths)
qed

lemma tlv_join_bytes:
  fixes n :: u64
  assumes "n < 65536"
  shows "push_bit 8 (ucast (ucast (drop_bit 8 n) :: u8)) OR (ucast (ucast n :: u8) AND 0xFF) = n"
proof -
  have "uint n < 65536" using assms by (simp add: word_less_def)
  then have "uint n div 256 < 256" by simp
  have low: "(ucast (ucast n :: u8) AND 0xFF :: u64) = ucast (ucast n :: u8)"
    unfolding and_8bit by (simp add: word_uint_eq_iff uint_take_bit uint_ucast)
  have "uint (ucast (ucast n :: u8) OR push_bit 8 (ucast (ucast (drop_bit 8 n) :: u8)) :: u64)
      = uint (ucast (ucast n :: u8) :: u64) + uint (push_bit 8 (ucast (ucast (drop_bit 8 n) :: u8)) :: u64)"
    by (intro uint_or_add[where n = 8]) (simp_all add: uint_push_bit uint_ucast)
  then show ?thesis
    using \<open>uint n div 256 < 256\<close> unfolding low
    by (simp add: word_uint_eq_iff or.commute[of "push_bit 8 _"] uint_push_bit uint_ucast uint_drop_bit mod_pos_pos_trivial)
qed

lemma tlv_long_eval:
  "n < 256 \<Longrightarrow> tlv_long_length (x # y # 0x81 # ucast n # r) 0x81 = Some (Inr n)"
  "n < 65536 \<Longrightarrow> tlv_long_length (x # y # 0x82 # ucast (drop_bit 8 n) # ucast n # r) 0x82 = Some (Inr n)"
  using tlv_join_bytes[of n] by (simp_all add: tlv_long_length_def ucast_u64_u8)

lemma tlv_entity_tags:
  "(0x7F21 :: u16) = push_bit 8 (ucast (0x7F :: u8)) + 0x21" "(0xBF21 :: u16) = push_bit 8 (ucast (0xBF :: u8)) + 0x21"
  "(ucast (drop_bit 8 (0x7F21 :: u16)) :: u8) = 0x7F" "(ucast (drop_bit 8 (0xBF21 :: u16)) :: u8) = 0xBF"
  "(ucast (0x7F21 :: u16) :: u8) = 0x21" "(ucast (0xBF21 :: u16) :: u8) = 0x21"
  by simp_all

lemma tlv_switch_complete:
  assumes h: "h \<in> set (tlv_headers t n)"
  shows "tlv_switch (h @ r) = Some (Inr (t, n))"
proof -
  have t: "push_bit 8 (ucast (ucast (drop_bit 8 t) :: u8)) + ucast (ucast t :: u8) = t"
    by (rule uint_tag_bytes[symmetric])
  consider "t = 0x7F21 \<or> t = 0xBF21" | "t = 0x7F49 \<or> t = 0xBF20"
    | "(ucast (drop_bit 8 t) :: u8) = 0x5F" "(ucast t :: u8) \<in> set tlv_tags_5F"
    | "(ucast (drop_bit 8 t) :: u8) = 0" "(ucast t :: u8) \<in> set tlv_tags1"
    using h by (auto simp: tlv_headers_def Let_def split: if_splits)
  then show ?thesis
  proof cases
    case 1
    then obtain x where x: "x = 0x7F \<or> x = 0xBF" "t = push_bit 8 (ucast x) + 0x21"
        "(ucast (drop_bit 8 t) :: u8) = x" "(ucast t :: u8) = 0x21"
      by (metis tlv_entity_tags)
    from 1 h x(3,4) have "n < 256 \<and> h = [x, 0x21, 0x81, ucast n]
        \<or> n < 65536 \<and> h = [x, 0x21, 0x82, ucast (drop_bit 8 n), ucast n]"
      by (auto simp: tlv_headers_def Let_def split: if_splits)
    then show ?thesis
      using x(1) unfolding x(2)
      by (elim disjE conjE) (simp_all add: tlv_switch_def tlv_long_eval tlv_tags1_def Let_def)
  next
    case 2
    then have "(n < 256 \<and> t = 0x7F49 \<and> h = [0x7F, 0x49, ucast n]) \<or> (n < 256 \<and> t = 0xBF20 \<and> h = [0xBF, 0x20, ucast n])"
      using h by (auto simp: tlv_headers_def Let_def split: if_splits)
    then show ?thesis
      by (elim disjE conjE) (simp_all add: ucast_u64_u8 tlv_switch_def tlv_tags1_def Let_def)
  next
    case 3
    then have h3: "n < 256" "h = [0x5F, ucast t, ucast n]"
      using h by (auto simp: tlv_headers_def Let_def tlv_tags_5F_def split: if_splits)
    show ?thesis
      using 3 h3(1) t unfolding h3(2)
      by (simp add: ucast_u64_u8 tlv_switch_def tlv_tags1_def Let_def)
  next
    case 4
    then have h4: "n < 256" "h = [ucast t, ucast n]"
      using h by (auto simp: tlv_headers_def Let_def tlv_tags1_def split: if_splits)
    have "(ucast t :: u8) \<noteq> 0x7F" using 4(2) by (auto simp: tlv_tags1_def)
    moreover have "ucast (ucast t :: u8) = t" using t 4(1) by simp
    ultimately show ?thesis
      using 4(2) h4(1) unfolding h4(2)
      by (simp add: ucast_u64_u8 tlv_switch_def Let_def)
  qed
qed

text \<open>Five readable bytes are enough for every branch; fewer may not be.\<close>

lemma tlv_switch_total: "5 \<le> length m \<Longrightarrow> tlv_switch m \<noteq> None"
  by (auto simp: tlv_switch_def tlv_long_length_def rd_def Let_def)

section \<open>The whole function\<close>

lemma tlv_tagged_Inl: "(case r of Inl e \<Rightarrow> Inl e | Inr k \<Rightarrow> Inr (t', k)) = Inl e \<longleftrightarrow> r = Inl e"
  by (cases r) auto

lemma tlv_switch_error: "tlv_switch m = Some (Inl e) \<Longrightarrow> e = GPC_SCP11_ERR_TLV_OUT_OF_DATA"
  by (auto simp: tlv_switch_def tlv_long_length_def Let_def bind_eq_Some_conv tlv_tagged_Inl split: if_splits)

lemma tlv_headers_prefix: "(\<exists>h\<in>set hs. take (length h) m = h) \<longleftrightarrow> (\<exists>h r. h \<in> set hs \<and> m = h @ r)"
  by (metis append_eq_conv_conj append_take_drop_id)

lemma gpc_tlv_get_tag_iff:
  "gpc_tlv_get_tag m remain tag len = Some (0, t, n)
    \<longleftrightarrow> len \<le> word_of_int remain \<and> (\<exists>h r. h \<in> set (tlv_headers t n) \<and> m = h @ r)"
proof -
  have "tlv_switch m = Some (Inr (t, n)) \<longleftrightarrow> (\<exists>h r. h \<in> set (tlv_headers t n) \<and> m = h @ r)"
    using tlv_switch_sound[of m t n] tlv_switch_complete[of _ t n] unfolding tlv_headers_prefix by auto
  moreover have "gpc_tlv_get_tag m remain tag len = Some (0, t, n)
      \<longleftrightarrow> len \<le> word_of_int remain \<and> tlv_switch m = Some (Inr (t, n))"
  proof (cases "tlv_switch m")
    case (Some r)
    then show ?thesis
      using tlv_switch_error[of m]
      by (cases r) (auto simp: gpc_tlv_get_tag_def GPC_SCP11_ERR_TLV_OUT_OF_DATA_def not_less split: if_splits)
  qed (simp add: gpc_tlv_get_tag_def)
  ultimately show ?thesis by simp
qed

lemma gpc_tlv_get_tag_errors:
  assumes "5 \<le> length m"
  shows "\<exists>ret t n. gpc_tlv_get_tag m remain tag len = Some (ret, t, n)
    \<and> (ret = 0 \<or> ret = GPC_SCP11_ERR_TLV_OUT_OF_DATA \<and> n = len)"
proof -
  obtain r where r: "tlv_switch m = Some r" using tlv_switch_total[OF assms] by auto
  then show ?thesis
    using tlv_switch_error[of m] by (cases r) (auto simp: gpc_tlv_get_tag_def)
qed

end
