(* ===== verification/Blocks.thy ===== *)
theory Blocks
  imports Prelude
begin

text \<open>
  Encoders that cut their input into blocks: full blocks of \<open>n\<close> symbols become \<open>m\<close> symbols,
  and a shorter last block becomes a shorter last group. \<open>base32.c\<close> and \<open>monero/base58.c\<close>
  both have this shape: one loop over the full blocks, then the remainder if there is one.

  The locale \<open>block_codec\<close> states what such a pair of block functions promises; inside, the
  two loops are inverse. The interpretations stand with the two codecs.
\<close>

definition encode_blocks :: "('a list \<Rightarrow> 'b list) \<Rightarrow> nat \<Rightarrow> 'a list \<Rightarrow> 'b list" where
  "encode_blocks enc n xs =
     (let k = length xs div n;
          out = for_up 0 k (\<lambda>i out. out @ enc (take n (drop (i * n) xs))) []
      in if 0 < length xs mod n then out @ enc (drop (k * n) xs) else out)"

definition decode_blocks :: "('b list \<Rightarrow> 'a list option) \<Rightarrow> nat \<Rightarrow> 'b list \<Rightarrow> 'a list option" where
  "decode_blocks dec m ys =
     (let k = length ys div m;
          st = for_up 0 k (\<lambda>i st. case st of None \<Rightarrow> None
                 | Some out \<Rightarrow> (case dec (take m (drop (i * m) ys)) of None \<Rightarrow> None | Some b \<Rightarrow> Some (out @ b)))
               (Some [])
      in case st of None \<Rightarrow> None
         | Some out \<Rightarrow> if 0 < length ys mod m
             then (case dec (drop (k * m) ys) of None \<Rightarrow> None | Some b \<Rightarrow> Some (out @ b))
             else Some out)"

lemma for_up_concat: "for_up 0 k (\<lambda>i out. out @ f i) [] = concat (map f [0..<k])"
  by (induction k) (simp_all add: for_up_last)

lemma for_up_concat_option:
  "for_up 0 k (\<lambda>i st. case st of None \<Rightarrow> None
      | Some out \<Rightarrow> (case g i of None \<Rightarrow> None | Some b \<Rightarrow> Some (out @ b))) (Some [])
    = (if \<exists>i<k. g i = None then None else Some (concat (map (\<lambda>i. the (g i)) [0..<k])))"
proof (induction k)
  case (Suc k)
  show ?case
    unfolding for_up_last[OF le0] Suc.IH by (auto simp: less_Suc_eq split: option.splits)
qed simp

lemma length_concat_uniform: "(\<And>i. i < k \<Longrightarrow> length (f i) = m) \<Longrightarrow> length (concat (map f [0..<k])) = k * m"
  by (induction k) simp_all

lemma take_drop_concat:
  assumes "\<And>i. i < k \<Longrightarrow> length (f i) = m" and "i < k"
  shows "take m (drop (i * m) (concat (map f [0..<k]) @ rest)) = f i"
  using assms
proof (induction k arbitrary: rest)
  case (Suc k)
  have len: "length (concat (map f [0..<k])) = k * m"
    using Suc.prems(1) by (intro length_concat_uniform) simp
  show ?case
  proof (cases "i < k")
    case True
    then show ?thesis using Suc.IH[of "f k @ rest"] Suc.prems by simp
  next
    case False
    then have "i = k" using Suc.prems by simp
    then show ?thesis using len Suc.prems(1)[of k] by simp
  qed
qed simp

lemma drop_concat: "(\<And>i. i < k \<Longrightarrow> length (f i) = m) \<Longrightarrow> drop (k * m) (concat (map f [0..<k]) @ rest) = rest"
  by (simp add: length_concat_uniform)

lemma concat_chunks: "k * n \<le> length xs \<Longrightarrow> concat (map (\<lambda>i. take n (drop (i * n) xs)) [0..<k]) = take (k * n) xs"
proof (induction k)
  case (Suc k)
  then show ?case by (simp add: take_add[symmetric] add.commute)
qed simp

lemma tail_length: "length (drop (length xs div n * n) xs) = length xs mod n"
  by (simp add: minus_div_mult_eq_mod)

lemma chunk_length: "i < length xs div m \<Longrightarrow> length (take m (drop (i * m) xs)) = m"
proof -
  assume "i < length xs div m"
  then have "(i + 1) * m \<le> length xs div m * m" by (intro mult_right_mono) simp_all
  then have "(i + 1) * m \<le> length xs" by (meson div_times_less_eq_dividend order_trans)
  then show ?thesis by simp
qed

locale block_codec =
  fixes enc :: "'a list \<Rightarrow> 'b list" and dec :: "'b list \<Rightarrow> 'a list option"
    and n m :: nat and elen :: "nat \<Rightarrow> nat"
  assumes n_pos: "0 < n" and elen_full: "elen n = m" and m_pos: "0 < m"
    and elen_part: "0 < r \<Longrightarrow> r < n \<Longrightarrow> 0 < elen r \<and> elen r < m"
    and enc_length: "b \<noteq> [] \<Longrightarrow> length b \<le> n \<Longrightarrow> length (enc b) = elen (length b)"
    and dec_enc: "b \<noteq> [] \<Longrightarrow> length b \<le> n \<Longrightarrow> dec (enc b) = Some b"
begin

lemma encode_blocks_eq:
  "encode_blocks enc n xs = concat (map (\<lambda>i. enc (take n (drop (i * n) xs))) [0..<length xs div n])
     @ (if 0 < length xs mod n then enc (drop (length xs div n * n) xs) else [])"
  by (simp add: encode_blocks_def for_up_concat Let_def)

lemma enc_chunk: "i < length xs div n \<Longrightarrow> length (enc (take n (drop (i * n) xs))) = m"
  using chunk_length[of i xs n] n_pos by (subst enc_length) (auto simp: elen_full)

lemma encode_blocks_length:
  "length (encode_blocks enc n xs) = length xs div n * m + (if 0 < length xs mod n then elen (length xs mod n) else 0)"
proof -
  have "length (enc (drop (length xs div n * n) xs)) = elen (length xs mod n)" if "0 < length xs mod n"
    using that n_pos tail_length[of xs n] mod_less_divisor[OF n_pos, of "length xs"]
    by (subst enc_length) (auto simp del: length_drop)
  then show ?thesis
    unfolding encode_blocks_eq length_append by (simp add: length_concat_uniform enc_chunk)
qed

text \<open>The groups of the encoder's output, found where the decoder looks for them.\<close>

lemma encoded_sizes:
  shows "length (encode_blocks enc n xs) div m = length xs div n"
    and "length (encode_blocks enc n xs) mod m = (if 0 < length xs mod n then elen (length xs mod n) else 0)"
    and "0 < length (encode_blocks enc n xs) mod m \<longleftrightarrow> 0 < length xs mod n"
proof -
  let ?t = "if 0 < length xs mod n then elen (length xs mod n) else 0"
  have t: "?t < m" "0 < ?t \<longleftrightarrow> 0 < length xs mod n"
    using m_pos elen_part[of "length xs mod n"] mod_less_divisor[OF n_pos, of "length xs"] by auto
  then show "length (encode_blocks enc n xs) div m = length xs div n"
    and "length (encode_blocks enc n xs) mod m = ?t"
    and "0 < length (encode_blocks enc n xs) mod m \<longleftrightarrow> 0 < length xs mod n"
    unfolding encode_blocks_length by simp_all
qed

lemma encoded_chunk:
  "i < length xs div n \<Longrightarrow> take m (drop (i * m) (encode_blocks enc n xs)) = enc (take n (drop (i * n) xs))"
  unfolding encode_blocks_eq by (rule take_drop_concat) (auto intro: enc_chunk)

lemma encoded_tail:
  "drop (length xs div n * m) (encode_blocks enc n xs) = (if 0 < length xs mod n then enc (drop (length xs div n * n) xs) else [])"
  unfolding encode_blocks_eq by (rule drop_concat) (rule enc_chunk)

lemma dec_chunk: "i < length xs div n \<Longrightarrow> dec (enc (take n (drop (i * n) xs))) = Some (take n (drop (i * n) xs))"
  using chunk_length[of i xs n] n_pos by (intro dec_enc) auto

lemma dec_tail: "0 < length xs mod n \<Longrightarrow> dec (enc (drop (length xs div n * n) xs)) = Some (drop (length xs div n * n) xs)"
  using tail_length[of xs n] mod_less_divisor[OF n_pos, of "length xs"]
  by (intro dec_enc) (auto simp del: length_drop)

lemma full_chunks: "concat (map (\<lambda>i. take n (drop (i * n) xs)) [0..<length xs div n]) = take (length xs div n * n) xs"
  by (rule concat_chunks) simp

lemma decode_encode: "decode_blocks dec m (encode_blocks enc n xs) = Some xs"
proof -
  let ?k = "length xs div n" and ?ys = "encode_blocks enc n xs"
  have chunk: "dec (take m (drop (i * m) ?ys)) = Some (take n (drop (i * n) xs))" if "i < ?k" for i
    unfolding encoded_chunk[OF that] by (rule dec_chunk[OF that])
  have full: "concat (map (\<lambda>i. the (dec (take m (drop (i * m) ?ys)))) [0..<?k]) = take (?k * n) xs"
    unfolding full_chunks[symmetric] using chunk by (auto intro!: arg_cong[where f = concat])
  show ?thesis
    unfolding decode_blocks_def Let_def encoded_sizes(1,3) for_up_concat_option full encoded_tail
    using chunk dec_tail by (auto simp: not_less minus_mod_eq_div_mult[symmetric] split: option.splits)
qed

end

end
