(* ===== verification/Base32.thy ===== *)
theory Base32
  imports Blocks
begin

text \<open>
  The base32 codec of \<open>trezor-crypto/src/base32.c\<close>.

  A block of five bytes is eight 5-bit values; a shorter last block of \<open>1..4\<close> bytes is
  \<open>2, 4, 5, 7\<close> values. The C functions fill the output from its start, so the model returns
  the bytes written; the capacity checks of the entry points are kept. An alphabet is either
  the constant \<open>BASE32_ALPHABET_RFC4648\<close>, which the code recognises by its address, or the
  bytes of another string. \<open>NULL\<close> and \<open>false\<close> results are \<open>None\<close>, and \<open>-1\<close> is kept as an int.
\<close>

unbundle bit_operations_syntax

section \<open>Operations\<close>

datatype base32_alphabet = BASE32_ALPHABET_RFC4648 | Alphabet "u8 list"

definition base32_encoded_length :: "nat \<Rightarrow> nat" where
  "base32_encoded_length inlen = (let remainder = inlen mod 5 in (inlen div 5) * 8 + (remainder * 8 + 4) div 5)"

definition base32_decoded_length :: "nat \<Rightarrow> nat" where
  "base32_decoded_length inlen = (let remainder = inlen mod 8 in (inlen div 8) * 5 + (remainder * 5) div 8)"

definition base32_5to8 :: "u8 list \<Rightarrow> nat \<Rightarrow> u8 list" where
  "base32_5to8 inb len =
     (let out = [];
          out = (if 1 \<le> len then [drop_bit 3 (inb ! 0), push_bit 2 (inb ! 0 AND 7)] else out);
          out = (if 2 \<le> len then out[1 := out ! 1 OR drop_bit 6 (inb ! 1)]
                   @ [drop_bit 1 (inb ! 1) AND 31, push_bit 4 (inb ! 1 AND 1)] else out);
          out = (if 3 \<le> len then out[3 := out ! 3 OR drop_bit 4 (inb ! 2)]
                   @ [push_bit 1 (inb ! 2 AND 15)] else out);
          out = (if 4 \<le> len then out[4 := out ! 4 OR drop_bit 7 (inb ! 3)]
                   @ [drop_bit 2 (inb ! 3) AND 31, push_bit 3 (inb ! 3 AND 3)] else out)
      in if 5 \<le> len then out[6 := out ! 6 OR drop_bit 5 (inb ! 4)] @ [inb ! 4 AND 31] else out)"

definition base32_8to5_raw :: "u8 list \<Rightarrow> nat \<Rightarrow> u8 list" where
  "base32_8to5_raw inb len =
     (let out = [];
          out = (if 2 \<le> len then [push_bit 3 (inb ! 0) OR drop_bit 2 (inb ! 1)] else out);
          out = (if 4 \<le> len then out @ [push_bit 6 (inb ! 1 AND 3) OR push_bit 1 (inb ! 2) OR drop_bit 4 (inb ! 3)] else out);
          out = (if 5 \<le> len then out @ [push_bit 4 (inb ! 3 AND 15) OR drop_bit 1 (inb ! 4)] else out);
          out = (if 7 \<le> len then out @ [push_bit 7 (inb ! 4 AND 1) OR push_bit 2 (inb ! 5) OR drop_bit 3 (inb ! 6)] else out)
      in if 8 \<le> len then out @ [push_bit 5 (inb ! 6 AND 7) OR (inb ! 7 AND 31)] else out)"

text \<open>A \<open>char\<close> of the alphabet becomes an \<open>int\<close> with its sign.\<close>

definition base32_encode_character :: "u8 \<Rightarrow> base32_alphabet \<Rightarrow> int" where
  "base32_encode_character decoded alphabet =
     (if drop_bit 5 decoded \<noteq> 0 then - 1
      else (case alphabet of
        BASE32_ALPHABET_RFC4648 \<Rightarrow> if decoded < 26 then 65 + uint decoded else 50 - 26 + uint decoded
      | Alphabet cs \<Rightarrow> sint (cs ! unat decoded)))"

text \<open>\<open>strchr\<close> also finds the terminating NUL, at index \<open>strlen\<close>.\<close>

fun strchr_index :: "u8 list \<Rightarrow> u8 \<Rightarrow> nat option" where
  "strchr_index [] c = (if c = 0 then Some 0 else None)"
| "strchr_index (x # cs) c = (if x = c then Some 0 else map_option Suc (strchr_index cs c))"

definition base32_decode_character :: "u8 \<Rightarrow> base32_alphabet \<Rightarrow> int" where
  "base32_decode_character encoded alphabet =
     (case alphabet of
        BASE32_ALPHABET_RFC4648 \<Rightarrow>
          (if 65 \<le> sint encoded \<and> sint encoded \<le> 90 then sint encoded - 65
           else if 97 \<le> sint encoded \<and> sint encoded \<le> 122 then sint encoded - 97
           else if 50 \<le> sint encoded \<and> sint encoded \<le> 55 then sint encoded - 50 + 26
           else - 1)
      | Alphabet cs \<Rightarrow> (case strchr_index cs encoded of Some i \<Rightarrow> int i | None \<Rightarrow> - 1))"

definition base32_8to5 :: "u8 list \<Rightarrow> nat \<Rightarrow> base32_alphabet option \<Rightarrow> u8 list option" where
  "base32_8to5 inb len alphabet =
     (if len = 1 \<or> len = 3 \<or> len = 6 \<or> 8 < len then None
      else (case alphabet of
        None \<Rightarrow> Some (base32_8to5_raw inb len)
      | Some a \<Rightarrow>
          (let decoded = for_up 0 len (\<lambda>i st. case st of None \<Rightarrow> None
                 | Some d \<Rightarrow> (let ret = base32_decode_character (inb ! i) a in
                     if ret = - 1 then None else Some (d @ [word_of_int ret :: u8]))) (Some [])
           in map_option (\<lambda>d. base32_8to5_raw d len) decoded)))"

definition base32_encode_unsafe :: "u8 list \<Rightarrow> u8 list" where
  "base32_encode_unsafe inb =
     (let remainder = length inb mod 5; limit = length inb - remainder;
          out = for_up 0 (limit div 5) (\<lambda>k out. out @ base32_5to8 (drop (5 * k) inb) 5) []
      in if remainder \<noteq> 0 then out @ base32_5to8 (drop limit inb) remainder else out)"

definition base32_decode_unsafe :: "u8 list \<Rightarrow> base32_alphabet option \<Rightarrow> u8 list option" where
  "base32_decode_unsafe inb alphabet =
     (let remainder = length inb mod 8; limit = length inb - remainder;
          st = for_up 0 (limit div 8) (\<lambda>k st. case st of None \<Rightarrow> None
                 | Some out \<Rightarrow> map_option (\<lambda>b. out @ b) (base32_8to5 (drop (8 * k) inb) 8 alphabet)) (Some [])
      in case st of None \<Rightarrow> None
         | Some out \<Rightarrow> if remainder \<noteq> 0
             then map_option (\<lambda>b. out @ b) (base32_8to5 (drop limit inb) remainder alphabet)
             else Some out)"

definition base32_encode :: "u8 list \<Rightarrow> nat \<Rightarrow> base32_alphabet \<Rightarrow> u8 list option" where
  "base32_encode inb outlen alphabet =
     (let len = base32_encoded_length (length inb) in
      if outlen \<le> len then None
      else (let out = base32_encode_unsafe inb in
        map_option (\<lambda>out. out @ [0])
          (for_up 0 len (\<lambda>i st. case st of None \<Rightarrow> None
             | Some out \<Rightarrow> (let ret = base32_encode_character (out ! i) alphabet in
                 if ret = - 1 then None else Some (out[i := word_of_int ret]))) (Some out))))"

definition base32_decode :: "u8 list \<Rightarrow> nat \<Rightarrow> base32_alphabet option \<Rightarrow> u8 list option" where
  "base32_decode inb outlen alphabet =
     (let len = base32_decoded_length (length inb) in
      if outlen < len then None else base32_decode_unsafe inb alphabet)"

section \<open>A block and its eight values\<close>

lemma bit_less_8: "i < 8 \<longleftrightarrow> i = 0 \<or> i = 1 \<or> i = 2 \<or> i = 3 \<or> i = 4 \<or> i = 5 \<or> i = 6 \<or> i = (7::nat)"
  by auto

lemma u8_eqI: "(\<And>i. i < 8 \<Longrightarrow> bit x i = bit y i) \<Longrightarrow> x = y" for x y :: u8
  by (rule bit_word_eqI) simp

lemma length_le_5_cases:
  assumes "xs \<noteq> []" "length xs \<le> 5"
  obtains a where "xs = [a]" | a b where "xs = [a, b]" | a b c where "xs = [a, b, c]"
    | a b c d where "xs = [a, b, c, d]" | a b c d e where "xs = [a, b, c, d, e]"
  using assms by (cases xs; cases "tl xs"; cases "tl (tl xs)"; cases "tl (tl (tl xs))"; cases "tl (tl (tl (tl xs)))"; auto)

lemma base32_5to8_length: "xs \<noteq> [] \<Longrightarrow> length xs \<le> 5 \<Longrightarrow> length (base32_5to8 xs (length xs)) = (length xs * 8 + 4) div 5"
  by (erule length_le_5_cases) (simp_all add: base32_5to8_def)

lemma base32_5to8_lt32: "xs \<noteq> [] \<Longrightarrow> length xs \<le> 5 \<Longrightarrow> \<forall>q\<in>set (base32_5to8 xs (length xs)). drop_bit 5 q = 0"
  by (erule length_le_5_cases)
    (auto simp: base32_5to8_def Let_def bit_simps bit_less_8 intro!: u8_eqI)

lemma base32_8to5_raw_5to8:
  "xs \<noteq> [] \<Longrightarrow> length xs \<le> 5 \<Longrightarrow> base32_8to5_raw (base32_5to8 xs (length xs)) ((length xs * 8 + 4) div 5) = xs"
  by (erule length_le_5_cases)
    (auto simp: base32_5to8_def base32_8to5_raw_def Let_def bit_simps bit_less_8 intro!: u8_eqI
      simp del: push_bit_Suc simp flip: numeral_2_eq_2)

lemma base32_8to5_raw_take: "base32_8to5_raw (take len xs) len = base32_8to5_raw xs len"
  by (simp add: base32_8to5_raw_def Let_def)

lemma base32_5to8_take: "base32_5to8 (take len xs) len = base32_5to8 xs len"
  by (simp add: base32_5to8_def Let_def)

lemma le_5_cases: "0 < n \<Longrightarrow> n \<le> 5 \<Longrightarrow> n = 1 \<or> n = 2 \<or> n = 3 \<or> n = 4 \<or> n = (5::nat)"
  by auto

interpretation base32_raw: block_codec "\<lambda>b. base32_5to8 b (length b)" "\<lambda>b. base32_8to5 b (length b) None" 5 8 "\<lambda>r. (r * 8 + 4) div 5"
proof unfold_locales
  fix b :: "u8 list" assume b: "b \<noteq> []" "length b \<le> 5"
  then show "length (base32_5to8 b (length b)) = (length b * 8 + 4) div 5" by (rule base32_5to8_length)
  show "base32_8to5 (base32_5to8 b (length b)) (length (base32_5to8 b (length b))) None = Some b"
    unfolding base32_5to8_length[OF b] base32_8to5_def base32_8to5_raw_5to8[OF b]
    using le_5_cases[of "length b"] b by auto
qed auto

text \<open>The two loops of the code are the two loops of the interface.\<close>

lemma minus_mod_div: "(n - n mod k) div k = n div k" "n - n mod k = n div k * (k :: nat)"
  by (simp_all add: minus_mod_eq_div_mult)

lemma base32_encode_unsafe_blocks: "base32_encode_unsafe xs = encode_blocks (\<lambda>b. base32_5to8 b (length b)) 5 xs"
proof -
  have "for_up 0 (length xs div 5) (\<lambda>k out. out @ base32_5to8 (drop (5 * k) xs) 5) []
      = for_up 0 (length xs div 5) (\<lambda>i out. out @ base32_5to8 (take 5 (drop (i * 5) xs)) (length (take 5 (drop (i * 5) xs)))) []"
    by (rule for_up_cong) (simp add: chunk_length base32_5to8_take mult.commute del: length_take length_drop)
  then show ?thesis
    by (simp add: base32_encode_unsafe_def encode_blocks_def minus_mod_div minus_div_mult_eq_mod Let_def)
qed

lemma base32_encode_unsafe_length: "length (base32_encode_unsafe xs) = base32_encoded_length (length xs)"
  unfolding base32_encode_unsafe_blocks base32_raw.encode_blocks_length by (auto simp: base32_encoded_length_def Let_def)

lemma base32_decode_unsafe_blocks:
  "base32_decode_unsafe xs None = decode_blocks (\<lambda>b. base32_8to5 b (length b) None) 8 xs"
proof -
  have eight: "(8 :: nat) \<noteq> 0" by simp
  have "base32_8to5 (drop (8 * k) xs) 8 None
      = base32_8to5 (take 8 (drop (k * 8) xs)) (length (take 8 (drop (k * 8) xs))) None" if "k < length xs div 8" for k
    unfolding chunk_length[OF that] by (simp add: base32_8to5_def base32_8to5_raw_take mult.commute)
  then have loop: "for_up 0 (length xs div 8) (\<lambda>k st. case st of None \<Rightarrow> None
       | Some out \<Rightarrow> map_option (\<lambda>b. out @ b) (base32_8to5 (drop (8 * k) xs) 8 None)) (Some [])
     = for_up 0 (length xs div 8) (\<lambda>i st. case st of None \<Rightarrow> None
       | Some out \<Rightarrow> (case base32_8to5 (take 8 (drop (i * 8) xs)) (length (take 8 (drop (i * 8) xs))) None
            of None \<Rightarrow> None | Some b \<Rightarrow> Some (out @ b))) (Some [])"
    by (intro for_up_cong) (auto split: option.splits)
  show ?thesis
    unfolding base32_decode_unsafe_def decode_blocks_def Let_def minus_mod_div length_drop minus_div_mult_eq_mod
      map_option_case neq0_conv nonzero_mult_div_cancel_right[OF eight] loop[unfolded map_option_case]
    by (rule refl)
qed

section \<open>Characters\<close>

fun alphabet_ok :: "base32_alphabet \<Rightarrow> bool" where
  "alphabet_ok BASE32_ALPHABET_RFC4648 \<longleftrightarrow> True"
| "alphabet_ok (Alphabet cs) \<longleftrightarrow> 32 \<le> length cs \<and> distinct cs \<and> 0 \<notin> set cs \<and> 0xFF \<notin> set cs"

lemma strchr_index_nth: "distinct cs \<Longrightarrow> i < length cs \<Longrightarrow> strchr_index cs (cs ! i) = Some i"
proof (induction cs arbitrary: i)
  case (Cons x cs)
  then show ?case by (cases i) auto
qed simp

lemma sint_neg1_u8: "sint (c :: u8) = - 1 \<longleftrightarrow> c = 0xFF"
proof
  assume "sint c = - 1"
  then have "word_of_int (sint c) = (- 1 :: u8)" by simp
  then show "c = 0xFF" by simp
qed simp

lemma uint_not_neg: "numeral n + uint q \<noteq> 0"
  using uint_nonnegative[of q] zero_less_numeral[of n, where ?'a = int] by linarith

lemma base32_character_inverse:
  assumes q: "drop_bit 5 q = 0" and a: "alphabet_ok a"
  shows "base32_encode_character q a \<noteq> - 1"
    and "base32_decode_character (word_of_int (base32_encode_character q a)) a = uint q"
proof -
  have "uint q div 2 ^ 5 = 0" using uint_drop_bit[of 5 q] q by simp
  then have q32: "uint q < 32" by (simp add: div_eq_0_iff)
  have "base32_encode_character q a \<noteq> - 1
    \<and> base32_decode_character (word_of_int (base32_encode_character q a)) a = uint q"
  proof (cases a)
    case BASE32_ALPHABET_RFC4648
    then show ?thesis
      using q q32 sint_small_u8[of "65 + uint q"] sint_small_u8[of "24 + uint q"]
      by (auto simp: base32_encode_character_def base32_decode_character_def word_less_def uint_not_neg)
  next
    case (Alphabet cs)
    have i: "unat q < length cs" using q32 a Alphabet nat_less_iff[of "uint q" 32] by simp
    then have "cs ! unat q \<noteq> 0xFF" using a Alphabet by (auto simp: in_set_conv_nth)
    then show ?thesis
      using q a i Alphabet
      by (simp add: base32_encode_character_def base32_decode_character_def strchr_index_nth sint_neg1_u8)
  qed
  then show "base32_encode_character q a \<noteq> - 1"
    and "base32_decode_character (word_of_int (base32_encode_character q a)) a = uint q" by simp_all
qed

lemma encode_characters_loop:
  "n \<le> length out \<Longrightarrow> for_up 0 n (\<lambda>i st. case st of None \<Rightarrow> None
       | Some out \<Rightarrow> (let ret = f (out ! i) in if ret = - 1 then None else Some (out[i := word_of_int ret]))) (Some out)
    = (if \<exists>i<n. f (out ! i) = (- 1 :: int) then None else Some (map (\<lambda>x. word_of_int (f x)) (take n out) @ drop n out))"
proof (induction n)
  case (Suc n)
  have d: "drop n out = out ! n # drop (Suc n) out" using Suc.prems by (intro drop_eq_Cons) simp
  show ?case
    unfolding for_up_last[OF le0] Suc.IH[OF Suc_leD[OF Suc.prems]]
    using Suc.prems d by (auto simp: less_Suc_eq nth_append take_Suc_conv_app_nth list_update_append)
qed simp

lemma decode_characters_loop:
  "for_up 0 n (\<lambda>i st. case st of None \<Rightarrow> None
       | Some d \<Rightarrow> (let ret = g (xs ! i) in if ret = - 1 then None else Some (d @ [word_of_int ret :: u8]))) (Some [])
    = (if \<exists>i<n. g (xs ! i) = (- 1 :: int) then None else Some (map (\<lambda>i. word_of_int (g (xs ! i))) [0..<n]))"
proof (induction n)
  case (Suc n)
  show ?case unfolding for_up_last[OF le0] Suc.IH by (auto simp: less_Suc_eq)
qed simp

lemma base32_8to5_alphabet:
  "base32_8to5 xs len (Some a) = (if (len = 1 \<or> len = 3 \<or> len = 6 \<or> 8 < len) \<or> (\<exists>i<len. base32_decode_character (xs ! i) a = - 1)
     then None else base32_8to5 (map (\<lambda>i. word_of_int (base32_decode_character (xs ! i) a)) [0..<len]) len None)"
  using decode_characters_loop[where g = "\<lambda>c. base32_decode_character c a" and xs = xs and n = len]
  by (simp add: base32_8to5_def)

lemma base32_8to5_prefix: "(\<And>i. i < len \<Longrightarrow> xs ! i = ys ! i) \<Longrightarrow> base32_8to5 xs len None = base32_8to5 ys len None"
  by (simp add: base32_8to5_def base32_8to5_raw_def Let_def)

text \<open>Decoding characters the encoder wrote is decoding their values.\<close>

lemma base32_8to5_encoded:
  assumes a: "alphabet_ok a" and q: "\<And>i. i < len \<Longrightarrow> i < length xs \<and> drop_bit 5 (xs ! i) = 0"
  shows "base32_8to5 (map (\<lambda>x. word_of_int (base32_encode_character x a)) xs) len (Some a) = base32_8to5 xs len None"
proof -
  let ?e = "\<lambda>x. word_of_int (base32_encode_character x a) :: u8"
  have dec: "base32_decode_character (map ?e xs ! i) a = uint (xs ! i)" if "i < len" for i
    using q[OF that] base32_character_inverse(2)[OF _ a] by simp
  have "\<not> (\<exists>i<len. base32_decode_character (map ?e xs ! i) a = - 1)"
    using dec uint_nonnegative by (metis neg_0_le_iff_le not_one_le_zero)
  moreover have "base32_8to5 (map (\<lambda>i. word_of_int (base32_decode_character (map ?e xs ! i) a)) [0..<len]) len None
      = base32_8to5 xs len None"
    by (rule base32_8to5_prefix) (simp add: dec)
  ultimately show ?thesis
    unfolding base32_8to5_alphabet by (auto simp: base32_8to5_def)
qed

section \<open>The entry points\<close>

lemma encode_blocks_all:
  assumes "\<And>b. b \<noteq> [] \<Longrightarrow> length b \<le> n \<Longrightarrow> \<forall>y\<in>set (enc b). P y" and n: "0 < n"
  shows "\<forall>y\<in>set (encode_blocks enc n xs). P y"
proof -
  have "\<forall>y\<in>set (enc (take n (drop (i * n) xs))). P y" if "i < length xs div n" for i
    using chunk_length[OF that] n by (intro assms(1)) auto
  moreover have "\<forall>y\<in>set (enc (drop (length xs div n * n) xs)). P y" if "0 < length xs mod n"
    using that mod_less_divisor[OF n, of "length xs"] tail_length[of xs n]
    by (intro assms(1)) (auto simp del: length_drop)
  ultimately show ?thesis by (auto simp: encode_blocks_def Let_def for_up_concat)
qed

lemma base32_encode_unsafe_values: "\<forall>q\<in>set (base32_encode_unsafe xs). drop_bit 5 q = 0"
  unfolding base32_encode_unsafe_blocks by (rule encode_blocks_all) (simp_all add: base32_5to8_lt32)

text \<open>The encoder on every branch: it fails only when the buffer is too small.\<close>

lemma base32_encode_correct:
  assumes a: "alphabet_ok a"
  shows "base32_encode xs outlen a =
    (if outlen \<le> base32_encoded_length (length xs) then None
     else Some (map (\<lambda>q. word_of_int (base32_encode_character q a)) (base32_encode_unsafe xs) @ [0]))"
proof -
  have "\<not> (\<exists>i<length (base32_encode_unsafe xs). base32_encode_character (base32_encode_unsafe xs ! i) a = - 1)"
    using base32_encode_unsafe_values[of xs] base32_character_inverse(1)[OF _ a] by auto
  then show ?thesis
    using encode_characters_loop[where f = "\<lambda>q. base32_encode_character q a" and out = "base32_encode_unsafe xs"
        and n = "base32_encoded_length (length xs)"]
    by (auto simp: base32_encode_def base32_encode_unsafe_length Let_def)
qed

lemma base32_decode_unsafe_encoded:
  assumes a: "alphabet_ok a" and q: "\<forall>q\<in>set qs. drop_bit 5 q = 0"
  shows "base32_decode_unsafe (map (\<lambda>q. word_of_int (base32_encode_character q a)) qs) (Some a) = base32_decode_unsafe qs None"
proof -
  let ?e = "\<lambda>q. word_of_int (base32_encode_character q a) :: u8"
  have part: "base32_8to5 (drop k (map ?e qs)) len (Some a) = base32_8to5 (drop k qs) len None" if "k + len \<le> length qs" for k len
    unfolding drop_map using that q by (intro base32_8to5_encoded[OF a]) auto
  have k: "8 * i + 8 \<le> length qs" if "i < length qs div 8" for i
    using that by linarith
  have loop: "for_up 0 (length qs div 8) (\<lambda>k st. case st of None \<Rightarrow> None
       | Some out \<Rightarrow> map_option (\<lambda>b. out @ b) (base32_8to5 (drop (8 * k) (map ?e qs)) 8 (Some a))) (Some [])
     = for_up 0 (length qs div 8) (\<lambda>k st. case st of None \<Rightarrow> None
       | Some out \<Rightarrow> map_option (\<lambda>b. out @ b) (base32_8to5 (drop (8 * k) qs) 8 None)) (Some [])"
    by (rule for_up_cong) (simp only: part[OF k])
  have last: "base32_8to5 (drop (length qs - length qs mod 8) (map ?e qs)) (length qs mod 8) (Some a)
      = base32_8to5 (drop (length qs - length qs mod 8) qs) (length qs mod 8) None"
    by (rule part) simp
  show ?thesis
    unfolding base32_decode_unsafe_def Let_def length_map minus_mod_div(1) loop last by (rule refl)
qed

lemma base32_lengths_inverse: "base32_decoded_length (base32_encoded_length n) = n"
proof -
  define k r where "k = n div 5" and "r = n mod 5"
  have n: "n = 5 * k + r" and "r < 5" by (simp_all add: k_def r_def)
  then have "r = 0 \<or> r = 1 \<or> r = 2 \<or> r = 3 \<or> r = 4" by auto
  then have c: "(r * 8 + 4) div 5 < 8" "(r * 8 + 4) div 5 * 5 div 8 = r" by auto
  have "base32_encoded_length n = k * 8 + (r * 8 + 4) div 5"
    using \<open>r < 5\<close> by (simp add: n base32_encoded_length_def)
  then show ?thesis
    using c by (simp add: n base32_decoded_length_def)
qed

lemma base32_decode_encode:
  assumes a: "alphabet_ok a" and e: "base32_encode xs outlen a = Some (ys @ [0])" and n: "length xs \<le> outlen2"
  shows "base32_decode ys outlen2 (Some a) = Some xs"
proof -
  have ys: "ys = map (\<lambda>q. word_of_int (base32_encode_character q a)) (base32_encode_unsafe xs)"
    using e unfolding base32_encode_correct[OF a] by (simp split: if_splits)
  have "base32_decoded_length (base32_encoded_length (length xs)) = length xs"
    by (rule base32_lengths_inverse)
  then have "base32_decode ys outlen2 (Some a) = base32_decode_unsafe ys (Some a)"
    using n by (simp add: base32_decode_def ys base32_encode_unsafe_length)
  also have "\<dots> = base32_decode_unsafe (base32_encode_unsafe xs) None"
    unfolding ys by (rule base32_decode_unsafe_encoded[OF a base32_encode_unsafe_values])
  also have "\<dots> = Some xs"
    unfolding base32_decode_unsafe_blocks base32_encode_unsafe_blocks by (rule base32_raw.decode_encode)
  finally show ?thesis .
qed

end
