(* ===== verification/Radix.thy ===== *)
theory Radix
  imports Prelude
begin

text \<open>
  Digit strings in a base, most significant digit first: the values that \<open>base58.c\<close> keeps in
  its byte and word arrays. Byte strings are the base \<open>256\<close> case.
\<close>

definition digits_val :: "int \<Rightarrow> int list \<Rightarrow> int" where
  "digits_val r ds = foldl (\<lambda>a d. r * a + d) 0 ds"

lemma digits_val_Nil [simp]: "digits_val r [] = 0"
  by (simp add: digits_val_def)

lemma digits_val_snoc [simp]: "digits_val r (ds @ [d]) = r * digits_val r ds + d"
  by (simp add: digits_val_def)

lemma digits_val_append: "digits_val r (xs @ ys) = digits_val r xs * r ^ length ys + digits_val r ys"
  by (induction ys rule: rev_induct) (simp_all add: append_assoc[symmetric] algebra_simps del: append_assoc)

lemma digits_val_Cons: "digits_val r (d # ds) = d * r ^ length ds + digits_val r ds"
  using digits_val_append[of r "[d]" ds] digits_val_snoc[of r "[]" d] by simp

lemma digits_val_replicate_0 [simp]: "digits_val r (replicate n 0) = 0"
  by (induction n) (simp_all add: digits_val_Cons)

lemma be_val_digits: "be_val bs = digits_val 256 (map uint bs)"
  by (simp add: be_val_def digits_val_def foldl_map)

definition digits_ok :: "int \<Rightarrow> int list \<Rightarrow> bool" where
  "digits_ok r ds \<longleftrightarrow> (\<forall>d\<in>set ds. 0 \<le> d \<and> d < r)"

lemma digits_ok_simps [simp]: "digits_ok r []" "digits_ok r (d # ds) \<longleftrightarrow> 0 \<le> d \<and> d < r \<and> digits_ok r ds"
    "digits_ok r (xs @ ys) \<longleftrightarrow> digits_ok r xs \<and> digits_ok r ys"
  by (auto simp: digits_ok_def)

lemma digits_val_nonneg: "digits_ok r ds \<Longrightarrow> 0 \<le> digits_val r ds"
  by (induction ds) (auto simp: digits_val_Cons intro!: add_nonneg_nonneg mult_nonneg_nonneg zero_le_power)

lemma digits_val_lt: "digits_ok r ds \<Longrightarrow> 0 < r \<Longrightarrow> digits_val r ds < r ^ length ds"
proof (induction ds)
  case (Cons d ds)
  then have "(d + 1) * r ^ length ds \<le> r * r ^ length ds"
    by (intro mult_right_mono) auto
  then show ?case using Cons by (simp add: digits_val_Cons algebra_simps)
qed simp

lemma digits_val_inj:
  "length xs = length ys \<Longrightarrow> digits_ok r xs \<Longrightarrow> digits_ok r ys \<Longrightarrow> digits_val r xs = digits_val r ys \<Longrightarrow> xs = ys"
proof (induction xs arbitrary: ys rule: rev_induct)
  case (snoc x xs)
  obtain zs z where ys: "ys = zs @ [z]" using snoc.prems(1) by (cases ys rule: rev_cases) auto
  have d: "0 \<le> x" "x < r" "0 \<le> z" "z < r" using snoc.prems by (simp_all add: ys)
  have eq: "r * digits_val r xs + x = r * digits_val r zs + z" using snoc.prems by (simp add: ys)
  have "x = (r * digits_val r xs + x) mod r" using d by simp
  also have "\<dots> = z" unfolding eq using d by simp
  finally have "x = z" .
  with eq d snoc show ?case by (simp add: ys)
qed simp

text \<open>A digit string is canonical when it has no leading zero; canonical strings are unique.\<close>

definition canonical :: "int list \<Rightarrow> bool" where
  "canonical ds \<longleftrightarrow> ds = [] \<or> hd ds \<noteq> 0"

lemma canonical_lower: "ds \<noteq> [] \<Longrightarrow> canonical ds \<Longrightarrow> digits_ok r ds \<Longrightarrow> r ^ (length ds - 1) \<le> digits_val r ds"
proof (cases ds)
  case (Cons d ds')
  assume a: "canonical ds" "digits_ok r ds"
  then have "1 * r ^ length ds' \<le> d * r ^ length ds'"
    using Cons by (intro mult_right_mono) (auto simp: canonical_def)
  moreover have "0 \<le> digits_val r ds'" using a Cons by (simp add: digits_val_nonneg)
  ultimately show ?thesis by (simp add: Cons digits_val_Cons)
qed simp

lemma canonical_inj:
  assumes "canonical xs" "canonical ys" "digits_ok r xs" "digits_ok r ys" "digits_val r xs = digits_val r ys" "1 < r"
  shows "xs = ys"
proof -
  have le: "length a \<le> length b" if "canonical a" "digits_ok r a" "digits_ok r b" "digits_val r a = digits_val r b" for a b
  proof (cases "a = []")
    case False
    then have "r ^ (length a - 1) < r ^ length b"
      using canonical_lower[OF False that(1,2)] digits_val_lt[OF that(3)] that(4) assms(6) by linarith
    then have "length a - 1 < length b" using assms(6) power_less_imp_less_exp[of r] by blast
    then show ?thesis by simp
  qed simp
  have "length xs = length ys"
    using le[of xs ys] le[of ys xs] assms by simp
  then show ?thesis using assms by (intro digits_val_inj) auto
qed

lemma canonical_dropWhile: "canonical (dropWhile (\<lambda>d. d = 0) ds)"
  using hd_dropWhile[of "\<lambda>d. d = 0" ds] by (auto simp: canonical_def)

lemma digits_val_dropWhile: "digits_val r (dropWhile (\<lambda>d. d = 0) ds) = digits_val r ds"
  by (induction ds) (simp_all add: digits_val_Cons)

lemma digits_ok_dropWhile: "digits_ok r ds \<Longrightarrow> digits_ok r (dropWhile P ds)"
  by (auto simp: digits_ok_def dest: set_dropWhileD)

lemma digits_of_number:
  fixes r :: int
  assumes "0 < r"
  shows "digits_val r (map (\<lambda>i. n div r ^ (k - 1 - i) mod r) [0..<k]) = n mod r ^ k"
proof (induction k)
  case (Suc k)
  have "digits_val r (map (\<lambda>i. n div r ^ (Suc k - 1 - i) mod r) [0..<Suc k])
      = n div r ^ k mod r * r ^ k + digits_val r (map (\<lambda>i. n div r ^ (k - 1 - i) mod r) [0..<k])"
    by (simp add: upt_conv_Cons digits_val_Cons map_Suc_upt[symmetric] o_def del: upt_Suc)
  also have "\<dots> = n mod r ^ Suc k"
    unfolding Suc.IH power_Suc2 using assms by (subst zmod_zmult2_eq) simp_all
  finally show ?case .
qed simp

end
