(* ===== verification/Base58.thy ===== *)
theory Base58
  imports Radix Bignum
begin

text \<open>
  The base58 codec of \<open>trezor-crypto/src/base58.c\<close> with its two alphabets (Bitcoin's and, from
  \<open>ripple/base58.c\<close>, Ripple's) and the checksummed entry points.

  Decoding keeps the number in an array of 32-bit words, most significant first; encoding
  keeps it in an array of base-58 digits whose size the code estimates. A C string is the
  list of its bytes before the NUL; \<open>false\<close> is \<open>None\<close>. Indices that the C code could move
  below zero are checked: the model returns \<open>None\<close> there, and the proofs show it never does.
  The hash function of the checksum is a parameter.
\<close>

unbundle bit_operations_syntax

section \<open>Operations\<close>

definition b58digits_ordered :: "u8 list" where
  "b58digits_ordered = str_bytes ''123456789ABCDEFGHJKLMNPQRSTUVWXYZabcdefghijkmnopqrstuvwxyz''"

definition b58digits_map :: "int list" where
  "b58digits_map = [
     -1,-1,-1,-1,-1,-1,-1,-1,-1,-1,-1,-1,-1,-1,-1,-1,
     -1,-1,-1,-1,-1,-1,-1,-1,-1,-1,-1,-1,-1,-1,-1,-1,
     -1,-1,-1,-1,-1,-1,-1,-1,-1,-1,-1,-1,-1,-1,-1,-1,
     -1, 0, 1, 2, 3, 4, 5, 6, 7, 8,-1,-1,-1,-1,-1,-1,
     -1, 9,10,11,12,13,14,15,16,-1,17,18,19,20,21,-1,
     22,23,24,25,26,27,28,29,30,31,32,-1,-1,-1,-1,-1,
     -1,33,34,35,36,37,38,39,40,41,42,43,-1,44,45,46,
     47,48,49,50,51,52,53,54,55,56,57,-1,-1,-1,-1,-1]"

definition xrp_b58digits :: "u8 list" where
  "xrp_b58digits = str_bytes ''rpshnaf39wBUDNEGHJKLM4PQRST7VWXYZ2bcdeCg65jkm8oFqi1tuvAxyz''"

definition xrp_b58digits_map :: "int list" where
  "xrp_b58digits_map = [
     -1,-1,-1,-1,-1,-1,-1,-1,-1,-1,-1,-1,-1,-1,-1,-1,
     -1,-1,-1,-1,-1,-1,-1,-1,-1,-1,-1,-1,-1,-1,-1,-1,
     -1,-1,-1,-1,-1,-1,-1,-1,-1,-1,-1,-1,-1,-1,-1,-1,
     -1,50,33,7,21,41,40,27,45,8,-1,-1,-1,-1,-1,-1,
     -1,54,10,38,12,14,47,15,16,-1,17,18,19,20,13,-1,
     22,23,24,25,26,11,28,29,30,31,32,-1,-1,-1,-1,-1,
     -1,5,34,35,36,37,6,39,3,49,42,43,-1,44,4,46,
     1,48,0,2,51,52,53,9,55,56,57,-1,-1,-1,-1,-1]"

subsection \<open>Decoding\<close>

text \<open>One character: \<open>outi = outi * 58 + c\<close>, from the last word to the first.\<close>

definition b58_mul_add :: "u32 list \<Rightarrow> u32 \<Rightarrow> u32 list \<times> u32" where
  "b58_mul_add outi c =
     for_down (length outi) 0 (\<lambda>j (outi, c).
       let t = (ucast (outi ! j) :: u64) * 58 + ucast c
       in (outi[j := ucast (t AND 0xffffffff)], ucast (drop_bit 32 (t AND 0x3f00000000)))) (outi, c)"

fun b58_digits :: "int list \<Rightarrow> u32 \<Rightarrow> u8 list \<Rightarrow> u32 list \<Rightarrow> u32 list option" where
  "b58_digits digits_map zeromask [] outi = Some outi"
| "b58_digits digits_map zeromask (x # xs) outi =
     (if x AND 0x80 \<noteq> 0 then None
      else if digits_map ! unat x = - 1 then None
      else (let (outi, c) = b58_mul_add outi (word_of_int (digits_map ! unat x)) in
        if c \<noteq> 0 then None
        else if outi ! 0 AND zeromask \<noteq> 0 then None
        else b58_digits digits_map zeromask xs outi))"

text \<open>The bytes of the words, without the unused high bytes of the first one.\<close>

definition b58_out_bytes :: "u32 list \<Rightarrow> nat \<Rightarrow> u8 list" where
  "b58_out_bytes outi bytesleft =
     (let binu = [];
          binu = (if bytesleft = 3 then binu @ [ucast (drop_bit 16 (outi ! 0 AND 0xff0000))] else binu);
          binu = (if bytesleft = 3 \<or> bytesleft = 2 then binu @ [ucast (drop_bit 8 (outi ! 0 AND 0xff00))] else binu);
          (binu, j) = (if bytesleft = 3 \<or> bytesleft = 2 \<or> bytesleft = 1
                       then (binu @ [ucast (outi ! 0 AND 0xff)], 1) else (binu, 0))
      in for_up j (length outi) (\<lambda>j binu. binu @
           [ucast (drop_bit 0x18 (outi ! j) AND 0xff), ucast (drop_bit 0x10 (outi ! j) AND 0xff),
            ucast (drop_bit 8 (outi ! j) AND 0xff), ucast (drop_bit 0 (outi ! j) AND 0xff)]) binu)"

text \<open>The final count: the leading zero bytes are dropped from the size, the leading \<open>1\<close>s added.\<close>

fun b58_count :: "nat \<Rightarrow> u8 list \<Rightarrow> nat \<Rightarrow> nat \<Rightarrow> nat option" where
  "b58_count i [] zerocount binsz = Some binsz"
| "b58_count i (x # xs) zerocount binsz =
     (if x \<noteq> 0 then (if zerocount > i then None else Some binsz)
      else b58_count (i + 1) xs zerocount (binsz - 1))"

definition base58_to_bin :: "nat \<Rightarrow> u8 list \<Rightarrow> u8 list \<Rightarrow> int list \<Rightarrow> (u8 list \<times> nat) option" where
  "base58_to_bin binsz b58 digits digits_map =
     (if binsz = 0 then None
      else (let outisz = (binsz + 3) div 4;
                bytesleft = binsz mod 4;
                zeromask = (if bytesleft \<noteq> 0 then push_bit (bytesleft * 8) 0xffffffff else 0);
                zerocount = length (takeWhile (\<lambda>x. x = digits ! 0) b58)
            in case b58_digits digits_map zeromask (drop zerocount b58) (replicate outisz 0) of
                 None \<Rightarrow> None
               | Some outi \<Rightarrow>
                   (let bin = b58_out_bytes outi bytesleft in
                    case b58_count 0 (take binsz bin) zerocount binsz of
                      None \<Rightarrow> None
                    | Some n \<Rightarrow> Some (bin, n + zerocount))))"

definition b58tobin :: "nat \<Rightarrow> u8 list \<Rightarrow> (u8 list \<times> nat) option" where
  "b58tobin binsz b58 = base58_to_bin binsz b58 b58digits_ordered b58digits_map"

subsection \<open>Encoding\<close>

text \<open>
  One byte into the digit array: \<open>j\<close> runs down from \<open>size - 1\<close> while it is above \<open>high\<close> or a
  carry is left. The argument is \<open>j + 1\<close>; the result is the array and the final \<open>j\<close>.
\<close>

fun b58_carry :: "u8 list \<Rightarrow> int \<Rightarrow> nat \<Rightarrow> int \<Rightarrow> (u8 list \<times> int) option" where
  "b58_carry buf high 0 carry = (if - 1 > high \<or> carry \<noteq> 0 then None else Some (buf, - 1))"
| "b58_carry buf high (Suc j) carry =
     (if int j > high \<or> carry \<noteq> 0
      then (let carry = carry + 256 * uint (buf ! j) in
            b58_carry (buf[j := word_of_int (carry mod 58)]) high j (carry div 58))
      else Some (buf, int j))"

fun b58_bytes :: "u8 list \<Rightarrow> u8 list \<Rightarrow> int \<Rightarrow> u8 list option" where
  "b58_bytes [] buf high = Some buf"
| "b58_bytes (x # xs) buf high =
     (case b58_carry buf high (length buf) (uint x) of None \<Rightarrow> None
      | Some (buf, j) \<Rightarrow> b58_bytes xs buf j)"

text \<open>On failure the code reports the size it would need, on success the size it used.\<close>

definition base58_encode :: "nat \<Rightarrow> u8 list \<Rightarrow> u8 list \<Rightarrow> (nat + u8 list \<times> nat) option" where
  "base58_encode b58sz bin digits =
     (let zcount = length (takeWhile (\<lambda>x. x = 0) bin);
          size = (length bin - zcount) * 138 div 100 + 1
      in case b58_bytes (drop zcount bin) (replicate size 0) (int size - 1) of
           None \<Rightarrow> None
         | Some buf \<Rightarrow>
             (let j = length (takeWhile (\<lambda>x. x = 0) buf) in
              if b58sz \<le> zcount + size - j then Some (Inl (zcount + size - j + 1))
              else (let b58 = replicate zcount (digits ! 0) @ map (\<lambda>d. digits ! unat d) (drop j buf)
                    in Some (Inr (b58 @ [0], length b58 + 1)))))"

definition b58enc :: "nat \<Rightarrow> u8 list \<Rightarrow> (nat + u8 list \<times> nat) option" where
  "b58enc b58sz bin = base58_encode b58sz bin b58digits_ordered"

section \<open>The word array of the decoder\<close>

abbreviation words_val :: "u32 list \<Rightarrow> int" where
  "words_val ws \<equiv> digits_val (2 ^ 32) (map uint ws)"

lemma words_ok: "digits_ok (2 ^ 32) (map uint (ws :: u32 list))"
  using uint_lt2p[where 'a = 32] by (auto simp: digits_ok_def)

lemma uint_and_32bit: "uint (w AND 0xffffffff) = uint w mod 2 ^ 32"
  for w :: "'a::len word"
proof -
  have "w AND 0xffffffff = take_bit 32 w"
    by (simp add: mask_numeral flip: and_mask_take_bit)
  then show ?thesis by (simp only: uint_take_bit)
qed

lemma uint_carry_6bit: "uint (drop_bit 32 (t AND 0x3f00000000)) = uint t div 2 ^ 32 mod 64"
  for t :: u64
proof -
  have m: "(0x3f00000000 :: u64) = push_bit 32 (mask 6)" by (simp add: mask_eq_exp_minus_1 push_bit_eq_mult)
  have "drop_bit 32 (t AND 0x3f00000000) = take_bit 6 (drop_bit 32 t)"
    unfolding m by (rule bit_word_eqI) (auto simp: bit_simps)
  then show ?thesis by (simp only: uint_take_bit uint_drop_bit) simp
qed

lemma mul_add_digit:
  fixes o' :: u32 and c :: u32
  assumes c: "uint c < 58"
  defines "t \<equiv> (ucast o' :: u64) * 58 + ucast c"
  shows "uint (ucast (t AND 0xffffffff) :: u32) = (58 * uint o' + uint c) mod 2 ^ 32"
    and "uint (ucast (drop_bit 32 (t AND 0x3f00000000)) :: u32) = (58 * uint o' + uint c) div 2 ^ 32"
    and "(58 * uint o' + uint c) div 2 ^ 32 < 58"
proof -
  have o': "uint o' < 2 ^ 32" using uint_lt2p[of o'] by simp
  have t: "uint t = 58 * uint o' + uint c"
    unfolding t_def using o' c by (simp add: uint_add_nowrap uint_mult_nowrap uint_ucast_up mult.commute)
  show lt: "(58 * uint o' + uint c) div 2 ^ 32 < 58"
    using o' c by (simp add: div_ltI)
  show "uint (ucast (t AND 0xffffffff) :: u32) = (58 * uint o' + uint c) mod 2 ^ 32"
    by (simp add: uint_ucast uint_and_32bit t)
  have "0 \<le> (58 * uint o' + uint c) div 2 ^ 32" by (simp add: pos_imp_zdiv_nonneg_iff)
  then have "(58 * uint o' + uint c) div 2 ^ 32 mod 64 = (58 * uint o' + uint c) div 2 ^ 32"
    using lt by (intro mod_pos_pos_trivial) linarith+
  then show "uint (ucast (drop_bit 32 (t AND 0x3f00000000)) :: u32) = (58 * uint o' + uint c) div 2 ^ 32"
    using lt \<open>0 \<le> _ div _\<close> by (simp only: uint_ucast uint_carry_6bit t) (simp add: mod_pos_pos_trivial)
qed

lemma b58_mul_add_correct:
  assumes c: "uint c0 < 58" and r: "b58_mul_add v0 c0 = (v, c)"
  shows "length v = length v0" and "words_val v + uint c * (2 ^ 32) ^ length v0 = 58 * words_val v0 + uint c0"
proof -
  let ?n = "length v0" and ?B = "(2 :: int) ^ 32"
  let ?P = "\<lambda>j (v, c). length v = ?n \<and> take j v = take j v0 \<and> uint c < 58
      \<and> words_val (drop j v) + uint c * ?B ^ (?n - j) = 58 * words_val (drop j v0) + uint c0"
  let ?body = "\<lambda>j (outi, c). let t = (ucast (outi ! j) :: u64) * 58 + ucast c
       in (outi[j := ucast (t AND 0xffffffff)], ucast (drop_bit 32 (t AND 0x3f00000000)) :: u32)"
  have "?P 0 (for_down ?n 0 ?body (v0, c0))"
  proof (rule for_down_inv[where P = ?P], goal_cases)
    case (3 j s)
    obtain v c where s: "s = (v, c)" by (cases s)
    have inv: "length v = ?n" "take (Suc j) v = take (Suc j) v0" "uint c < 58"
        "words_val (drop (Suc j) v) + uint c * ?B ^ (?n - Suc j) = 58 * words_val (drop (Suc j) v0) + uint c0"
      using 3 by (simp_all add: s)
    let ?W = "58 * uint (v ! j) + uint c"
    define q r where "q = ?W div ?B" and "r = ?W mod ?B"
    note D = mul_add_digit[OF inv(3), of "v ! j", folded q_def r_def]
    have vj: "v ! j = v0 ! j" using inv(1,2) 3 by (metis lessI nth_take)
    have tk: "take j v = take j v0" using inv(2) by (metis le_SucI order_refl take_take min.absorb1)
    have p: "?B ^ (?n - j) = ?B * ?B ^ (?n - Suc j)"
      using 3 by (metis Suc_diff_Suc power_Suc)
    have W: "?W = q * ?B + r" by (simp add: q_def r_def)
    have "r * ?B ^ (?n - Suc j) + words_val (drop (Suc j) v) + q * (?B * ?B ^ (?n - Suc j))
        = (q * ?B + r) * ?B ^ (?n - Suc j) + words_val (drop (Suc j) v)" by (simp only: algebra_simps)
    also have "\<dots> = 58 * (uint (v0 ! j) * ?B ^ (?n - Suc j)) + (words_val (drop (Suc j) v) + uint c * ?B ^ (?n - Suc j))"
      unfolding W[symmetric] vj by (simp only: algebra_simps)
    finally have E: "r * ?B ^ (?n - Suc j) + words_val (drop (Suc j) v) + q * (?B * ?B ^ (?n - Suc j))
        = 58 * (uint (v0 ! j) * ?B ^ (?n - Suc j) + words_val (drop (Suc j) v0)) + uint c0"
      unfolding inv(4) by (simp only: algebra_simps)
    let ?v' = "v[j := ucast ((ucast (v ! j) * 58 + ucast c :: u64) AND 0xffffffff)]"
    have d: "drop j ?v' = ucast ((ucast (v ! j) * 58 + ucast c :: u64) AND 0xffffffff) # drop (Suc j) v"
      using inv(1) 3 by (simp add: drop_eq_Cons)
    have d0: "drop j v0 = v0 ! j # drop (Suc j) v0" using 3 by (simp add: drop_eq_Cons)
    show ?case
      unfolding s prod.case Let_def d d0 p
      using inv(1) tk D E 3 by (simp add: digits_val_Cons)
  qed (use c in simp_all)
  then have "?P 0 (v, c)" using r by (simp only: b58_mul_add_def)
  then show "length v = length v0" and "words_val v + uint c * (2 ^ 32) ^ length v0 = 58 * words_val v0 + uint c0"
    by simp_all
qed

text \<open>The size check of the first word is the bound \<open>256 ^ binsz\<close> on the number.\<close>

definition size_mask :: "nat \<Rightarrow> u32" where
  "size_mask binsz = (if binsz mod 4 \<noteq> 0 then push_bit (binsz mod 4 * 8) 0xffffffff else 0)"

lemma and_high_mask: "x AND push_bit k 0xffffffff = 0 \<longleftrightarrow> uint x < 2 ^ k" if "k < 32" for x :: u32
proof -
  have m: "(0xffffffff :: u32) = - 1" by simp
  have "x AND push_bit k 0xffffffff = push_bit k (drop_bit k x)"
    unfolding m using that by (intro bit_word_eqI) (auto simp: bit_simps)
  moreover have "push_bit k (drop_bit k x) = 0 \<longleftrightarrow> drop_bit k x = 0"
  proof
    assume "push_bit k (drop_bit k x) = 0"
    then have "drop_bit k (push_bit k (drop_bit k x)) = 0" by simp
    moreover have "drop_bit k (push_bit k (drop_bit k x)) = drop_bit k x"
      using that by (intro bit_word_eqI) (auto simp: bit_simps dest: bit_imp_le_length)
    ultimately show "drop_bit k x = 0" by simp
  qed simp
  moreover have "drop_bit k x = 0 \<longleftrightarrow> uint x div 2 ^ k = 0"
    by (simp only: uint_drop_bit[symmetric] uint_eq_0_iff)
  moreover have "uint x div 2 ^ k = 0 \<longleftrightarrow> uint x < 2 ^ k"
    using uint_nonnegative[of x] zero_less_power[of "2 :: int" k] by (auto simp: zdiv_eq_0_iff)
  ultimately show ?thesis by simp
qed

lemma size_mask_bound:
  assumes n: "length v = (binsz + 3) div 4" and b: "0 < binsz"
  shows "v ! 0 AND size_mask binsz = 0 \<longleftrightarrow> words_val v < 256 ^ binsz"
proof -
  obtain x xs where v: "v = x # xs" using n b by (cases v) auto
  define k where "k = binsz mod 4"
  have lt: "words_val xs < (2 ^ 32) ^ length xs" and nn: "0 \<le> words_val xs"
    using digits_val_lt[OF words_ok] digits_val_nonneg[OF words_ok] by simp_all
  have V: "words_val v = uint x * (2 ^ 32) ^ length xs + words_val xs"
    by (simp add: v digits_val_Cons)
  show ?thesis
  proof (cases "k = 0")
    case True
    then have "binsz = 4 * length v" using n by (simp add: k_def) presburger
    then have "(256 :: int) ^ binsz = (2 ^ 32) ^ length v" by (simp add: power_mult)
    then show ?thesis using digits_val_lt[OF words_ok, of v] True by (simp add: size_mask_def k_def)
  next
    case False
    have "k < 4" by (simp add: k_def)
    have "binsz = 4 * length xs + k" using n False v by (simp add: k_def) presburger
    then have p: "(256 :: int) ^ binsz = 2 ^ (k * 8) * (2 ^ 32) ^ length xs"
      by (simp add: power_add power_mult mult.commute[of k])
    have "words_val v < 256 ^ binsz \<longleftrightarrow> uint x < 2 ^ (k * 8)"
    proof
      assume "uint x < 2 ^ (k * 8)"
      then have "(uint x + 1) * (2 ^ 32) ^ length xs \<le> 2 ^ (k * 8) * (2 ^ 32) ^ length xs"
        by (intro mult_right_mono) simp_all
      then show "words_val v < 256 ^ binsz" unfolding V p using lt by (simp only: algebra_simps)
    next
      assume "words_val v < 256 ^ binsz"
      then have "uint x * (2 ^ 32) ^ length xs < 2 ^ (k * 8) * (2 ^ 32) ^ length xs"
        unfolding V p using nn by linarith
      then show "uint x < 2 ^ (k * 8)" by (simp only: mult_less_cancel_right) auto
    qed
    moreover have "size_mask binsz = push_bit (k * 8) 0xffffffff"
      using False by (simp add: size_mask_def k_def)
    ultimately show ?thesis
      using and_high_mask[of "k * 8" x] \<open>k < 4\<close> by (simp add: v)
  qed
qed

definition b58_valid :: "int list \<Rightarrow> u8 \<Rightarrow> bool" where
  "b58_valid digits_map x \<longleftrightarrow> x AND 0x80 = 0 \<and> digits_map ! unat x \<noteq> - 1"

definition digits_map_ok :: "int list \<Rightarrow> bool" where
  "digits_map_ok dm \<longleftrightarrow> length dm = 128 \<and> (\<forall>d\<in>set dm. d = - 1 \<or> 0 \<le> d \<and> d < 58)"

lemma uint_lt_128: "x AND 0x80 = 0 \<Longrightarrow> uint x < 128" for x :: u8
proof -
  assume a: "x AND 0x80 = 0"
  have "\<not> bit x 7"
  proof
    assume "bit x 7"
    then have "bit (x AND 0x80) 7" by (simp add: bit_simps)
    then show False using a by simp
  qed
  moreover have "bit (uint x) 7 = bit x 7" by (simp add: bit_uint_iff)
  moreover have "bit (uint x) 7 \<longleftrightarrow> odd (uint x div 2 ^ 7)" by (rule bit_iff_odd)
  ultimately have "even (uint x div 128)" by simp
  moreover have "uint x div 128 = 0 \<or> uint x div 128 = 1" using uint_lt_u8[of x] div_ltI[of "uint x" 2 128] pos_imp_zdiv_nonneg_iff[of 128 "uint x"] uint_nonnegative[of x] by linarith
  ultimately show ?thesis by (auto simp: div_eq_0_iff)
qed

lemma b58_valid_digit:
  assumes "digits_map_ok dm" "b58_valid dm x"
  shows "0 \<le> dm ! unat x" "dm ! unat x < 58"
proof -
  have "unat x < length dm"
    using assms uint_lt_128[of x] nat_less_iff[of "uint x" 128] by (simp add: digits_map_ok_def b58_valid_def)
  then have "dm ! unat x \<in> set dm" by simp
  then show "0 \<le> dm ! unat x" "dm ! unat x < 58"
    using assms by (auto simp: digits_map_ok_def b58_valid_def)
qed

section \<open>Decoding\<close>

definition b58_num :: "int list \<Rightarrow> u8 list \<Rightarrow> int" where
  "b58_num dm xs = digits_val 58 (map (\<lambda>x. dm ! unat x) xs)"

lemma b58_digits_ok: "digits_map_ok dm \<Longrightarrow> \<forall>x\<in>set xs. b58_valid dm x \<Longrightarrow> digits_ok 58 (map (\<lambda>x. dm ! unat x) xs)"
  using b58_valid_digit by (auto simp: digits_ok_def)

lemma b58_digits_correct:
  assumes dm: "digits_map_ok dm" and b: "0 < binsz"
  shows "\<lbrakk>length v = (binsz + 3) div 4; words_val v < 256 ^ binsz\<rbrakk> \<Longrightarrow>
    (case b58_digits dm (size_mask binsz) xs v of
      None \<Rightarrow> \<not> ((\<forall>x\<in>set xs. b58_valid dm x) \<and> words_val v * 58 ^ length xs + b58_num dm xs < 256 ^ binsz)
    | Some w \<Rightarrow> (\<forall>x\<in>set xs. b58_valid dm x) \<and> length w = length v
        \<and> words_val w = words_val v * 58 ^ length xs + b58_num dm xs \<and> words_val w < 256 ^ binsz)"
proof (induction xs arbitrary: v)
  case Nil
  then show ?case by (simp add: b58_num_def)
next
  case (Cons x xs)
  show ?case
  proof (cases "b58_valid dm x")
    case False
    then show ?thesis by (auto simp: b58_valid_def)
  next
    case True
    let ?d = "dm ! unat x"
    have d: "0 \<le> ?d" "?d < 58" using b58_valid_digit[OF dm True] by simp_all
    then have ud: "uint (word_of_int ?d :: u32) = ?d" by (simp add: uint_word_of_int_mod)
    obtain w c where r: "b58_mul_add v (word_of_int ?d) = (w, c)" by (cases "b58_mul_add v (word_of_int ?d)")
    note A = b58_mul_add_correct[OF _ r, unfolded ud, OF d(2)]
    define V where "V = 58 * words_val v + ?d"
    have Vn: "0 \<le> V" using d digits_val_nonneg[OF words_ok, of v] by (simp add: V_def)
    have total: "words_val v * 58 ^ length (x # xs) + b58_num dm (x # xs) = V * 58 ^ length xs + b58_num dm xs"
      by (simp add: b58_num_def digits_val_Cons V_def algebra_simps)
    have bound: "(c = 0 \<and> w ! 0 AND size_mask binsz = 0) \<longleftrightarrow> V < 256 ^ binsz"
    proof (cases "c = 0")
      case True
      then have "words_val w = V" using A by (simp add: V_def)
      then show ?thesis using True size_mask_bound[of w binsz] A(1) Cons.prems b by simp
    next
      case False
      then have "uint c \<noteq> 0" by (simp add: uint_eq_0_iff)
      then have "1 \<le> uint c" using uint_nonnegative[of c] by linarith
      then have "1 * (2 ^ 32) ^ length v \<le> uint c * (2 ^ 32) ^ length v" by (intro mult_right_mono) simp_all
      then have "(2 ^ 32) ^ length v \<le> V"
        using A(2) digits_val_nonneg[OF words_ok, of w] unfolding V_def mult_1 by linarith
      moreover have "(256 :: int) ^ binsz \<le> (2 ^ 32) ^ length v"
      proof -
        have "binsz \<le> 4 * length v" using Cons.prems(1) by simp
        then have "(256 :: int) ^ binsz \<le> 256 ^ (4 * length v)" by (intro power_increasing) simp_all
        then show ?thesis by (simp add: power_mult)
      qed
      ultimately show ?thesis using False by simp
    qed
    show ?thesis
    proof (cases "V < 256 ^ binsz")
      case True
      then have w: "c = 0" "w ! 0 AND size_mask binsz = 0" "words_val w = V"
        using bound A by (simp_all add: V_def)
      have "b58_digits dm (size_mask binsz) (x # xs) v = b58_digits dm (size_mask binsz) xs w"
        using \<open>b58_valid dm x\<close> r w by (simp add: b58_valid_def)
      then show ?thesis
        using Cons.IH[of w] A(1) Cons.prems(1) True w(3) \<open>b58_valid dm x\<close> unfolding total by (simp split: option.splits)
    next
      case False
      have "b58_digits dm (size_mask binsz) (x # xs) v = None"
        using \<open>b58_valid dm x\<close> r False bound by (auto simp: b58_valid_def)
      moreover have "256 ^ binsz \<le> V * 58 ^ length xs + b58_num dm xs" if "\<forall>x\<in>set xs. b58_valid dm x"
      proof -
        have "V * 1 \<le> V * 58 ^ length xs" using Vn by (intro mult_left_mono) simp_all
        moreover have "0 \<le> b58_num dm xs"
          unfolding b58_num_def by (rule digits_val_nonneg[OF b58_digits_ok[OF dm that]])
        ultimately show ?thesis using False by linarith
      qed
      ultimately show ?thesis unfolding total by auto
    qed
  qed
qed

text \<open>The output bytes.\<close>

lemma ucast_and_255 [simp]: "(ucast (x AND 0xff) :: u8) = ucast x" for x :: u32
  by (simp add: and_8bit word_uint_eq_iff uint_ucast uint_take_bit)

lemma drop_bit_byte: "(ucast (drop_bit 8 (x AND 0xff00)) :: u8) = ucast (drop_bit 8 x)"
    "(ucast (drop_bit 16 (x AND 0xff0000)) :: u8) = ucast (drop_bit 16 x)" for x :: u32
proof -
  have m: "(0xff00 :: u32) = push_bit 8 (mask 8)" "(0xff0000 :: u32) = push_bit 16 (mask 8)"
    by (simp_all add: mask_eq_exp_minus_1 push_bit_eq_mult)
  show "(ucast (drop_bit 8 (x AND 0xff00)) :: u8) = ucast (drop_bit 8 x)"
    unfolding m by (rule bit_word_eqI) (auto simp: bit_simps)
  show "(ucast (drop_bit 16 (x AND 0xff0000)) :: u8) = ucast (drop_bit 16 x)"
    unfolding m by (rule bit_word_eqI) (auto simp: bit_simps)
qed

lemma word_bytes: "[ucast (drop_bit 0x18 x AND 0xff), ucast (drop_bit 0x10 x AND 0xff),
    ucast (drop_bit 8 x AND 0xff), ucast (drop_bit 0 x AND 0xff)] = write_be x" for x :: u32
  by (simp add: write_be_def)

lemma be_val_out_words: "be_val (concat (map write_be ws)) = words_val ws" "length (concat (map write_be ws)) = 4 * length ws"
proof (induction ws)
  case (Cons w ws)
  have l: "length (concat (map write_be ws)) = 4 * length ws" by (rule Cons.IH(2))
  show "be_val (concat (map write_be (w # ws))) = words_val (w # ws)"
    by (simp add: be_val_append be_val_write_be digits_val_Cons Cons.IH l power_mult del: length_concat)
  show "length (concat (map write_be (w # ws))) = 4 * length (w # ws)" using l by simp
qed simp_all

lemma b58_out_bytes_drop:
  assumes v: "v \<noteq> []" and k: "k < 4"
  shows "b58_out_bytes v k = drop (if k = 0 then 0 else 4 - k) (concat (map write_be v))"
proof -
  obtain x xs where x: "v = x # xs" using v by (cases v) auto
  have up: "for_up j (length v) (\<lambda>j binu. binu @ write_be (v ! j)) binu = binu @ concat (map write_be (drop j v))"
    if "j \<le> length v" for j binu
    using that
  proof (induction "length v - j" arbitrary: j binu)
    case (Suc n)
    then have "j < length v" by simp
    then show ?case using Suc(1)[of "Suc j" "binu @ write_be (v ! j)"] Suc(2)
      by (simp add: for_up_step drop_eq_Cons)
  qed simp
  have w: "write_be x = [ucast (drop_bit 24 x), ucast (drop_bit 16 x), ucast (drop_bit 8 x), ucast x]"
    by (simp add: write_be_def)
  consider "k = 0" | "k = 1" | "k = 2" | "k = 3" using k by linarith
  then show ?thesis
    unfolding b58_out_bytes_def word_bytes using up[of 0] up[of 1]
    by cases (simp_all add: x w drop_bit_byte)
qed

lemma b58_out_bytes_correct:
  assumes n: "length v = (binsz + 3) div 4" and b: "0 < binsz" and lt: "words_val v < 256 ^ binsz"
  shows "length (b58_out_bytes v (binsz mod 4)) = binsz" and "be_val (b58_out_bytes v (binsz mod 4)) = words_val v"
proof -
  let ?m = "if binsz mod 4 = 0 then 0 else 4 - binsz mod 4" and ?c = "concat (map write_be v)"
  have m: "4 * length v = ?m + binsz" using n by presburger
  have out: "b58_out_bytes v (binsz mod 4) = drop ?m ?c"
    using n b by (intro b58_out_bytes_drop) auto
  show len: "length (b58_out_bytes v (binsz mod 4)) = binsz"
    unfolding out length_drop be_val_out_words(2) using m by linarith
  have "be_val ?c = be_val (take ?m ?c) * 256 ^ binsz + be_val (drop ?m ?c)"
    using be_val_append[of "take ?m ?c" "drop ?m ?c"] len unfolding out append_take_drop_id by (simp only:)
  then have "be_val (take ?m ?c) * 256 ^ binsz < 1 * 256 ^ binsz"
    using lt be_val_out_words(1)[of v] be_val_nonneg[of "drop ?m ?c"] by linarith
  then have "be_val (take ?m ?c) < 1" by (simp only: mult_less_cancel_right) auto
  then have "be_val (take ?m ?c) = 0" using be_val_nonneg[of "take ?m ?c"] by linarith
  then show "be_val (b58_out_bytes v (binsz mod 4)) = words_val v"
    using \<open>be_val ?c = _\<close> be_val_out_words(1)[of v] by (simp add: out)
qed

text \<open>The final count of the significant bytes.\<close>

lemma b58_count_eq:
  "b58_count i xs z n = (let lz = length (takeWhile (\<lambda>x. x = 0) xs) in
     if lz < length xs \<and> i + lz < z then None else Some (n - lz))"
  by (induction xs arbitrary: i n) (auto simp: Let_def)

lemma base58_to_bin_correct:
  fixes digits :: "u8 list"
  assumes dm: "digits_map_ok dm" and b: "0 < binsz"
  defines "z \<equiv> \<lambda>b58. length (takeWhile (\<lambda>x. x = digits ! 0) b58)"
  shows "case base58_to_bin binsz b58 digits dm of
      Some (bin, n) \<Rightarrow> (\<forall>x\<in>set (drop (z b58) b58). b58_valid dm x) \<and> length bin = binsz
        \<and> be_val bin = b58_num dm (drop (z b58) b58)
        \<and> n = binsz - length (takeWhile (\<lambda>x. x = 0) bin) + z b58
        \<and> (be_val bin = 0 \<or> z b58 \<le> length (takeWhile (\<lambda>x. x = 0) bin))
    | None \<Rightarrow> (\<forall>x\<in>set (drop (z b58) b58). b58_valid dm x) \<longrightarrow> 256 ^ binsz \<le> b58_num dm (drop (z b58) b58)
        \<or> (\<exists>bin. length bin = binsz \<and> be_val bin = b58_num dm (drop (z b58) b58)
             \<and> length (takeWhile (\<lambda>x. x = 0) bin) < z b58)"
proof -
  let ?rest = "drop (z b58) b58" and ?v0 = "replicate ((binsz + 3) div 4) (0 :: u32)"
  have v0: "words_val ?v0 = 0" by simp
  have D: "case b58_digits dm (size_mask binsz) ?rest ?v0 of
      None \<Rightarrow> \<not> ((\<forall>x\<in>set ?rest. b58_valid dm x) \<and> b58_num dm ?rest < 256 ^ binsz)
    | Some w \<Rightarrow> (\<forall>x\<in>set ?rest. b58_valid dm x) \<and> length w = (binsz + 3) div 4
        \<and> words_val w = b58_num dm ?rest \<and> words_val w < 256 ^ binsz"
    by (rule b58_digits_correct[OF dm b, of ?v0 ?rest, unfolded v0 length_replicate mult_zero_left add_0_left, OF refl]) simp
  show ?thesis
  proof (cases "b58_digits dm (size_mask binsz) ?rest ?v0")
    case None
    then show ?thesis
      using D b by (auto simp: base58_to_bin_def Let_def size_mask_def z_def not_less)
  next
    case (Some w)
    let ?bin = "b58_out_bytes w (binsz mod 4)"
    have w: "\<forall>x\<in>set ?rest. b58_valid dm x" "length w = (binsz + 3) div 4"
        "words_val w = b58_num dm ?rest" "words_val w < 256 ^ binsz"
      using D Some by simp_all
    note O = b58_out_bytes_correct[OF w(2) b w(4)]
    have r: "base58_to_bin binsz b58 digits dm = (case b58_count 0 ?bin (z b58) binsz of
        None \<Rightarrow> None | Some n \<Rightarrow> Some (?bin, n + z b58))"
      unfolding z_def using Some b O(1) by (simp add: base58_to_bin_def Let_def size_mask_def z_def)
    have zero: "be_val ?bin = 0" if "length (takeWhile (\<lambda>x. x = 0) ?bin) = binsz"
    proof -
      have "takeWhile (\<lambda>x. x = 0) ?bin = ?bin" using that O(1)
        by (metis takeWhile_eq_take take_all order_refl)
      then have "\<forall>x\<in>set ?bin. x = 0" by (metis set_takeWhileD)
      then have "?bin = replicate binsz 0" using O(1) by (metis replicate_length_same)
      then show ?thesis by (simp add: be_val_digits)
    qed
    have le: "length (takeWhile (\<lambda>x. x = 0) ?bin) \<le> binsz" using O(1) length_takeWhile_le by metis
    show ?thesis
      unfolding r b58_count_eq Let_def using w O zero le by (auto split: if_splits)
  qed
qed

section \<open>Encoding\<close>

abbreviation buf_val :: "u8 list \<Rightarrow> int" where
  "buf_val buf \<equiv> digits_val 58 (map uint buf)"

abbreviation buf_ok :: "u8 list \<Rightarrow> bool" where
  "buf_ok buf \<equiv> digits_ok 58 (map uint buf)"

lemma zero_prefix_val: "(\<And>i. i < length xs \<Longrightarrow> xs ! i = 0) \<Longrightarrow> buf_val xs = 0"
proof -
  assume "\<And>i. i < length xs \<Longrightarrow> xs ! i = 0"
  then have "xs = replicate (length xs) 0" by (intro replicate_eqI) (auto simp: in_set_conv_nth)
  then obtain n where "xs = replicate n 0" by blast
  then show ?thesis by simp
qed

lemma b58_carry_correct:
  "\<lbrakk>length buf = length pre + length post; take (length pre) buf = pre; drop (length pre) buf = post;
    buf_ok pre; 0 \<le> carry; - 1 \<le> high; 256 * buf_val pre + carry < 58 ^ length pre;
    \<And>i. i < length pre \<Longrightarrow> int i \<le> high \<Longrightarrow> pre ! i = 0\<rbrakk> \<Longrightarrow>
   \<exists>pre' j'. b58_carry buf high (length pre) carry = Some (pre' @ post, j') \<and> length pre' = length pre
     \<and> buf_ok pre' \<and> buf_val pre' = 256 * buf_val pre + carry \<and> - 1 \<le> j' \<and> j' < int (length pre)
     \<and> (\<forall>i<length pre. int i \<le> j' \<longrightarrow> pre' ! i = 0)"
proof (induction pre arbitrary: buf post carry rule: rev_induct)
  case Nil
  then have "carry = 0" by simp
  then show ?case using Nil by simp
next
  case (snoc d pre)
  have buf: "buf = pre @ d # post" using snoc.prems(2,3) by (metis append_Cons append_Nil append_assoc append_take_drop_id)
  let ?j = "length pre"
  have bj: "buf ! ?j = d" by (simp add: buf)
  have d: "0 \<le> uint d" "uint d < 58" and preok: "buf_ok pre" using snoc.prems(4) by simp_all
  show ?case
  proof (cases "int ?j > high \<or> carry \<noteq> 0")
    case False
    have "buf_val (pre @ [d]) = 0"
      using snoc.prems(8) False by (intro zero_prefix_val) auto
    then show ?thesis
      using False snoc.prems buf by (intro exI[of _ "pre @ [d]"] exI[of _ "int ?j"]) (auto simp: nth_append)
  next
    case True
    let ?c = "carry + 256 * uint d"
    let ?q = "?c div 58" and ?r = "?c mod 58"
    have ur: "uint (word_of_int ?r :: u8) = ?r"
    proof -
      have "0 \<le> ?r" "?r < 58" by simp_all
      then show ?thesis by (simp add: uint_word_of_int_mod)
    qed
    have c0: "0 \<le> ?c" using snoc.prems(5) d by simp
    have split: "256 * buf_val (pre @ [d]) + carry = 58 * (256 * buf_val pre + ?q) + ?r"
      by (simp add: algebra_simps)
    have lt: "256 * buf_val pre + ?q < 58 ^ length pre"
    proof -
      have "58 * (256 * buf_val pre + ?q) \<le> 58 * (256 * buf_val pre + ?q) + ?r" by simp
      also have "\<dots> < 58 * 58 ^ length pre" using snoc.prems(7) unfolding split by simp
      finally show ?thesis by simp
    qed
    let ?buf = "buf[?j := word_of_int ?r]"
    have b': "?buf = pre @ word_of_int ?r # post" by (simp add: buf)
    obtain pre' j' where IH: "b58_carry ?buf high ?j ?q = Some (pre' @ word_of_int ?r # post, j')"
        "length pre' = length pre" "buf_ok pre'" "buf_val pre' = 256 * buf_val pre + ?q" "- 1 \<le> j'" "j' < int (length pre)"
        "\<forall>i<length pre. int i \<le> j' \<longrightarrow> pre' ! i = 0"
    proof -
      have "pre ! i = 0" if "i < length pre" "int i \<le> high" for i
        using snoc.prems(8)[of i] that by (simp add: nth_append)
      moreover have "0 \<le> ?q" using c0 by (simp add: pos_imp_zdiv_nonneg_iff)
      moreover have "length ?buf = length pre + length (word_of_int ?r # post)" "take ?j ?buf = pre" "drop ?j ?buf = word_of_int ?r # post"
        unfolding b' by simp_all
      ultimately show thesis
        using snoc.IH[of ?buf "word_of_int ?r # post" ?q] preok snoc.prems(6) lt that by blast
    qed
    show ?thesis
    proof (intro exI conjI)
      show "b58_carry buf high (length (pre @ [d])) carry = Some ((pre' @ [word_of_int ?r]) @ post, j')"
        using True IH(1) by (simp add: bj)
      show "buf_ok (pre' @ [word_of_int ?r])" using IH(3) ur by simp
      show "buf_val (pre' @ [word_of_int ?r]) = 256 * buf_val (pre @ [d]) + carry"
        unfolding split using IH(4) ur by simp
      show "\<forall>i<length (pre @ [d]). int i \<le> j' \<longrightarrow> (pre' @ [word_of_int ?r]) ! i = 0"
        using IH(2,6,7) by (auto simp: nth_append)
    qed (use IH in auto)
  qed
qed

lemma b58_bytes_correct:
  "\<lbrakk>buf_ok buf; - 1 \<le> high; high < int (length buf); \<And>i. i < length buf \<Longrightarrow> int i \<le> high \<Longrightarrow> buf ! i = 0;
    buf_val buf * 256 ^ length xs + be_val xs < 58 ^ length buf\<rbrakk> \<Longrightarrow>
   \<exists>buf'. b58_bytes xs buf high = Some buf' \<and> length buf' = length buf \<and> buf_ok buf'
     \<and> buf_val buf' = buf_val buf * 256 ^ length xs + be_val xs"
proof (induction xs arbitrary: buf high)
  case (Cons x xs)
  have total: "buf_val buf * 256 ^ length (x # xs) + be_val (x # xs) = (256 * buf_val buf + uint x) * 256 ^ length xs + be_val xs"
    by (simp add: be_val_Cons algebra_simps)
  have "0 \<le> 256 * buf_val buf + uint x"
    using digits_val_nonneg[OF Cons.prems(1)] by simp
  then have "(256 * buf_val buf + uint x) * 1 \<le> (256 * buf_val buf + uint x) * 256 ^ length xs"
    by (intro mult_left_mono) simp_all
  also have "\<dots> \<le> (256 * buf_val buf + uint x) * 256 ^ length xs + be_val xs" by simp
  also have "\<dots> < 58 ^ length buf" using Cons.prems(5) unfolding total .
  finally have "256 * buf_val buf + uint x < 58 ^ length buf" by simp
  then obtain b j where b: "b58_carry buf high (length buf) (uint x) = Some (b, j)" "length b = length buf" "buf_ok b"
      "buf_val b = 256 * buf_val buf + uint x" "- 1 \<le> j" "j < int (length buf)" "\<forall>i<length buf. int i \<le> j \<longrightarrow> b ! i = 0"
    using b58_carry_correct[of buf buf "[]" "uint x" high] Cons.prems by auto
  then show ?case using Cons.IH[of b j] Cons.prems(5) unfolding total by simp
qed simp

lemma power_swap: "(a ^ m) ^ n = (a ^ n) ^ m" for a :: int
  by (simp add: power_mult[symmetric] mult.commute)

lemma b58_size_enough: "(256 :: int) ^ m < 58 ^ (m * 138 div 100 + 1)"
proof -
  have "k < 100 * (k div 100 + 1)" for k :: nat
    using div_mult_mod_eq[of k 100] mod_less_divisor[of 100 k] by simp
  then have "m * 138 < 100 * (m * 138 div 100 + 1)" .
  have "((256 :: int) ^ m) ^ 100 = (256 ^ 100) ^ m" by (rule power_swap)
  also have "\<dots> \<le> (58 ^ 138) ^ m" by (rule power_mono) simp_all
  also have "\<dots> = 58 ^ (m * 138)" unfolding mult.commute[of m] by (rule power_mult[symmetric])
  also have "\<dots> < 58 ^ (100 * (m * 138 div 100 + 1))"
    using \<open>m * 138 < _\<close> by (intro power_strict_increasing) simp_all
  also have "\<dots> = (58 ^ (m * 138 div 100 + 1)) ^ 100" unfolding mult.commute[of 100] by (rule power_mult)
  finally show ?thesis by (rule power_less_imp_less_base) simp
qed

text \<open>The encoder in terms of the canonical digits of the number.\<close>

lemma dropWhile_map_uint: "dropWhile (\<lambda>d. d = 0) (map uint xs) = map uint (dropWhile (\<lambda>x. x = 0) xs)"
  for xs :: "u8 list"
  by (induction xs) (auto simp: uint_eq_0_iff)

lemma drop_takeWhile: "drop (length (takeWhile P xs)) xs = dropWhile P xs"
  by (induction xs) auto

lemma length_dropWhile_takeWhile: "length (dropWhile P xs) = length xs - length (takeWhile P xs)"
  by (metis drop_takeWhile length_drop)

lemma be_val_dropWhile: "be_val (dropWhile (\<lambda>x. x = 0) bs) = be_val bs"
  by (simp add: be_val_digits flip: dropWhile_map_uint) (rule digits_val_dropWhile)

abbreviation leading_zeros :: "u8 list \<Rightarrow> nat" where
  "leading_zeros bin \<equiv> length (takeWhile (\<lambda>x. x = 0) bin)"

lemma base58_encode_correct:
  obtains ds where "canonical ds" "digits_ok 58 ds" "digits_val 58 ds = be_val bin"
    "\<And>b58sz digits. base58_encode b58sz bin digits = Some (if b58sz \<le> leading_zeros bin + length ds then Inl (leading_zeros bin + length ds + 1)
       else Inr (replicate (leading_zeros bin) (digits ! 0) @ map (\<lambda>d. digits ! nat d) ds @ [0], leading_zeros bin + length ds + 1))"
proof -
  let ?rest = "drop (leading_zeros bin) bin" and ?size = "(length bin - leading_zeros bin) * 138 div 100 + 1"
  let ?v0 = "replicate ?size (0 :: u8)"
  have rest: "be_val ?rest = be_val bin" unfolding drop_takeWhile by (rule be_val_dropWhile)
  have "be_val ?rest < 256 ^ length ?rest" by (rule be_val_lt)
  also have "\<dots> < 58 ^ ?size" using b58_size_enough[of "length ?rest"] by simp
  finally have lt: "be_val ?rest < 58 ^ ?size" .
  obtain buf where buf: "b58_bytes ?rest ?v0 (int ?size - 1) = Some buf" "length buf = ?size" "buf_ok buf"
      "buf_val buf = be_val bin"
    using b58_bytes_correct[of ?v0 "int ?size - 1" ?rest] lt rest by (auto simp: digits_ok_def simp del: replicate_Suc)
  let ?j = "length (takeWhile (\<lambda>x. x = 0) buf)"
  let ?ds = "map uint (drop ?j buf)"
  have ds: "?ds = dropWhile (\<lambda>d. d = 0) (map uint buf)" unfolding drop_takeWhile dropWhile_map_uint ..
  have len: "leading_zeros bin + ?size - ?j = leading_zeros bin + length ?ds"
    using buf(2) length_takeWhile_le[of "\<lambda>x. x = 0" buf] by simp
  show thesis
  proof (rule that[of ?ds])
    show "canonical ?ds" unfolding ds by (rule canonical_dropWhile)
    show "digits_ok 58 ?ds" unfolding ds by (rule digits_ok_dropWhile[OF buf(3)])
    show "digits_val 58 ?ds = be_val bin" unfolding ds digits_val_dropWhile by (rule buf(4))
    fix b58sz digits
    show "base58_encode b58sz bin digits = Some (if b58sz \<le> leading_zeros bin + length ?ds then Inl (leading_zeros bin + length ?ds + 1)
       else Inr (replicate (leading_zeros bin) (digits ! 0) @ map (\<lambda>d. digits ! nat d) ?ds @ [0], leading_zeros bin + length ?ds + 1))"
      using buf(1) len unfolding base58_encode_def Let_def by (simp add: o_def)
  qed
qed

section \<open>Round trip\<close>

definition alphabet_pair :: "u8 list \<Rightarrow> int list \<Rightarrow> bool" where
  "alphabet_pair digits dm \<longleftrightarrow> digits_map_ok dm \<and> length digits = 58 \<and> distinct digits
     \<and> (\<forall>x\<in>set digits. x AND 0x80 = 0 \<and> x \<noteq> 0) \<and> map (\<lambda>x. dm ! unat x) digits = map int [0..<58]"

lemma alphabet_pair_digit:
  assumes "alphabet_pair digits dm" "0 \<le> d" "d < 58"
  shows "b58_valid dm (digits ! nat d)" "dm ! unat (digits ! nat d) = d" "digits ! nat d = digits ! 0 \<longleftrightarrow> d = 0"
proof -
  have i: "nat d < 58" using assms by simp
  have l: "length digits = 58" "map (\<lambda>x. dm ! unat x) digits = map int [0..<58]" "\<forall>x\<in>set digits. x AND 0x80 = 0"
    using assms(1) by (simp_all add: alphabet_pair_def)
  have "map (\<lambda>x. dm ! unat x) digits ! nat d = int (nat d)" unfolding l(2) using i by simp
  then show m: "dm ! unat (digits ! nat d) = d" using i l(1) assms(2) by simp
  show "b58_valid dm (digits ! nat d)"
    using i l assms(2) m by (auto simp: b58_valid_def)
  show "digits ! nat d = digits ! 0 \<longleftrightarrow> d = 0"
    using assms i nth_eq_iff_index_eq[of digits "nat d" 0] by (auto simp: alphabet_pair_def)
qed

lemma takeWhile_replicate_digits:
  assumes "alphabet_pair digits dm" "canonical ds" "digits_ok 58 ds"
  shows "length (takeWhile (\<lambda>x. x = digits ! 0) (replicate z (digits ! 0) @ map (\<lambda>d. digits ! nat d) ds)) = z"
proof -
  have "takeWhile (\<lambda>x. x = digits ! 0) (map (\<lambda>d. digits ! nat d) ds) = []"
  proof (cases ds)
    case (Cons d ds')
    then show ?thesis using assms alphabet_pair_digit(3)[OF assms(1), of d] by (simp add: canonical_def)
  qed simp
  then show ?thesis by (induction z) simp_all
qed

lemma b58_num_digits:
  assumes "alphabet_pair digits dm" "digits_ok 58 ds"
  shows "b58_num dm (map (\<lambda>d. digits ! nat d) ds) = digits_val 58 ds" "\<forall>x\<in>set (map (\<lambda>d. digits ! nat d) ds). b58_valid dm x"
proof -
  have "map (\<lambda>x. dm ! unat x) (map (\<lambda>d. digits ! nat d) ds) = ds"
    using assms(2) alphabet_pair_digit(2)[OF assms(1)] by (auto simp: digits_ok_def intro: map_idI)
  then show "b58_num dm (map (\<lambda>d. digits ! nat d) ds) = digits_val 58 ds" by (simp add: b58_num_def)
  show "\<forall>x\<in>set (map (\<lambda>d. digits ! nat d) ds). b58_valid dm x"
    using assms(2) alphabet_pair_digit(1)[OF assms(1)] by (auto simp: digits_ok_def)
qed

lemma be_val_zeros: "be_val (replicate n 0 @ bs) = be_val bs"
  by (simp add: be_val_digits digits_val_append)

lemma be_val_pad:
  assumes "length buf = n" "be_val buf = be_val bin" "length bin \<le> n"
  shows "buf = replicate (n - length bin) 0 @ bin"
  using assms by (intro be_val_inj) (simp_all add: be_val_zeros)

lemma takeWhile_pad: "length (takeWhile (\<lambda>x. x = 0) (replicate n (0 :: u8) @ bin)) = n + length (takeWhile (\<lambda>x. x = 0) bin)"
  by (induction n) simp_all

lemma base58_roundtrip_lemma:
  assumes ap: "alphabet_pair digits dm" and e: "base58_encode b58sz bin digits = Some (Inr (out, n))"
    and cap: "length bin \<le> binsz" "0 < binsz"
  shows "out = butlast out @ [0]" and "length out = n" and "n \<le> b58sz"
    and "base58_to_bin binsz (butlast out) digits dm = Some (replicate (binsz - length bin) 0 @ bin, length bin)"
proof -
  let ?z = "length (takeWhile (\<lambda>x. x = 0) bin)"
  obtain ds where ds: "canonical ds" "digits_ok 58 ds" "digits_val 58 ds = be_val bin"
    and E: "\<And>b58sz digits. base58_encode b58sz bin digits = Some (if b58sz \<le> ?z + length ds then Inl (?z + length ds + 1)
       else Inr (replicate ?z (digits ! 0) @ map (\<lambda>d. digits ! nat d) ds @ [0], ?z + length ds + 1))"
    by (rule base58_encode_correct[of bin]) blast
  have o: "out = (replicate ?z (digits ! 0) @ map (\<lambda>d. digits ! nat d) ds) @ [0]" "n = ?z + length ds + 1" "\<not> b58sz \<le> ?z + length ds"
    using e unfolding E by (auto split: if_splits)
  then have bl: "butlast out = replicate ?z (digits ! 0) @ map (\<lambda>d. digits ! nat d) ds"
    by (simp only: butlast_snoc)
  show "out = butlast out @ [0]" unfolding bl using o(1) .
  show "length out = n" "n \<le> b58sz" using o by simp_all
  let ?s = "replicate ?z (digits ! 0) @ map (\<lambda>d. digits ! nat d) ds"
  have z: "length (takeWhile (\<lambda>x. x = digits ! 0) ?s) = ?z"
    by (rule takeWhile_replicate_digits[OF ap ds(1,2)])
  have dr: "drop (length (takeWhile (\<lambda>x. x = digits ! 0) ?s)) ?s = map (\<lambda>d. digits ! nat d) ds"
    unfolding z by simp
  have dm: "digits_map_ok dm" using ap by (simp add: alphabet_pair_def)
  have num: "b58_num dm (map (\<lambda>d. digits ! nat d) ds) = be_val bin" "\<forall>x\<in>set (map (\<lambda>d. digits ! nat d) ds). b58_valid dm x"
    using b58_num_digits[OF ap ds(2)] ds(3) by simp_all
  have "be_val bin < 256 ^ binsz"
    by (rule order.strict_trans2[OF be_val_lt power_increasing[OF cap(1)]]) simp
  then have lt: "\<not> 256 ^ binsz \<le> be_val bin" by simp
  have pad: "buf = replicate (binsz - length bin) 0 @ bin" if "length buf = binsz" "be_val buf = be_val bin" for buf
    by (rule be_val_pad[OF that cap(1)])
  have lz: "length (takeWhile (\<lambda>x. x = 0) buf) = binsz - length bin + ?z" if "length buf = binsz" "be_val buf = be_val bin" for buf
    unfolding pad[OF that] by (rule takeWhile_pad)
  note C = base58_to_bin_correct[OF dm cap(2), where digits = digits and ?b58.0 = ?s, unfolded dr, unfolded num(1) z]
  have zle: "?z \<le> length bin" by (rule length_takeWhile_le)
  show "base58_to_bin binsz (butlast out) digits dm = Some (replicate (binsz - length bin) 0 @ bin, length bin)"
  proof (cases "base58_to_bin binsz ?s digits dm")
    case None
    then have "\<exists>buf. length buf = binsz \<and> be_val buf = be_val bin \<and> length (takeWhile (\<lambda>x. x = 0) buf) < ?z"
      using C num(2) lt by simp
    then show ?thesis using lz by auto
  next
    case (Some r)
    obtain buf k where r: "r = (buf, k)" by (cases r)
    have "length buf = binsz" "be_val buf = be_val bin" "k = binsz - length (takeWhile (\<lambda>x. x = 0) buf) + ?z"
      using C Some r by simp_all
    then show ?thesis
      using Some r lz pad zle cap(1) by (simp add: bl)
  qed
qed

lemma b58digits_ordered_bytes: "b58digits_ordered = [49, 50, 51, 52, 53, 54, 55, 56, 57, 65, 66, 67, 68, 69, 70, 71, 72, 74, 75, 76, 77, 78, 80, 81, 82, 83, 84, 85, 86, 87, 88, 89, 90, 97, 98, 99, 100, 101, 102, 103, 104, 105, 106, 107, 109, 110, 111, 112, 113, 114, 115, 116, 117, 118, 119, 120, 121, 122]"
  by (simp add: b58digits_ordered_def str_bytes_def)

lemma xrp_b58digits_bytes: "xrp_b58digits = [114, 112, 115, 104, 110, 97, 102, 51, 57, 119, 66, 85, 68, 78, 69, 71, 72, 74, 75, 76, 77, 52, 80, 81, 82, 83, 84, 55, 86, 87, 88, 89, 90, 50, 98, 99, 100, 101, 67, 103, 54, 53, 106, 107, 109, 56, 111, 70, 113, 105, 49, 116, 117, 118, 65, 120, 121, 122]"
  by (simp add: xrp_b58digits_def str_bytes_def)

lemma bitcoin_alphabet: "alphabet_pair b58digits_ordered b58digits_map"
  unfolding alphabet_pair_def b58digits_ordered_bytes
  by (simp add: b58digits_map_def digits_map_ok_def upt_rec[of 0] upt_rec[of "Suc 0"] flip: numeral_2_eq_2)

lemma ripple_alphabet: "alphabet_pair xrp_b58digits xrp_b58digits_map"
  unfolding alphabet_pair_def xrp_b58digits_bytes
  by (simp add: xrp_b58digits_map_def digits_map_ok_def upt_rec[of 0] upt_rec[of "Suc 0"] flip: numeral_2_eq_2)

section \<open>Checksummed strings\<close>

text \<open>
  The first four bytes of a hash follow the data. \<open>hash\<close> stands for \<open>hasher_Raw\<close> with the
  chosen algorithm. A read before or behind a buffer is \<open>None\<close>; the numbers are the
  return codes.
\<close>

fun b58_skip :: "u8 list \<Rightarrow> u8 list \<Rightarrow> u8 \<Rightarrow> (u8 \<times> u8) option" where
  "b58_skip (b # bs) (s # ss) d0 = (if b = 0 \<and> s = d0 then b58_skip bs ss d0 else Some (b, s))"
| "b58_skip bs ss d0 = None"

definition base58_check :: "(u8 list \<Rightarrow> u8 list) \<Rightarrow> u8 list \<Rightarrow> u8 list \<Rightarrow> u8 list \<Rightarrow> int option" where
  "base58_check hash bin base58str digits =
     (if length bin < 4 then Some (- 4)
      else if drop (length bin - 4) bin \<noteq> take 4 (hash (take (length bin - 4) bin)) then Some (- 1)
      else (case b58_skip bin (base58str @ [0]) (digits ! 0) of
          None \<Rightarrow> None
        | Some (b, s) \<Rightarrow> if b = 0 \<or> s = digits ! 0 then Some (- 3) else Some (uint (bin ! 0))))"

definition b58_encode_check :: "u8 list \<Rightarrow> (u8 list \<Rightarrow> u8 list) \<Rightarrow> u8 list \<Rightarrow> nat \<Rightarrow> (nat \<times> u8 list) option" where
  "b58_encode_check digits hash data strsize =
     (if 128 < length data then Some (0, [])
      else (case base58_encode strsize (data @ take 4 (hash data)) digits of
          None \<Rightarrow> None
        | Some (Inl _) \<Rightarrow> Some (0, [])
        | Some (Inr (str, res)) \<Rightarrow> Some (res, str)))"

definition b58_decode_check :: "u8 list \<Rightarrow> int list \<Rightarrow> (u8 list \<Rightarrow> u8 list) \<Rightarrow> u8 list \<Rightarrow> nat \<Rightarrow> (nat \<times> u8 list) option" where
  "b58_decode_check digits digits_map hash str datalen =
     (if 128 < datalen then Some (0, [])
      else (case base58_to_bin (datalen + 4) str digits digits_map of
          None \<Rightarrow> Some (0, [])
        | Some (d, res) \<Rightarrow>
            if datalen + 4 < res then None
            else (let nd = drop (datalen + 4 - res) d in
              case base58_check hash nd str digits of
                None \<Rightarrow> None
              | Some r \<Rightarrow> if r < 0 then Some (0, []) else Some (res - 4, take (res - 4) nd))))"

definition base58_encode_check :: "(u8 list \<Rightarrow> u8 list) \<Rightarrow> u8 list \<Rightarrow> nat \<Rightarrow> (nat \<times> u8 list) option" where
  "base58_encode_check = b58_encode_check b58digits_ordered"

definition base58_decode_check :: "(u8 list \<Rightarrow> u8 list) \<Rightarrow> u8 list \<Rightarrow> nat \<Rightarrow> (nat \<times> u8 list) option" where
  "base58_decode_check = b58_decode_check b58digits_ordered b58digits_map"

definition xrp_base58_encode_check :: "(u8 list \<Rightarrow> u8 list) \<Rightarrow> u8 list \<Rightarrow> nat \<Rightarrow> (nat \<times> u8 list) option" where
  "xrp_base58_encode_check = b58_encode_check xrp_b58digits"

definition xrp_base58_decode_check :: "(u8 list \<Rightarrow> u8 list) \<Rightarrow> u8 list \<Rightarrow> nat \<Rightarrow> (nat \<times> u8 list) option" where
  "xrp_base58_decode_check = b58_decode_check xrp_b58digits xrp_b58digits_map"

text \<open>The Graphene variants run the same code with \<open>ripemd160\<close>.\<close>

definition base58gph_encode_check :: "(u8 list \<Rightarrow> u8 list) \<Rightarrow> u8 list \<Rightarrow> nat \<Rightarrow> (nat \<times> u8 list) option" where
  "base58gph_encode_check ripemd160 = b58_encode_check b58digits_ordered ripemd160"

definition base58gph_decode_check :: "(u8 list \<Rightarrow> u8 list) \<Rightarrow> u8 list \<Rightarrow> nat \<Rightarrow> (nat \<times> u8 list) option" where
  "base58gph_decode_check ripemd160 = b58_decode_check b58digits_ordered b58digits_map ripemd160"

lemma b58_skip_zeros:
  "b58_skip (replicate z 0 @ b # bs) (replicate z d0 @ s # ss) d0 = (if b = 0 \<and> s = d0 then b58_skip bs ss d0 else Some (b, s))"
  by (induction z) simp_all

lemma be_val_0_iff: "be_val bs = 0 \<longleftrightarrow> (\<forall>b\<in>set bs. b = 0)"
proof (induction bs)
  case (Cons b bs)
  have "be_val (b # bs) = 0 \<longleftrightarrow> uint b * 256 ^ length bs = 0 \<and> be_val bs = 0"
    unfolding be_val_Cons by (rule add_nonneg_eq_0_iff) simp_all
  then show ?case using Cons by (simp add: uint_eq_0_iff)
qed simp

lemma b58_skip_all_zero: "b58_skip (replicate z 0) (replicate z d0 @ ss) d0 = None"
  by (induction z) simp_all

lemma be_val_zero_replicate: "be_val bs = 0 \<Longrightarrow> bs = replicate (length bs) 0"
  unfolding be_val_0_iff by (intro replicate_eqI) simp_all

lemma b58_check_roundtrip:
  assumes ap: "alphabet_pair digits dm" and h: "4 \<le> length (hash data)"
    and e: "b58_encode_check digits hash data strsize = Some (n, str)" and n: "n \<noteq> 0"
    and cap: "length data \<le> cap" "cap \<le> 128"
  shows "b58_decode_check digits dm hash (butlast str) cap
    = (if \<forall>b\<in>set (data @ take 4 (hash data)). b = 0 then None else Some (length data, data))"
proof -
  let ?bin = "data @ take 4 (hash data)"
  have enc: "base58_encode strsize ?bin digits = Some (Inr (str, n))"
    using e n by (auto simp: b58_encode_check_def split: option.splits sum.splits if_splits)
  have lb: "length ?bin = length data + 4" using h by simp
  have dec: "base58_to_bin (cap + 4) (butlast str) digits dm = Some (replicate (cap - length data) 0 @ ?bin, length data + 4)"
    using base58_roundtrip_lemma(4)[OF ap enc, of "cap + 4"] lb cap by simp
  let ?z = "leading_zeros ?bin"
  obtain ds where ds: "canonical ds" "digits_ok 58 ds" "digits_val 58 ds = be_val ?bin"
    and E: "\<And>b58sz digits. base58_encode b58sz ?bin digits = Some (if b58sz \<le> ?z + length ds then Inl (?z + length ds + 1)
       else Inr (replicate ?z (digits ! 0) @ map (\<lambda>d. digits ! nat d) ds @ [0], ?z + length ds + 1))"
    by (rule base58_encode_correct[of ?bin]) blast
  have str: "butlast str = replicate ?z (digits ! 0) @ map (\<lambda>d. digits ! nat d) ds"
    using enc unfolding E by (auto split: if_splits simp: butlast_append)
  have res: "b58_decode_check digits dm hash (butlast str) cap = (case base58_check hash ?bin (butlast str) digits of
      None \<Rightarrow> None | Some r \<Rightarrow> if r < 0 then Some (0, []) else Some (length data, data))"
    unfolding b58_decode_check_def dec using cap h by (simp add: Let_def split: option.split)
  show ?thesis
  proof (cases "be_val ?bin = 0")
    case True
    note rep = be_val_zero_replicate[OF True, unfolded lb]
    have z: "?z = length data + 4" by (subst rep) simp
    have "ds = []"
    proof (rule ccontr)
      assume "ds \<noteq> []"
      then have "58 ^ (length ds - 1) \<le> be_val ?bin" using canonical_lower[OF _ ds(1,2)] ds(3) by simp
      moreover have "(0 :: int) < 58 ^ (length ds - 1)" by simp
      ultimately show False using True by linarith
    qed
    then have "b58_skip ?bin (butlast str @ [0]) (digits ! 0) = None"
      unfolding str z by (subst rep) (simp add: b58_skip_all_zero)
    then have "base58_check hash ?bin (butlast str) digits = None"
      unfolding base58_check_def using h by simp
    then show ?thesis using True unfolding res be_val_0_iff by simp
  next
    case False
    obtain d ds' where dd: "ds = d # ds'" "d \<noteq> 0" "0 \<le> d" "d < 58"
      using ds False by (cases ds) (auto simp: canonical_def)
    have ne: "dropWhile (\<lambda>x. x = 0) ?bin \<noteq> []"
      using False unfolding be_val_0_iff by (simp only: dropWhile_eq_Nil_conv) simp
    obtain b bs where b: "dropWhile (\<lambda>x. x = 0) ?bin = b # bs" "b \<noteq> 0"
      using ne hd_dropWhile[OF ne] by (cases "dropWhile (\<lambda>x. x = 0) ?bin") auto
    have bin: "?bin = replicate ?z 0 @ b # bs"
    proof -
      have tw: "takeWhile (\<lambda>x. x = 0) ?bin = replicate ?z 0"
        by (rule replicate_eqI[OF refl]) (drule set_takeWhileD, rule conjunct2)
      have "?bin = takeWhile (\<lambda>x. x = 0) ?bin @ dropWhile (\<lambda>x. x = 0) ?bin" by (rule takeWhile_dropWhile_id[symmetric])
      also have "\<dots> = replicate ?z 0 @ b # bs" by (rule arg_cong2[where f = append, OF tw b(1)])
      finally show ?thesis .
    qed
    have "b58_skip (replicate ?z 0 @ b # bs) (replicate ?z (digits ! 0) @ digits ! nat d # map (\<lambda>d. digits ! nat d) ds' @ [0]) (digits ! 0)
        = Some (b, digits ! nat d)"
      unfolding b58_skip_zeros using b(2) by simp
    then have skip: "b58_skip ?bin (butlast str @ [0]) (digits ! 0) = Some (b, digits ! nat d)"
      unfolding bin[symmetric] str dd(1) by simp
    have nd: "digits ! nat d \<noteq> digits ! 0" using alphabet_pair_digit(3)[OF ap dd(3,4)] dd(2) by simp
    have "base58_check hash ?bin (butlast str) digits = Some (uint (?bin ! 0))"
      unfolding base58_check_def skip using h b(2) nd by simp
    moreover have "\<not> (\<forall>b\<in>set ?bin. b = 0)" using False by (simp only: be_val_0_iff not_False_eq_True)
    ultimately show ?thesis unfolding res by simp
  qed
qed

end
