(* ===== verification/XmrBase58.thy ===== *)
theory XmrBase58
  imports Base58 Blocks
begin

text \<open>
  The block base58 of \<open>trezor-crypto/src/monero/base58.c\<close>: eight bytes become eleven
  characters, a shorter last block of \<open>n\<close> bytes becomes \<open>encoded_block_sizes[n]\<close>. A block is
  a 64-bit number; decoding multiplies 128 bits wide with \<open>mul128\<close> of \<open>int-util.h\<close> to detect
  overflow.

  \<open>decode_block\<close> indexes \<open>b58digits_map\<close> with a signed character; a negative index is a read
  outside the table, the outer \<open>None\<close> of the model. \<open>false\<close> is the inner \<open>None\<close>.
\<close>

unbundle bit_operations_syntax

section \<open>Operations\<close>

definition encoded_block_sizes :: "nat list" where
  "encoded_block_sizes = [0, 2, 3, 5, 6, 7, 9, 10, 11]"

definition decoded_block_sizes :: "int list" where
  "decoded_block_sizes = [0, -1, 1, 2, -1, 3, 4, 5, -1, 6, 7, 8]"

definition hi_dword :: "u64 \<Rightarrow> u64" where
  "hi_dword x = drop_bit 32 x"

definition lo_dword :: "u64 \<Rightarrow> u64" where
  "lo_dword x = x AND 0xFFFFFFFF"

text \<open>The result is the pair of \<open>product_lo\<close> and \<open>product_hi\<close>.\<close>

definition mul128 :: "u64 \<Rightarrow> u64 \<Rightarrow> u64 \<times> u64" where
  "mul128 multiplier multiplicand =
     (let a = hi_dword multiplier; b = lo_dword multiplier;
          c = hi_dword multiplicand; d = lo_dword multiplicand;
          ac = a * c; ad = a * d; bc = b * c; bd = b * d;
          adbc = ad + bc;
          adbc_carry = (if adbc < ad then 1 else 0);
          product_lo = bd + push_bit 32 adbc;
          product_lo_carry = (if product_lo < bd then 1 else 0);
          product_hi = ac + drop_bit 32 adbc + push_bit 32 adbc_carry + product_lo_carry
      in (product_lo, product_hi))"

definition uint_8be_to_64 :: "u8 list \<Rightarrow> nat \<Rightarrow> u64" where
  "uint_8be_to_64 data sz = for_up 0 sz (\<lambda>i res. push_bit 8 res OR ucast (data ! i)) 0"

definition uint_64_to_8be :: "u64 \<Rightarrow> nat \<Rightarrow> u8 list" where
  "uint_64_to_8be num sz = drop (8 - sz) (map (\<lambda>i. ucast (drop_bit (8 * (7 - i)) num)) [0..<8])"

definition encode_block :: "u8 list \<Rightarrow> nat \<Rightarrow> u8 list" where
  "encode_block block sz =
     (let num = uint_8be_to_64 block sz; n = encoded_block_sizes ! sz
      in snd (for_down n 0 (\<lambda>i (num, res).
           let remainder = num mod 58; num = num div 58
           in (num, res[i := b58digits_ordered ! unat remainder])) (num, replicate n 0)))"

fun decode_digits :: "u8 list \<Rightarrow> u64 \<Rightarrow> u64 \<Rightarrow> u64 option option" where
  "decode_digits [] res_num order = Some (Some res_num)"
| "decode_digits (letter # rest) res_num order =
     (if sint letter < 0 then None
      else (let digit = b58digits_map ! unat letter in
        if digit < 0 then Some None
        else (let (lo, product_hi) = mul128 order (word_of_int digit); tmp = res_num + lo in
          if tmp < res_num \<or> product_hi \<noteq> 0 then Some None
          else decode_digits rest tmp (order * 58))))"

text \<open>The loop reads the block from its last character to its first.\<close>

definition decode_block :: "u8 list \<Rightarrow> nat \<Rightarrow> u8 list option option" where
  "decode_block block sz =
     (let res_size = decoded_block_sizes ! sz in
      if res_size \<le> 0 then Some None
      else (case decode_digits (rev (take sz block)) 0 1 of
          None \<Rightarrow> None
        | Some None \<Rightarrow> Some None
        | Some (Some res_num) \<Rightarrow>
            if res_size < 8 \<and> push_bit (8 * nat res_size) 1 \<le> res_num then Some None
            else Some (Some (uint_64_to_8be res_num (nat res_size)))))"

text \<open>The capacity \<open>b58sz\<close> may be \<open>NULL\<close>. The result is the new capacity and the characters.\<close>

definition xmr_base58_encode :: "nat option \<Rightarrow> u8 list \<Rightarrow> (nat option \<times> u8 list) option" where
  "xmr_base58_encode b58sz data =
     (let binsz = length data in
      if binsz = 0 then Some (b58sz, [])
      else (let full_block_count = binsz div 8; last_block_size = binsz mod 8;
                res_size = full_block_count * 11 + encoded_block_sizes ! last_block_size
            in if (case b58sz of None \<Rightarrow> False | Some n \<Rightarrow> n \<le> res_size) then None
               else (let b58 = for_up 0 full_block_count (\<lambda>i b58. b58 @ encode_block (take 8 (drop (i * 8) data)) 8) [];
                         b58 = (if 0 < last_block_size
                                then b58 @ encode_block (drop (full_block_count * 8) data) last_block_size else b58)
                     in Some (map_option (\<lambda>n. res_size) b58sz, b58))))"

text \<open>
  The decoder writes into \<open>data\<close> and reports through \<open>*binsz\<close>: the triple is the return
  value, the new \<open>*binsz\<close> and the bytes written.
\<close>

definition xmr_base58_decode :: "u8 list \<Rightarrow> nat \<Rightarrow> (bool \<times> nat \<times> u8 list) option" where
  "xmr_base58_decode b58 binsz =
     (let b58sz = length b58 in
      if b58sz = 0 then Some (True, 0, [])
      else (let full_block_count = b58sz div 11; last_block_size = b58sz mod 11;
                last_block_decoded_size = decoded_block_sizes ! last_block_size
            in if last_block_decoded_size < 0 then Some (False, 0, [])
               else (let data_size = full_block_count * 8 + nat last_block_decoded_size
                     in if binsz < data_size then Some (False, 0, [])
                        else (case for_up 0 full_block_count (\<lambda>i st. case st of
                                  Some (Some out) \<Rightarrow> (case decode_block (take 11 (drop (i * 11) b58)) 11 of
                                      Some (Some b) \<Rightarrow> Some (Some (out @ b)) | Some None \<Rightarrow> Some None | None \<Rightarrow> None)
                                | _ \<Rightarrow> st) (Some (Some [])) of
                              None \<Rightarrow> None
                            | Some None \<Rightarrow> Some (False, binsz, [])
                            | Some (Some out) \<Rightarrow>
                                if 0 < last_block_size
                                then (case decode_block (drop (full_block_count * 11) b58) last_block_size of
                                    None \<Rightarrow> None
                                  | Some None \<Rightarrow> Some (False, binsz, [])
                                  | Some (Some b) \<Rightarrow> Some (True, binsz, out @ b))
                                else Some (True, binsz, out)))))"

text \<open>
  The address functions: one tag byte, the data, four bytes of a hash. \<open>hash\<close> is
  \<open>hasher_Raw\<close> with \<open>HASHER_SHA3K\<close>; \<open>uninit\<close> is what the stack buffer holds before the call.
\<close>

definition xmr_base58_addr_encode_check :: "(u8 list \<Rightarrow> u8 list) \<Rightarrow> u64 \<Rightarrow> u8 list \<Rightarrow> nat \<Rightarrow> nat \<times> u8 list" where
  "xmr_base58_addr_encode_check hash tag data b58sz =
     (if 128 < length data \<or> 127 < tag then (0, [])
      else (let buf = ucast tag # data in
        case xmr_base58_encode (Some b58sz) (buf @ take 4 (hash buf)) of
          Some (Some n, b58) \<Rightarrow> (n, b58)
        | _ \<Rightarrow> (0, [])))"

definition xmr_base58_addr_decode_check :: "(u8 list \<Rightarrow> u8 list) \<Rightarrow> u8 list \<Rightarrow> u8 list \<Rightarrow> nat \<Rightarrow> (nat \<times> u64 \<times> u8 list) option" where
  "xmr_base58_addr_decode_check hash uninit addr datalen =
     (case xmr_base58_decode addr 69 of
        None \<Rightarrow> None
      | Some (ok, buflen, out) \<Rightarrow>
          if \<not> ok then Some (0, 0, [])
          else (let buf = out @ drop (length out) uninit;
                    res_size = word_of_nat buflen - 5 :: u64
                in if word_of_nat datalen < res_size then Some (0, 0, [])
                   else if buflen \<le> 5 then Some (0, 0, [])
                   else if take 4 (hash (take (buflen - 4) buf)) \<noteq> take 4 (drop (buflen - 4) buf) then Some (0, 0, [])
                   else if 127 < buf ! 0 then Some (0, ucast (buf ! 0), [])
                   else Some (buflen - 5, ucast (buf ! 0), take (buflen - 5) (drop 1 buf))))"

section \<open>The 128-bit product\<close>

lemma dword_split: "uint x = uint (hi_dword x) * 2 ^ 32 + uint (lo_dword x)" "uint (hi_dword x) < 2 ^ 32" "uint (lo_dword x) < 2 ^ 32"
proof -
  have lo: "lo_dword x = take_bit 32 x"
    by (simp add: lo_dword_def mask_numeral flip: and_mask_take_bit)
  have l: "uint (lo_dword x) = uint x mod 2 ^ 32" unfolding lo by (rule uint_take_bit)
  have h: "uint (hi_dword x) = uint x div 2 ^ 32" by (simp add: hi_dword_def uint_drop_bit)
  show "uint x = uint (hi_dword x) * 2 ^ 32 + uint (lo_dword x)" unfolding l h by simp
  show "uint (hi_dword x) < 2 ^ 32" unfolding h using uint_lt_u64[of x] by (simp add: div_ltI)
  show "uint (lo_dword x) < 2 ^ 32" unfolding l by simp
qed

lemma mul_dwords: "uint x < 2 ^ 32 \<Longrightarrow> uint y < 2 ^ 32 \<Longrightarrow> uint (x * y) = uint x * uint y \<and> uint x * uint y \<le> (2 ^ 32 - 1) * (2 ^ 32 - 1)"
  for x y :: u64
proof -
  assume "uint x < 2 ^ 32" "uint y < 2 ^ 32"
  then have "uint x * uint y \<le> (2 ^ 32 - 1) * (2 ^ 32 - 1)" by (intro mult_mono) simp_all
  then show ?thesis by (simp add: uint_mult_nowrap)
qed

text \<open>An addition that may wrap, and the carry the code computes by comparing.\<close>

lemma add_carry: "uint x + uint y = uint (x + y) + 2 ^ 64 * (if x + y < x then 1 else 0)"
  for x y :: u64
  using uint_lt_u64[of x] uint_lt_u64[of y] uint_nonnegative[of y] by (simp add: uint_plus_if' word_less_def)

lemma mul128_correct:
  assumes r: "mul128 x y = (lo, hi)"
  shows "uint x * uint y = uint hi * 2 ^ 64 + uint lo"
proof -
  let ?a = "hi_dword x" and ?b = "lo_dword x" and ?c = "hi_dword y" and ?d = "lo_dword y"
  note X = dword_split[of x] and Y = dword_split[of y]
  note ac = mul_dwords[OF X(2) Y(2)] and ad = mul_dwords[OF X(2) Y(3)] and bc = mul_dwords[OF X(3) Y(2)] and bd = mul_dwords[OF X(3) Y(3)]
  let ?m = "?a * ?d + ?b * ?c"
  let ?k = "if ?m < ?a * ?d then 1 else 0 :: int"
  let ?lo = "?b * ?d + push_bit 32 ?m"
  let ?l = "if ?lo < ?b * ?d then 1 else 0 :: int"
  define q r where "q = uint ?m div 2 ^ 32" and "r = uint ?m mod 2 ^ 32"
  have m: "uint ?m = q * 2 ^ 32 + r" "0 \<le> q" "q < 2 ^ 32" "0 \<le> r" "r < 2 ^ 32"
    using uint_lt_u64[of ?m] by (simp_all add: q_def r_def pos_imp_zdiv_nonneg_iff div_ltI)
  have push: "uint (push_bit 32 ?m) = r * 2 ^ 32"
  proof -
    have "uint (push_bit 32 ?m) = (q * 2 ^ 32 + r) * 2 ^ 32 mod 2 ^ 64"
      unfolding m(1)[symmetric] uint_push_bit by simp
    also have "(q * 2 ^ 32 + r) * 2 ^ 32 = r * 2 ^ 32 + q * 2 ^ 64" by (simp add: algebra_simps)
    also have "(r * 2 ^ 32 + q * 2 ^ 64) mod 2 ^ 64 = r * 2 ^ 32 mod 2 ^ 64" by (rule mod_mult_self1)
    also have "\<dots> = r * 2 ^ 32" using m by (intro mod_pos_pos_trivial) simp_all
    finally show ?thesis .
  qed
  have mid: "uint ?a * uint ?d + uint ?b * uint ?c = q * 2 ^ 32 + r + 2 ^ 64 * ?k"
    using add_carry[of "?a * ?d" "?b * ?c"] ad bc m(1) by simp
  have low: "uint ?b * uint ?d + r * 2 ^ 32 = uint ?lo + 2 ^ 64 * ?l"
    using add_carry[of "?b * ?d" "push_bit 32 ?m"] bd push by simp
  have "uint x * uint y = uint ?a * uint ?c * 2 ^ 64 + (uint ?a * uint ?d + uint ?b * uint ?c) * 2 ^ 32 + uint ?b * uint ?d"
    unfolding X(1) Y(1) by (simp add: algebra_simps)
  also have "\<dots> = uint ?a * uint ?c * 2 ^ 64 + q * 2 ^ 64 + 2 ^ 96 * ?k + (uint ?b * uint ?d + r * 2 ^ 32)"
    unfolding mid by (simp add: algebra_simps)
  finally have total: "uint x * uint y = (uint ?a * uint ?c + q + 2 ^ 32 * ?k + ?l) * 2 ^ 64 + uint ?lo"
    unfolding low by (simp add: algebra_simps)
  define H where "H = uint ?a * uint ?c + q + 2 ^ 32 * ?k + ?l"
  note total = total[folded H_def]
  have "uint x * uint y \<le> (2 ^ 64 - 1) * (2 ^ 64 - 1)"
    using uint_lt_u64[of x] uint_lt_u64[of y] by (intro mult_mono) simp_all
  also have "\<dots> < (2 :: int) ^ 64 * 2 ^ 64" by simp
  finally have "H * 2 ^ 64 < 2 ^ 64 * 2 ^ 64" using total uint_nonnegative[of ?lo] by linarith
  then have H: "H < 2 ^ 64" by simp
  have kl: "0 \<le> ?k" "0 \<le> ?l" by simp_all
  have lo: "lo = ?lo" and hi: "hi = ?a * ?c + drop_bit 32 ?m + push_bit 32 (if ?m < ?a * ?d then 1 else 0) + (if ?lo < ?b * ?d then 1 else 0)"
    using r by (auto simp: mul128_def Let_def)
  have "word_of_int H = word_of_int (uint (?a * ?c)) + word_of_int (uint (drop_bit 32 ?m))
      + push_bit 32 (if ?m < ?a * ?d then 1 else 0) + (if ?lo < ?b * ?d then 1 else 0 :: u64)"
    using ac by (simp add: H_def uint_drop_bit q_def)
  then have "hi = word_of_int H" unfolding hi by simp
  then have "uint hi = H"
    using H kl m(2) ac by (intro uint_eqI) (simp_all add: H_def)
  then show ?thesis using total lo by simp
qed

section \<open>One block\<close>

lemma shift_in_byte: "uint r < 256 ^ 7 \<Longrightarrow> uint (push_bit 8 r OR ucast x) = 256 * uint r + uint x"
  for r :: u64 and x :: u8
proof -
  assume r: "uint r < 256 ^ 7"
  have p: "uint (push_bit 8 r) = uint r * 2 ^ 8"
    unfolding uint_push_bit using r by (intro mod_pos_pos_trivial) simp_all
  have "uint (ucast x OR push_bit 8 r) = uint (ucast x :: u64) + uint (push_bit 8 r)"
    using uint_lt_u8[of x] by (intro uint_or_add[where n = 8]) (simp_all add: p uint_ucast_up)
  then show ?thesis by (simp add: or.commute p uint_ucast_up)
qed

lemma uint_8be_to_64_correct:
  assumes "length b \<le> 8"
  shows "uint (uint_8be_to_64 b (length b)) = be_val b"
proof -
  let ?P = "\<lambda>i r :: u64. uint r = be_val (take i b)"
  have "?P (length b) (for_up 0 (length b) (\<lambda>i res. push_bit 8 res OR ucast (b ! i)) 0)"
  proof (rule for_up_inv[where P = ?P], goal_cases)
    case (3 i r)
    have "length (take i b) \<le> 7" using 3 assms by simp
    then have "(256 :: int) ^ length (take i b) \<le> 256 ^ 7" by (intro power_increasing) simp_all
    then have "uint r < 256 ^ 7" using be_val_lt[of "take i b"] 3 by simp
    then show ?case using 3 by (simp add: shift_in_byte take_Suc_conv_app_nth)
  qed simp_all
  then show ?thesis by (simp add: uint_8be_to_64_def)
qed

lemma uint_64_to_8be_correct:
  assumes "sz \<le> 8" "uint num < 256 ^ sz"
  shows "length (uint_64_to_8be num sz) = sz" "be_val (uint_64_to_8be num sz) = uint num"
proof -
  let ?all = "map (\<lambda>i. ucast (drop_bit (8 * (7 - i)) num) :: u8) [0..<8]"
  have all: "be_val ?all = uint num"
  proof -
    have b: "uint (ucast (drop_bit k num) :: u8) = uint num div 2 ^ k mod 256" for k
      by (simp add: uint_ucast uint_drop_bit)
    have "be_val ?all = digits_val 256 (map (\<lambda>i. uint num div 256 ^ (8 - 1 - i) mod 256) [0..<8])"
      by (simp add: be_val_digits o_def b power_mult)
    also have "\<dots> = uint num mod 256 ^ 8"
      using digits_of_number[of 256 "uint num" 8] by simp
    also have "\<dots> = uint num" using uint_lt_u64[of num] by simp
    finally show ?thesis .
  qed
  show len: "length (uint_64_to_8be num sz) = sz" using assms by (simp add: uint_64_to_8be_def)
  have "be_val ?all = be_val (take (8 - sz) ?all) * 256 ^ sz + be_val (drop (8 - sz) ?all)"
    using be_val_append[of "take (8 - sz) ?all" "drop (8 - sz) ?all"] assms(1) by (simp only: append_take_drop_id) simp
  then have "be_val (take (8 - sz) ?all) * 256 ^ sz < 1 * 256 ^ sz"
    using all assms(2) be_val_nonneg[of "drop (8 - sz) ?all"] by linarith
  then have "be_val (take (8 - sz) ?all) < 1" by (simp only: mult_less_cancel_right) auto
  then have "be_val (take (8 - sz) ?all) = 0" using be_val_nonneg[of "take (8 - sz) ?all"] by linarith
  then show "be_val (uint_64_to_8be num sz) = uint num"
    using \<open>be_val ?all = _ + _\<close> all by (simp add: uint_64_to_8be_def)
qed

lemma alphabet_chars:
  assumes "x \<in> set b58digits_ordered"
  shows "b58_valid b58digits_map x" "\<not> sint x < 0" "0 \<le> b58digits_map ! unat x"
proof -
  obtain i where i: "i < 58" "x = b58digits_ordered ! i"
    using assms bitcoin_alphabet by (auto simp: in_set_conv_nth alphabet_pair_def)
  then show v: "b58_valid b58digits_map x"
    using alphabet_pair_digit(1)[OF bitcoin_alphabet, of "int i"] by simp
  show "0 \<le> b58digits_map ! unat x"
    using b58_valid_digit(1)[OF _ v] bitcoin_alphabet by (simp add: alphabet_pair_def)
  have "uint x < 128" using v uint_lt_128 by (simp add: b58_valid_def)
  then have "sint (word_of_int (uint x) :: u8) = uint x" by (intro sint_small_u8) simp_all
  then show "\<not> sint x < 0" by simp
qed

lemma encode_block_correct:
  assumes b: "length b \<le> 8" and n: "be_val b < 58 ^ (encoded_block_sizes ! length b)"
  shows "length (encode_block b (length b)) = encoded_block_sizes ! length b"
    and "set (encode_block b (length b)) \<subseteq> set b58digits_ordered"
    and "b58_num b58digits_map (encode_block b (length b)) = be_val b"
proof -
  let ?n = "encoded_block_sizes ! length b" and ?N = "be_val b"
  let ?P = "\<lambda>i (num :: u64, res). length res = ?n \<and> uint num = ?N div 58 ^ (?n - i)
      \<and> set (drop i res) \<subseteq> set b58digits_ordered \<and> b58_num b58digits_map (drop i res) = ?N mod 58 ^ (?n - i)"
  let ?body = "\<lambda>i (num :: u64, res). let remainder = num mod 58; num = num div 58
           in (num, res[i := b58digits_ordered ! unat remainder])"
  have l58: "length b58digits_ordered = 58" using bitcoin_alphabet by (simp add: alphabet_pair_def)
  have "?P 0 (for_down ?n 0 ?body (uint_8be_to_64 b (length b), replicate ?n 0))"
  proof (rule for_down_inv[where P = ?P], goal_cases)
    case 2
    then show ?case using b by (simp add: uint_8be_to_64_correct b58_num_def)
  next
    case (3 i s)
    obtain num res where s: "s = (num, res)" by (cases s)
    let ?m = "?n - Suc i"
    have inv: "length res = ?n" "uint num = ?N div 58 ^ ?m" "set (drop (Suc i) res) \<subseteq> set b58digits_ordered"
        "b58_num b58digits_map (drop (Suc i) res) = ?N mod 58 ^ ?m"
      using 3 by (simp_all add: s)
    have ni: "?n - i = Suc ?m" using 3 by simp
    have u: "uint (num mod 58) = uint num mod 58" "uint (num div 58) = uint num div 58"
      by (simp_all add: uint_mod uint_div)
    let ?d = "uint num mod 58"
    let ?x = "b58digits_ordered ! unat (num mod 58)"
    have un: "unat (num mod 58) = nat ?d" using u(1) by (metis unat_eq_nat_uint)
    have x: "b58digits_map ! unat ?x = ?d"
      unfolding un by (rule alphabet_pair_digit(2)[OF bitcoin_alphabet]) simp_all
    have xs: "?x \<in> set b58digits_ordered" unfolding un by (rule nth_mem) (simp add: l58 nat_less_iff)
    have dr: "drop i (res[i := ?x]) = ?x # drop (Suc i) res" using 3 inv(1) by (simp add: drop_eq_Cons)
    have "uint (num div 58) = ?N div 58 ^ Suc ?m"
      unfolding u inv(2) power_Suc2 by (simp add: zdiv_zmult2_eq)
    moreover have "b58_num b58digits_map (?x # drop (Suc i) res) = ?N mod 58 ^ Suc ?m"
    proof -
      have "b58_num b58digits_map (?x # drop (Suc i) res) = ?d * 58 ^ ?m + ?N mod 58 ^ ?m"
        using inv(1,4) x by (simp add: b58_num_def digits_val_Cons)
      also have "\<dots> = ?N mod (58 ^ ?m * 58)"
        unfolding inv(2) by (subst zmod_zmult2_eq) simp_all
      finally show ?thesis by (simp add: mult.commute)
    qed
    ultimately show ?case
      unfolding s prod.case Let_def dr ni using inv(1,3) xs by simp
  qed simp
  then show "length (encode_block b (length b)) = encoded_block_sizes ! length b"
    and "set (encode_block b (length b)) \<subseteq> set b58digits_ordered"
    and "b58_num b58digits_map (encode_block b (length b)) = be_val b"
    using n by (auto simp: encode_block_def Let_def split: prod.splits)
qed

lemma pow58_lt: "k \<le> 10 \<Longrightarrow> (58 :: int) ^ k < 2 ^ 64"
proof -
  assume "k \<le> 10"
  then have "(58 :: int) ^ k \<le> 58 ^ 10" by (intro power_increasing) simp_all
  then show ?thesis by simp
qed

lemma decode_digits_correct:
  "\<lbrakk>set xs \<subseteq> set b58digits_ordered; k + length xs \<le> 11\<rbrakk> \<Longrightarrow>
   decode_digits xs r (word_of_int (58 ^ k)) =
     (let v = uint r + 58 ^ k * b58_num b58digits_map (rev xs) in
      if v < 2 ^ 64 then Some (Some (word_of_int v)) else Some None)"
proof (induction xs arbitrary: r k)
  case Nil
  then show ?case using uint_lt_u64[of r] by (simp add: b58_num_def)
next
  case (Cons x xs)
  let ?d = "b58digits_map ! unat x" and ?o = "word_of_int (58 ^ k) :: u64"
  note X = alphabet_chars[of x]
  have d: "0 \<le> ?d" "?d < 58"
    using b58_valid_digit[OF _ X(1)] bitcoin_alphabet Cons.prems(1) by (simp_all add: alphabet_pair_def)
  have o: "uint ?o = 58 ^ k"
    unfolding uint_word_of_int_mod using pow58_lt[of k] Cons.prems(2) by (intro mod_pos_pos_trivial) simp_all
  have ud: "uint (word_of_int ?d :: u64) = ?d" using d by (simp add: uint_word_of_int_mod)
  obtain lo hi where m: "mul128 ?o (word_of_int ?d) = (lo, hi)" by (cases "mul128 ?o (word_of_int ?d)")
  have prod: "58 ^ k * ?d = uint hi * 2 ^ 64 + uint lo" using mul128_correct[OF m] unfolding o ud .
  have num: "b58_num b58digits_map (rev (x # xs)) = 58 * b58_num b58digits_map (rev xs) + ?d"
    by (simp add: b58_num_def)
  have nn: "0 \<le> b58_num b58digits_map (rev xs)"
    unfolding b58_num_def using Cons.prems(1) alphabet_chars(1) bitcoin_alphabet
    by (intro digits_val_nonneg[OF b58_digits_ok]) (auto simp: alphabet_pair_def)
  let ?v = "uint r + 58 ^ k * b58_num b58digits_map (rev (x # xs))"
  let ?t = "uint r + 58 ^ k * ?d"
  have v: "?v = ?t + 58 ^ Suc k * b58_num b58digits_map (rev xs)" unfolding num by (simp add: algebra_simps)
  have tv: "?t \<le> ?v" unfolding v using nn by simp
  have ov: "(r + lo < r \<or> hi \<noteq> 0) \<longleftrightarrow> 2 ^ 64 \<le> ?t"
  proof (cases "hi = 0")
    case True
    then show ?thesis
      using add_carry[of r lo] prod uint_lt_u64[of "r + lo"] by (auto split: if_splits)
  next
    case False
    then have "uint hi \<noteq> 0" by (simp add: uint_eq_0_iff)
    then have "1 \<le> uint hi" using uint_nonnegative[of hi] by linarith
    then have "1 * 2 ^ 64 \<le> uint hi * 2 ^ 64" by (intro mult_right_mono) simp_all
    then have "2 ^ 64 \<le> ?t" unfolding prod using uint_nonnegative[of r] uint_nonnegative[of lo] by linarith
    then show ?thesis using False by simp
  qed
  show ?case
  proof (cases "2 ^ 64 \<le> ?t")
    case True
    then have "\<not> ?v < 2 ^ 64" using tv by linarith
    then show ?thesis using True ov m X Cons.prems(1) by (simp add: Let_def)
  next
    case False
    then have nov: "\<not> r + lo < r" "hi = 0" using ov by simp_all
    then have t: "uint (r + lo) = ?t" using add_carry[of r lo] prod by simp
    have "decode_digits (x # xs) r ?o = decode_digits xs (r + lo) (word_of_int (58 ^ Suc k))"
      using nov m X Cons.prems(1) by (simp add: Let_def mult.commute)
    also have "\<dots> = (let v = ?t + 58 ^ Suc k * b58_num b58digits_map (rev xs) in
      if v < 2 ^ 64 then Some (Some (word_of_int v)) else Some None)"
      unfolding t[symmetric] using Cons.prems by (intro Cons.IH) auto
    finally show ?thesis unfolding v .
  qed
qed

lemma block_sizes:
  assumes "0 < n" "n \<le> 8"
  shows "0 < encoded_block_sizes ! n" "encoded_block_sizes ! n \<le> 11" "decoded_block_sizes ! (encoded_block_sizes ! n) = int n"
    and "(256 :: int) ^ n \<le> 58 ^ (encoded_block_sizes ! n)"
    and "n < 8 \<Longrightarrow> encoded_block_sizes ! n < 11"
proof -
  have "n = 1 \<or> n = 2 \<or> n = 3 \<or> n = 4 \<or> n = 5 \<or> n = 6 \<or> n = 7 \<or> n = 8" using assms by auto
  then have "0 < encoded_block_sizes ! n \<and> encoded_block_sizes ! n \<le> 11
      \<and> decoded_block_sizes ! (encoded_block_sizes ! n) = int n \<and> (256 :: int) ^ n \<le> 58 ^ (encoded_block_sizes ! n)
      \<and> (n < 8 \<longrightarrow> encoded_block_sizes ! n < 11)"
    by (elim disjE; simp add: encoded_block_sizes_def decoded_block_sizes_def)
  then show "0 < encoded_block_sizes ! n" "encoded_block_sizes ! n \<le> 11" "decoded_block_sizes ! (encoded_block_sizes ! n) = int n"
    and "(256 :: int) ^ n \<le> 58 ^ (encoded_block_sizes ! n)" and "n < 8 \<Longrightarrow> encoded_block_sizes ! n < 11" by simp_all
qed

lemma encode_block_props:
  assumes b: "b \<noteq> []" "length b \<le> 8"
  shows "length (encode_block b (length b)) = encoded_block_sizes ! length b"
    and "set (encode_block b (length b)) \<subseteq> set b58digits_ordered"
    and "b58_num b58digits_map (encode_block b (length b)) = be_val b"
proof -
  have "0 < length b" using b by simp
  then have "be_val b < 58 ^ (encoded_block_sizes ! length b)"
    using order.strict_trans2[OF be_val_lt block_sizes(4)] b(2) by blast
  note E = encode_block_correct[OF b(2) this]
  show "length (encode_block b (length b)) = encoded_block_sizes ! length b"
    and "set (encode_block b (length b)) \<subseteq> set b58digits_ordered"
    and "b58_num b58digits_map (encode_block b (length b)) = be_val b" using E by simp_all
qed

lemma decode_encode_block:
  assumes b: "b \<noteq> []" "length b \<le> 8"
  shows "decode_block (encode_block b (length b)) (length (encode_block b (length b))) = Some (Some b)"
proof -
  let ?c = "encode_block b (length b)" and ?n = "length b"
  note E = encode_block_props[OF b]
  have pos: "0 < ?n" using b by simp
  note S = block_sizes[OF pos b(2)]
  have lt: "be_val b < 256 ^ ?n" by (rule be_val_lt)
  also have "(256 :: int) ^ ?n \<le> 256 ^ 8" using b(2) by (intro power_increasing) simp_all
  finally have lt64: "be_val b < 2 ^ 64" by simp
  have dig: "decode_digits (rev ?c) 0 1 = Some (Some (word_of_int (be_val b)))"
    using decode_digits_correct[of "rev ?c" 0 0] E S(2) lt64 by simp
  have u: "uint (word_of_int (be_val b) :: u64) = be_val b" using lt64 by (simp add: uint_word_of_int_mod)
  have small: "\<not> push_bit (8 * ?n) 1 \<le> (word_of_int (be_val b) :: u64)" if "?n < 8"
  proof -
    have "8 * ?n \<le> 56" using that by simp
    then have "(2 :: int) ^ (8 * ?n) \<le> 2 ^ 56" by (intro power_increasing) simp_all
    then have "uint (push_bit (8 * ?n) 1 :: u64) = 2 ^ (8 * ?n)"
      unfolding uint_push_bit by simp
    also have "\<dots> = 256 ^ ?n" by (simp add: power_mult)
    finally show ?thesis unfolding word_le_def u using lt by simp
  qed
  have "uint_64_to_8be (word_of_int (be_val b)) ?n = b"
    using uint_64_to_8be_correct[of ?n "word_of_int (be_val b)"] b(2) lt u by (intro be_val_inj) simp_all
  then show ?thesis
    using dig small S(3) pos E(1) by (simp add: decode_block_def)
qed

definition xmr_dec :: "u8 list \<Rightarrow> u8 list option" where
  "xmr_dec c = (case decode_block c (length c) of Some (Some b) \<Rightarrow> Some b | _ \<Rightarrow> None)"

interpretation xmr_block: block_codec "\<lambda>b. encode_block b (length b)" xmr_dec 8 11 "\<lambda>r. encoded_block_sizes ! r"
proof unfold_locales
  fix b :: "u8 list" assume b: "b \<noteq> []" "length b \<le> 8"
  show "length (encode_block b (length b)) = encoded_block_sizes ! length b" by (rule encode_block_props(1)[OF b])
  show "xmr_dec (encode_block b (length b)) = Some b" by (simp add: xmr_dec_def decode_encode_block[OF b])
next
  fix r :: nat assume "0 < r" "r < 8"
  then show "0 < encoded_block_sizes ! r \<and> encoded_block_sizes ! r < 11" using block_sizes[of r] by simp
qed (simp_all add: encoded_block_sizes_def)

section \<open>Whole strings\<close>

lemma xmr_base58_encode_blocks:
  assumes "data \<noteq> []"
  shows "xmr_base58_encode b58sz data =
    (let c = encode_blocks (\<lambda>b. encode_block b (length b)) 8 data in
     if (case b58sz of None \<Rightarrow> False | Some n \<Rightarrow> n \<le> length c) then None else Some (map_option (\<lambda>n. length c) b58sz, c))"
proof -
  let ?enc = "\<lambda>b. encode_block b (length b)"
  let ?k = "length data div 8"
  have loop: "for_up 0 ?k (\<lambda>i b58. b58 @ encode_block (take 8 (drop (i * 8) data)) 8) []
      = for_up 0 ?k (\<lambda>i out. out @ ?enc (take 8 (drop (i * 8) data))) []"
    by (rule for_up_cong) (simp only: chunk_length)
  have len: "length (encode_blocks ?enc 8 data) = ?k * 11 + encoded_block_sizes ! (length data mod 8)"
    unfolding xmr_block.encode_blocks_length by (auto simp: encoded_block_sizes_def)
  have out: "(let b58 = for_up 0 ?k (\<lambda>i b58. b58 @ encode_block (take 8 (drop (i * 8) data)) 8) []
     in if 0 < length data mod 8 then b58 @ encode_block (drop (?k * 8) data) (length data mod 8) else b58)
     = encode_blocks ?enc 8 data"
    unfolding loop encode_blocks_def Let_def tail_length by simp
  show ?thesis
    unfolding xmr_base58_encode_def Let_def len out[unfolded Let_def] using assms by simp
qed

lemma for_up_blocks:
  assumes "\<And>i. i < k \<Longrightarrow> f i = Some (Some (g i))"
  shows "for_up 0 k (\<lambda>i st. case st of
      Some (Some out) \<Rightarrow> (case f i of Some (Some b) \<Rightarrow> Some (Some (out @ b)) | Some None \<Rightarrow> Some None | None \<Rightarrow> None)
    | _ \<Rightarrow> st) (Some (Some [])) = Some (Some (concat (map g [0..<k])))"
  using assms by (induction k) (simp_all add: for_up_last)

lemma xmr_base58_roundtrip_lemma:
  assumes e: "xmr_base58_encode b58sz data = Some (n, c)" and d: "data \<noteq> []" and cap: "length data \<le> binsz"
  shows "xmr_base58_decode c binsz = Some (True, binsz, data)"
proof -
  let ?enc = "\<lambda>b. encode_block b (length b)"
  let ?k = "length data div 8" and ?r = "length data mod 8"
  have c: "c = encode_blocks ?enc 8 data"
    using e unfolding xmr_base58_encode_blocks[OF d] by (auto simp: Let_def split: if_splits option.splits)
  note S = xmr_block.encoded_sizes[of data, folded c]
  have ds: "decoded_block_sizes ! (length c mod 11) = int ?r"
    using block_sizes(3)[of ?r] mod_less_divisor[of 8 "length data"] unfolding S(2) by (auto simp: decoded_block_sizes_def)
  have ne: "c \<noteq> []"
  proof
    assume "c = []"
    then have "?k = 0" "?r = 0" using S(1,3) by simp_all
    then show False using d div_mult_mod_eq[of "length data" 8] by simp
  qed
  have dec: "decode_block x (length x) = Some (Some b)" if "xmr_dec x = Some b" for x b
    using that by (auto simp: xmr_dec_def split: option.splits)
  have chunk: "decode_block (take 11 (drop (i * 11) c)) 11 = Some (Some (take 8 (drop (i * 8) data)))" if "i < ?k" for i
    using dec[OF xmr_block.dec_chunk[OF that]] xmr_block.enc_chunk[OF that]
    unfolding c xmr_block.encoded_chunk[OF that] by simp
  have tail: "decode_block (drop (?k * 11) c) (length c mod 11) = Some (Some (drop (?k * 8) data))" if "0 < ?r"
  proof -
    have l: "length (drop (?k * 8) data) = ?r" by (rule tail_length)
    then have "drop (?k * 8) data \<noteq> []" using that by (metis length_greater_0_conv)
    then have "length (encode_block (drop (?k * 8) data) ?r) = encoded_block_sizes ! ?r"
      using encode_block_props(1)[of "drop (?k * 8) data"] unfolding l by simp
    moreover have "drop (?k * 11) c = encode_block (drop (?k * 8) data) ?r"
      unfolding c xmr_block.encoded_tail l using that by simp
    ultimately show ?thesis
      using dec[OF xmr_block.dec_tail[OF that]] that unfolding S(2) l by simp
  qed
  have size: "?k * 8 + ?r = length data" by simp
  show ?thesis
    unfolding xmr_base58_decode_def Let_def S(1) ds
    by (subst for_up_blocks[where g = "\<lambda>i. take 8 (drop (i * 8) data)"], rule chunk, assumption)
      (use ne cap size S(3) tail in \<open>auto simp: not_less xmr_block.full_chunks\<close>)
qed

lemma xmr_base58_empty: "xmr_base58_encode b58sz [] = Some (b58sz, [])" "xmr_base58_decode [] binsz = Some (True, 0, [])"
  by (simp_all add: xmr_base58_encode_def xmr_base58_decode_def)

end
