(* ===== verification/CashAddr.thy ===== *)
theory CashAddr
  imports Radix
begin

text \<open>
  The Bitcoin Cash address format of \<open>trezor-crypto/src/cash_addr.c\<close>: a prefix, a colon,
  5-bit symbols and a 40-bit checksum of eight symbols; \<open>convert_bits\<close> regroups the payload
  bytes into 5-bit symbols and back.

  Strings are the bytes before the NUL. A failing call (return value 0) is \<open>None\<close>; the
  outputs that C leaves behind on failure are not modelled, with one exception:
  \<open>cash_addr_encode\<close> ignores the return value of \<open>cash_addr_to_data\<close>, so an unusable payload
  is encoded as an empty one.
\<close>

unbundle bit_operations_syntax

section \<open>Operations\<close>

definition cashaddr_polymod_step :: "u64 \<Rightarrow> u64" where
  "cashaddr_polymod_step pre =
     (let b = ucast (drop_bit 35 pre) :: u8 in
      push_bit 5 (pre AND 0x7FFFFFFFF)
        XOR (if bit b 0 then 0x98f2bc8e61 else 0)
        XOR (if bit b 1 then 0x79b76d99e2 else 0)
        XOR (if bit b 2 then 0xf33e5fb3c4 else 0)
        XOR (if bit b 3 then 0xae2eabe2a8 else 0)
        XOR (if bit b 4 then 0x1e4f43e470 else 0))"

definition charset :: "u8 list" where
  "charset = map (\<lambda>c. of_nat (of_char c)) ''qpzry9x8gf2tvdw0s3jn54khce6mua7l''"

definition charset_rev :: "int list" where
  "charset_rev = [
    -1, -1, -1, -1, -1, -1, -1, -1, -1, -1, -1, -1, -1, -1, -1, -1,
    -1, -1, -1, -1, -1, -1, -1, -1, -1, -1, -1, -1, -1, -1, -1, -1,
    -1, -1, -1, -1, -1, -1, -1, -1, -1, -1, -1, -1, -1, -1, -1, -1,
    15, -1, 10, 17, 21, 20, 26, 30,  7,  5, -1, -1, -1, -1, -1, -1,
    -1, 29, -1, 24, 13, 25,  9,  8, 23, -1, 18, 22, 31, 27, 19, -1,
     1,  0,  3, 16, 11, 28, 12, 14,  6,  4,  2, -1, -1, -1, -1, -1,
    -1, 29, -1, 24, 13, 25,  9,  8, 23, -1, 18, 22, 31, 27, 19, -1,
     1,  0,  3, 16, 11, 28, 12, 14,  6,  4,  2, -1, -1, -1, -1, -1]"

text \<open>The checksum state after one symbol.\<close>

definition chk_step :: "u64 \<Rightarrow> u8 \<Rightarrow> u64" where
  "chk_step chk v = cashaddr_polymod_step chk XOR ucast v"

definition cash_encode :: "u8 list \<Rightarrow> u8 list \<Rightarrow> u8 list option" where
  "cash_encode hrp data =
     (if \<exists>ch\<in>set hrp. sint ch < 33 \<or> 126 < sint ch then None
      else if 129 < length hrp + 1 + length data + 8 then None
      else if \<exists>v\<in>set data. drop_bit 5 v \<noteq> 0 then None
      else (let chk = foldl (\<lambda>chk ch. chk_step chk (ch AND 0x1f)) 1 hrp;
                chk = cashaddr_polymod_step chk;
                chk = foldl chk_step chk data;
                chk = (cashaddr_polymod_step ^^ 8) chk;
                chk = chk XOR 1
            in Some (hrp @ [58] @ map (\<lambda>v. charset ! unat v) data
                 @ map (\<lambda>i. charset ! unat (drop_bit ((7 - i) * 5) chk AND 0x1f)) [0..<8])))"

text \<open>The characters of the prefix: checked, lowered, and fed to the checksum.\<close>

fun hrp_loop :: "u8 list \<Rightarrow> u64 \<Rightarrow> bool \<Rightarrow> bool \<Rightarrow> u8 list \<Rightarrow> (u64 \<times> bool \<times> bool \<times> u8 list) option" where
  "hrp_loop [] chk have_lower have_upper hrp = Some (chk, have_lower, have_upper, hrp)"
| "hrp_loop (c # cs) chk have_lower have_upper hrp =
     (if sint c < 33 \<or> 126 < sint c then None
      else (let lower = 97 \<le> sint c \<and> sint c \<le> 122;
                upper = \<not> lower \<and> 65 \<le> sint c \<and> sint c \<le> 90;
                ch = (if upper then c - 65 + 97 else c)
            in hrp_loop cs (chk_step chk (ch AND 0x1f)) (have_lower \<or> lower) (have_upper \<or> upper) (hrp @ [ch])))"

fun data_loop :: "u8 list \<Rightarrow> u64 \<Rightarrow> bool \<Rightarrow> bool \<Rightarrow> u8 list \<Rightarrow> (u64 \<times> bool \<times> bool \<times> u8 list) option" where
  "data_loop [] chk have_lower have_upper data = Some (chk, have_lower, have_upper, data)"
| "data_loop (c # cs) chk have_lower have_upper data =
     (let v = (if c AND 0x80 \<noteq> 0 then - 1 else charset_rev ! unat c) in
      if v = - 1 then None
      else data_loop cs (chk_step chk (word_of_int v))
             (have_lower \<or> 97 \<le> sint c \<and> sint c \<le> 122) (have_upper \<or> 65 \<le> sint c \<and> sint c \<le> 90)
             (if 8 < Suc (length cs) then data @ [word_of_int v] else data))"

definition cash_decode :: "u8 list \<Rightarrow> (u8 list \<times> u8 list) option" where
  "cash_decode input =
     (let input_len = length input in
      if input_len < 8 \<or> 129 < input_len then None
      else (let data_len = length (takeWhile (\<lambda>c. c \<noteq> 58) (rev input));
                hrp_len = input_len - (1 + data_len)
            in if input_len \<le> 1 + data_len \<or> 20 < hrp_len \<or> data_len < 8 \<or> 8 + 104 < data_len then None
               else (case hrp_loop (take hrp_len input) 1 False False [] of
                   None \<Rightarrow> None
                 | Some (chk, have_lower, have_upper, hrp) \<Rightarrow>
                     (case data_loop (drop (hrp_len + 1) input) (cashaddr_polymod_step chk) have_lower have_upper [] of
                        None \<Rightarrow> None
                      | Some (chk, have_lower, have_upper, data) \<Rightarrow>
                          if have_lower \<and> have_upper then None
                          else if chk = 1 then Some (hrp, data) else None))))"

text \<open>
  \<open>convert_bits\<close>: the inner loop emits groups while enough bits are held; it runs at most
  \<open>bits div outbits\<close> times.
\<close>

fun emit_bits :: "nat \<Rightarrow> u32 \<Rightarrow> u32 \<Rightarrow> nat \<Rightarrow> u8 list \<Rightarrow> nat \<times> u8 list" where
  "emit_bits outbits maxv val bits out =
     (if 0 < outbits \<and> outbits \<le> bits
      then emit_bits outbits maxv val (bits - outbits) (out @ [ucast (drop_bit (bits - outbits) val AND maxv)])
      else (bits, out))"

declare emit_bits.simps [simp del]

fun convert_loop :: "nat \<Rightarrow> nat \<Rightarrow> u32 \<Rightarrow> u8 list \<Rightarrow> u32 \<Rightarrow> nat \<Rightarrow> u8 list \<Rightarrow> u32 \<times> nat \<times> u8 list" where
  "convert_loop outbits inbits maxv [] val bits out = (val, bits, out)"
| "convert_loop outbits inbits maxv (x # xs) val bits out =
     (let val = push_bit inbits val OR ucast x;
          (bits, out) = emit_bits outbits maxv val (bits + inbits) out
      in convert_loop outbits inbits maxv xs val bits out)"

definition convert_bits :: "nat \<Rightarrow> u8 list \<Rightarrow> nat \<Rightarrow> bool \<Rightarrow> u8 list option" where
  "convert_bits outbits inb inbits pad =
     (let maxv = push_bit outbits 1 - 1;
          (val, bits, out) = convert_loop outbits inbits maxv inb 0 0 []
      in if pad then Some (if bits \<noteq> 0 then out @ [ucast (push_bit (outbits - bits) val AND maxv)] else out)
         else if push_bit (outbits - bits) val AND maxv \<noteq> 0 \<or> inbits \<le> bits then None
         else Some out)"

definition cash_addr_to_data :: "u8 list \<Rightarrow> u8 list option" where
  "cash_addr_to_data data =
     (if length data < 2 \<or> 65 < length data then None else convert_bits 5 data 8 True)"

definition cash_data_to_addr :: "u8 list \<Rightarrow> u8 list option" where
  "cash_data_to_addr data =
     (if length data = 0 \<or> 104 < length data then None
      else (case convert_bits 8 data 5 False of
          None \<Rightarrow> None
        | Some w \<Rightarrow> if length w < 2 \<or> 65 < length w then None else Some w))"

definition cash_addr_encode :: "u8 list \<Rightarrow> u8 list \<Rightarrow> u8 list option" where
  "cash_addr_encode hrp data =
     cash_encode hrp (case cash_addr_to_data data of None \<Rightarrow> [] | Some base32 \<Rightarrow> base32)"

definition cash_addr_decode :: "u8 list \<Rightarrow> u8 list \<Rightarrow> u8 list option" where
  "cash_addr_decode hrp addr =
     (case cash_decode addr of
        None \<Rightarrow> None
      | Some (hrp_actual, data) \<Rightarrow> if take 21 hrp \<noteq> take 21 hrp_actual then None else cash_data_to_addr data)"

section \<open>The checksum is linear\<close>

lemma step_bits:
  "cashaddr_polymod_step pre = push_bit 5 (take_bit 35 pre)
     XOR (if bit pre 35 then 0x98f2bc8e61 else 0) XOR (if bit pre 36 then 0x79b76d99e2 else 0)
     XOR (if bit pre 37 then 0xf33e5fb3c4 else 0) XOR (if bit pre 38 then 0xae2eabe2a8 else 0)
     XOR (if bit pre 39 then 0x1e4f43e470 else 0)"
proof -
  have m: "pre AND 0x7FFFFFFFF = take_bit 35 pre"
    by (simp add: mask_numeral flip: and_mask_take_bit)
  have b: "bit (ucast (drop_bit 35 pre) :: u8) n \<longleftrightarrow> bit pre (35 + n)" if "n < 8" for n
    using that by (simp add: bit_simps)
  show ?thesis
    by (simp add: cashaddr_polymod_step_def Let_def m b)
qed

lemma sel_xor: "(if p \<noteq> q then c else 0) = (if p then c else 0) XOR (if q then c else (0 :: u64))"
  by auto

lemma step_xor: "cashaddr_polymod_step (x XOR y) = cashaddr_polymod_step x XOR cashaddr_polymod_step y"
  unfolding step_bits bit_xor_iff sel_xor take_bit_xor push_bit_xor
  by (simp only: xor.assoc xor.commute xor.left_commute)

lemma step_0 [simp]: "cashaddr_polymod_step 0 = 0"
  by (simp add: step_bits)

lemma step_lt: "uint (cashaddr_polymod_step x) < 2 ^ 40"
proof -
  have "take_bit 40 (push_bit 5 (take_bit 35 x)) = push_bit 5 (take_bit 35 x)"
    by (rule bit_word_eqI) (auto simp: bit_simps)
  then have "take_bit 40 (cashaddr_polymod_step x) = cashaddr_polymod_step x"
    unfolding step_bits take_bit_xor if_distrib[where f = "take_bit 40"] by simp
  then have "uint (cashaddr_polymod_step x) = uint (cashaddr_polymod_step x) mod 2 ^ 40"
    using uint_take_bit[of 40 "cashaddr_polymod_step x"] by simp
  then show ?thesis by (metis pos_mod_bound zero_less_numeral zero_less_power)
qed

lemma not_bit_small: "uint x < 2 ^ n \<Longrightarrow> n \<le> k \<Longrightarrow> \<not> bit x k" for x :: "'a::len word"
proof -
  assume "uint x < 2 ^ n" "n \<le> k"
  moreover have "(2 :: int) ^ n \<le> 2 ^ k" using \<open>n \<le> k\<close> by (intro power_increasing) simp_all
  ultimately have "uint x < 2 ^ k" by linarith
  then have "uint x div 2 ^ k = 0" by (simp add: div_pos_pos_trivial)
  then have "\<not> bit (uint x) k" by (simp add: bit_iff_odd)
  then show ?thesis by (auto simp: bit_uint_iff dest: bit_imp_le_length)
qed

lemma step_small: "uint x < 2 ^ 35 \<Longrightarrow> cashaddr_polymod_step x = push_bit 5 x"
proof -
  assume x: "uint x < 2 ^ 35"
  then have "take_bit 35 x = x"
    using uint_take_bit[of 35 x] by (simp add: word_uint_eq_iff)
  then show ?thesis using not_bit_small[OF x] by (simp add: step_bits)
qed

lemma chk_shift: "uint c < 2 ^ 35 \<Longrightarrow> uint v < 32 \<Longrightarrow> uint (chk_step c v) = 32 * uint c + uint v"
proof -
  assume c: "uint c < 2 ^ 35" and v: "uint v < 32"
  have "\<not> bit (ucast v :: u64) k" if "5 \<le> k" for k
    using not_bit_small[of "ucast v :: u64" 5 k] v that by (simp add: uint_ucast_up)
  then have "push_bit 5 c AND (ucast v :: u64) = 0"
    by (intro bit_word_eqI) (auto simp: bit_simps)
  then have "chk_step c v = push_bit 5 c + ucast v"
    unfolding chk_step_def step_small[OF c] by (simp add: disjunctive_xor_eq_or disjunctive_add_eq_or)
  moreover have "uint (push_bit 5 c) = uint c * 2 ^ 5"
    unfolding uint_push_bit using c by (intro mod_pos_pos_trivial) simp_all
  ultimately show ?thesis
    using c v by (simp add: uint_add_nowrap uint_ucast_up)
qed

lemma chk_symbols_small:
  "length vs \<le> 8 \<Longrightarrow> \<forall>v\<in>set vs. uint v < 32 \<Longrightarrow> uint (foldl chk_step 0 vs) = digits_val 32 (map uint vs)"
proof (induction vs rule: rev_induct)
  case (snoc v vs)
  have "uint (foldl chk_step 0 vs) = digits_val 32 (map uint vs)" using snoc by simp
  moreover have "digits_val 32 (map uint vs) < 32 ^ length vs"
    using digits_val_lt[of 32 "map uint vs"] snoc.prems by (simp add: digits_ok_def)
  moreover have "(32 :: int) ^ length vs \<le> 32 ^ 7" using snoc.prems by (intro power_increasing) simp_all
  ultimately show ?case using snoc.prems by (simp add: chk_shift)
qed simp

lemma chk_split: "foldl chk_step c vs = (cashaddr_polymod_step ^^ length vs) c XOR foldl chk_step 0 vs"
proof (induction vs rule: rev_induct)
  case (snoc v vs)
  have s: "chk_step x v = cashaddr_polymod_step x XOR ucast v" for x by (rule chk_step_def)
  show ?case
    unfolding foldl_append foldl.simps snoc.IH s step_xor length_append list.size add_0_right add_Suc_right funpow.simps o_def
    by (simp only: xor.assoc)
qed simp

text \<open>The eight symbols of the checksum bring the state to one.\<close>

definition chk_symbols :: "u64 \<Rightarrow> u8 list" where
  "chk_symbols chk = map (\<lambda>i. ucast (drop_bit ((7 - i) * 5) chk AND 0x1f)) [0..<8]"

lemma and_5bit: "w AND 0x1f = take_bit 5 w" for w :: "'a::len word"
  by (simp add: mask_numeral flip: and_mask_take_bit)

lemma uint_symbol: "uint (ucast (drop_bit k chk AND 0x1f) :: u8) = uint chk div 2 ^ k mod 32" for chk :: u64
  unfolding and_5bit by (simp add: uint_ucast uint_take_bit uint_drop_bit)

lemma chk_symbols_lt: "v \<in> set (chk_symbols chk) \<Longrightarrow> uint v < 32"
  by (auto simp: chk_symbols_def uint_symbol)

lemma chk_symbols_digits: "map uint (chk_symbols x) = map (\<lambda>i. uint x div 32 ^ (8 - 1 - i) mod 32) [0..<8]"
  by (auto simp: chk_symbols_def uint_symbol mult.commute[of _ 5] power_mult)

lemma chk_symbols_length [simp]: "length (chk_symbols x) = 8"
  by (simp add: chk_symbols_def)

lemma chk_symbols_fold:
  assumes "uint x < 2 ^ 40"
  shows "foldl chk_step 0 (chk_symbols x) = x"
proof -
  have "digits_val 32 (map uint (chk_symbols x)) = uint x mod 32 ^ 8"
    unfolding chk_symbols_digits using digits_of_number[of 32 "uint x" 8] by simp
  also have "\<dots> = uint x" using assms by simp
  finally have "uint (foldl chk_step 0 (chk_symbols x)) = uint x"
    using chk_symbols_small[of "chk_symbols x"] chk_symbols_lt by simp
  then show ?thesis by (simp add: word_uint_eq_iff)
qed

lemma mod_fixed: "x = x mod 2 ^ k \<Longrightarrow> x < 2 ^ k" for x :: int
  by (metis pos_mod_bound zero_less_numeral zero_less_power)

lemma checksum_verifies: "foldl chk_step c (chk_symbols ((cashaddr_polymod_step ^^ 8) c XOR 1)) = 1"
proof -
  define y where "y = (cashaddr_polymod_step ^^ 8) c"
  have "y = cashaddr_polymod_step ((cashaddr_polymod_step ^^ 7) c)" by (simp add: y_def eval_nat_numeral)
  then have "uint y < 2 ^ 40" by (simp only: step_lt)
  then have "take_bit 40 y = y"
    using uint_take_bit[of 40 y] by (simp add: word_uint_eq_iff)
  then have "take_bit 40 (y XOR 1) = y XOR 1" by (simp add: take_bit_xor)
  then have "uint (y XOR 1) = uint (y XOR 1) mod 2 ^ 40" using uint_take_bit[of 40 "y XOR 1"] by simp
  then have "uint (y XOR 1) < 2 ^ 40" by (rule mod_fixed)
  then have "foldl chk_step c (chk_symbols (y XOR 1)) = y XOR (y XOR 1)"
    unfolding chk_split[of c] by (simp only: chk_symbols_fold chk_symbols_length y_def)
  also have "\<dots> = 1" by (simp flip: xor.assoc)
  finally show ?thesis by (simp only: y_def)
qed

section \<open>Decoding what was encoded\<close>

lemma charset_facts:
  assumes "n < 32"
  shows "charset ! n AND 0x80 = 0 \<and> charset_rev ! unat (charset ! n) = int n \<and> charset ! n \<noteq> 58
     \<and> \<not> (65 \<le> sint (charset ! n) \<and> sint (charset ! n) \<le> 90)"
proof -
  have all: "\<forall>n\<in>set [0..<32]. charset ! n AND 0x80 = 0 \<and> charset_rev ! unat (charset ! n) = int n \<and> charset ! n \<noteq> 58
     \<and> \<not> (65 \<le> sint (charset ! n) \<and> sint (charset ! n) \<le> 90)"
    by code_simp
  have "n \<in> set [0..<32]" using assms by (simp only: set_upt atLeastLessThan_iff zero_le)
  then show ?thesis by (rule bspec[OF all])
qed

lemma unat_lt_32: "uint v < 32 \<Longrightarrow> unat v < 32"
  using uint_nat[of v] by linarith

lemma data_loop_charset:
  "\<forall>v\<in>set vs. uint v < 32 \<Longrightarrow>
   \<exists>lo'. data_loop (map (\<lambda>v. charset ! unat v) vs) chk lo False acc
     = Some (foldl chk_step chk vs, lo', False, acc @ take (length vs - 8) vs)"
proof (induction vs arbitrary: chk lo acc)
  case (Cons v vs)
  have v: "unat v < 32" "word_of_int (int (unat v)) = v"
    using Cons.prems by (simp_all add: unat_lt_32)
  have m1: "uint v \<noteq> - 1" using uint_ge_0[of v] by linarith
  let ?c = "charset ! unat v" and ?acc = "if 8 < Suc (length vs) then acc @ [v] else acc"
  have acc: "?acc @ take (length vs - 8) vs = acc @ take (length (v # vs) - 8) (v # vs)"
    by (cases "8 < Suc (length vs)") (simp_all add: take_Cons')
  obtain lo' where IH: "data_loop (map (\<lambda>v. charset ! unat v) vs) (chk_step chk v) (lo \<or> 97 \<le> sint ?c \<and> sint ?c \<le> 122) False ?acc
      = Some (foldl chk_step (chk_step chk v) vs, lo', False, ?acc @ take (length vs - 8) vs)"
    using Cons.IH Cons.prems by fastforce
  have "data_loop (map (\<lambda>v. charset ! unat v) (v # vs)) chk lo False acc
      = data_loop (map (\<lambda>v. charset ! unat v) vs) (chk_step chk v) (lo \<or> 97 \<le> sint ?c \<and> sint ?c \<le> 122) False ?acc"
    using charset_facts[OF v(1)] v(2) m1 by (cases "65 \<le> sint ?c") (simp_all add: Let_def)
  then show ?case unfolding IH acc by auto
qed simp

definition valid_prefix :: "u8 list \<Rightarrow> bool" where
  "valid_prefix hrp \<longleftrightarrow> hrp \<noteq> [] \<and> length hrp \<le> 20
     \<and> (\<forall>c\<in>set hrp. 33 \<le> sint c \<and> sint c \<le> 126 \<and> \<not> (65 \<le> sint c \<and> sint c \<le> 90))"

lemma hrp_loop_lower:
  "\<forall>c\<in>set hrp. 33 \<le> sint c \<and> sint c \<le> 126 \<and> \<not> (65 \<le> sint c \<and> sint c \<le> 90) \<Longrightarrow>
   \<exists>lo'. hrp_loop hrp chk lo False acc
     = Some (foldl (\<lambda>chk ch. chk_step chk (ch AND 0x1f)) chk hrp, lo', False, acc @ hrp)"
proof (induction hrp arbitrary: chk lo acc)
  case (Cons c hrp)
  from Cons.prems have c: "\<not> (sint c < 33 \<or> 126 < sint c)" "\<not> (65 \<le> sint c \<and> sint c \<le> 90)" by auto
  obtain lo' where "hrp_loop hrp (chk_step chk (c AND 0x1f)) (lo \<or> 97 \<le> sint c \<and> sint c \<le> 122) False (acc @ [c])
      = Some (foldl (\<lambda>chk ch. chk_step chk (ch AND 0x1f)) (chk_step chk (c AND 0x1f)) hrp, lo', False, (acc @ [c]) @ hrp)"
    using Cons.IH Cons.prems by fastforce
  with c show ?case by (cases "65 \<le> sint c") (simp_all add: Let_def)
qed simp

text \<open>The symbol string after the colon: the data and the checksum.\<close>

definition cash_symbols :: "u8 list \<Rightarrow> u8 list \<Rightarrow> u8 list" where
  "cash_symbols hrp data =
     data @ chk_symbols ((cashaddr_polymod_step ^^ 8) (foldl chk_step (cashaddr_polymod_step
        (foldl (\<lambda>chk ch. chk_step chk (ch AND 0x1f)) 1 hrp)) data) XOR 1)"

lemma cash_symbols_lt:
  "\<forall>v\<in>set data. uint v < 32 \<Longrightarrow> \<forall>v\<in>set (cash_symbols hrp data). uint v < 32"
  using chk_symbols_lt by (auto simp: cash_symbols_def)

lemma drop_bit_5_0: "drop_bit 5 v = 0 \<longleftrightarrow> uint v < 32" for v :: "'a::len word"
  using uint_ge_0[of v] by (auto simp: word_uint_eq_iff uint_drop_bit zdiv_eq_0_iff)

lemma cash_encode_symbols:
  assumes "\<forall>v\<in>set data. uint v < 32" "valid_prefix hrp" "length data \<le> 104" "length hrp + length data \<le> 120"
  shows "cash_encode hrp data = Some (hrp @ [58] @ map (\<lambda>v. charset ! unat v) (cash_symbols hrp data))"
proof -
  have "\<not> (\<exists>ch\<in>set hrp. sint ch < 33 \<or> 126 < sint ch)"
    using assms(2) by (auto simp: valid_prefix_def)
  moreover have "\<not> (\<exists>v\<in>set data. drop_bit 5 v \<noteq> 0)"
    using assms(1) by (simp add: drop_bit_5_0)
  moreover have "map (\<lambda>i. charset ! unat (drop_bit ((7 - i) * 5) chk AND 0x1f)) [0..<8]
      = map (\<lambda>v. charset ! unat v) (chk_symbols chk)" for chk
  proof -
    have "unat (ucast (drop_bit k chk AND 0x1f) :: u8) = unat (drop_bit k chk AND 0x1f)" for k
    proof -
      have "uint (drop_bit k chk AND 0x1f) < 32" unfolding and_5bit by (simp add: uint_take_bit)
      then show ?thesis by (simp add: uint_take_bit uint_drop_bit uint_ucast and_5bit flip: of_nat_eq_iff[where 'a = int])
    qed
    then show ?thesis by (simp add: chk_symbols_def)
  qed
  ultimately show ?thesis
    using assms(4) by (simp add: cash_encode_def Let_def cash_symbols_def del: upt_Suc)
qed

lemma takeWhile_rev_symbols:
  assumes "\<forall>v\<in>set vs. uint v < 32"
  shows "takeWhile (\<lambda>c. c \<noteq> 58) (rev (hrp @ [58] @ map (\<lambda>v. charset ! unat v) vs)) = rev (map (\<lambda>v. charset ! unat v) vs)"
proof -
  define ys where "ys = rev (map (\<lambda>v. charset ! unat v) vs)"
  have "\<forall>c\<in>set ys. c \<noteq> 58"
    using assms charset_facts[OF unat_lt_32] by (auto simp: ys_def)
  moreover have "rev (hrp @ [58] @ map (\<lambda>v. charset ! unat v) vs) = ys @ 58 # rev hrp" by (simp add: ys_def)
  ultimately show ?thesis unfolding ys_def[symmetric] by (simp add: takeWhile_append2)
qed

theorem cash_decode_encoded:
  assumes "\<forall>v\<in>set data. uint v < 32" "valid_prefix hrp" "length data \<le> 104" "length hrp + length data \<le> 120"
  shows "cash_decode (hrp @ [58] @ map (\<lambda>v. charset ! unat v) (cash_symbols hrp data)) = Some (hrp, data)"
proof -
  let ?vs = "cash_symbols hrp data" and ?c = "\<lambda>v. charset ! unat v"
  have lt: "\<forall>v\<in>set ?vs. uint v < 32" using cash_symbols_lt[OF assms(1)] .
  have len: "length ?vs = length data + 8" by (simp add: cash_symbols_def)
  have dl: "length (takeWhile (\<lambda>c. c \<noteq> 58) (rev (hrp @ [58] @ map ?c ?vs))) = length data + 8"
    unfolding takeWhile_rev_symbols[OF lt] using len by simp
  have hl: "length (hrp @ [58] @ map ?c ?vs) - (1 + (length data + 8)) = length hrp" using len by simp
  obtain lo where h: "hrp_loop hrp 1 False False []
      = Some (foldl (\<lambda>chk ch. chk_step chk (ch AND 0x1f)) 1 hrp, lo, False, hrp)"
    using hrp_loop_lower[of hrp 1 False "[]"] assms(2) by (auto simp: valid_prefix_def)
  let ?k = "cashaddr_polymod_step (foldl (\<lambda>chk ch. chk_step chk (ch AND 0x1f)) 1 hrp)"
  obtain lo' where d: "data_loop (map ?c ?vs) ?k lo False [] = Some (foldl chk_step ?k ?vs, lo', False, take (length ?vs - 8) ?vs)"
    using data_loop_charset[OF lt, of ?k lo "[]"] by auto
  have one: "foldl chk_step ?k ?vs = 1"
    unfolding cash_symbols_def foldl_append by (rule checksum_verifies)
  have take: "take (length data) ?vs = data" by (simp add: cash_symbols_def)
  have "1 \<le> length hrp" "length hrp \<le> 20" using assms(2) by (auto simp: valid_prefix_def Suc_le_eq)
  then show ?thesis
    unfolding cash_decode_def Let_def dl hl
    using assms(3,4) by (auto simp: h d one take len)
qed

section \<open>Regrouping bits\<close>

text \<open>
  The state of \<open>convert_bits\<close> after the digits that make the number \<open>N\<close>: the groups written are the
  digits of \<open>N\<close> without its lowest \<open>bits\<close> bits, and these are the low bits of \<open>val\<close>.
\<close>

definition regrouped :: "nat \<Rightarrow> int \<Rightarrow> u32 \<Rightarrow> nat \<Rightarrow> u8 list \<Rightarrow> bool" where
  "regrouped outbits N val bits out \<longleftrightarrow>
     uint val mod 2 ^ bits = N mod 2 ^ bits
     \<and> digits_val (2 ^ outbits) (map uint out) = N div 2 ^ bits
     \<and> digits_ok (2 ^ outbits) (map uint out)"

lemma decr_mask: "push_bit n 1 - 1 = (mask n :: 'a::len word)"
  by (simp add: mask_eq_exp_minus_1)

lemma mod_div_split: "N div 2 ^ b mod 2 ^ k + (N div 2 ^ (b + k)) * 2 ^ k = N div 2 ^ b" for N :: int
  by (simp add: power_add zdiv_zmult2_eq mod_div_mult_eq)

lemma mod_mod_le_pow: "k \<le> m \<Longrightarrow> v mod 2 ^ k mod 2 ^ m = v mod 2 ^ k" for v :: int
  by (simp add: min_absorb2 flip: take_bit_eq_mod)

lemma mod_div_mod: "(v mod 2 ^ (b + k)) div 2 ^ b = v div 2 ^ b mod 2 ^ k" for v :: int
  by (simp flip: take_bit_eq_mod drop_bit_eq_div add: drop_bit_take_bit)

lemma mod_mod_le: "(v mod 2 ^ (b + k)) mod 2 ^ b = v mod 2 ^ b" for v :: int
  by (simp add: mod_mod_cancel le_imp_power_dvd)

lemma emit_bits_regrouped:
  assumes "0 < outbits" "outbits \<le> 8" "bits \<le> 32" "regrouped outbits N val bits out"
  shows "\<exists>k bits' out'. emit_bits outbits (mask outbits) val bits out = (bits', out') \<and> bits' < outbits
     \<and> bits' + outbits * k = bits \<and> length out' = length out + k \<and> regrouped outbits N val bits' out'"
  using assms(3,4)
proof (induction bits arbitrary: out rule: less_induct)
  case (less bits)
  show ?case
  proof (cases "outbits \<le> bits")
    case True
    define b where "b = bits - outbits"
    have bits: "bits = b + outbits" using True by (simp add: b_def)
    let ?w = "ucast (drop_bit b val AND mask outbits) :: u8"
    have m: "uint val mod 2 ^ (b + outbits) = N mod 2 ^ (b + outbits)"
      and dv: "digits_val (2 ^ outbits) (map uint out) = N div 2 ^ (b + outbits)"
      and ok: "digits_ok (2 ^ outbits) (map uint out)"
      using less.prems(2) by (simp_all add: regrouped_def bits)
    have "uint ?w = uint val div 2 ^ b mod 2 ^ outbits"
      using assms(2) by (simp add: and_mask_take_bit uint_ucast uint_take_bit uint_drop_bit mod_mod_le_pow[of outbits 8, simplified])
    also have "\<dots> = N div 2 ^ b mod 2 ^ outbits" unfolding mod_div_mod[symmetric] m ..
    finally have w: "uint ?w = N div 2 ^ b mod 2 ^ outbits" .
    have mb: "uint val mod 2 ^ b = N mod 2 ^ b"
      using arg_cong[OF m, of "\<lambda>v. v mod 2 ^ b"] unfolding mod_mod_le .
    have "regrouped outbits N val b (out @ [?w])"
      using mb dv ok mod_div_split[of N b outbits]
      by (simp add: regrouped_def w mod_mod_le mult.commute)
    moreover have "b < bits" "b \<le> 32" using assms(1) less.prems(1) by (simp_all add: bits)
    ultimately obtain k bits' out' where "emit_bits outbits (mask outbits) val b (out @ [?w]) = (bits', out')"
      "bits' < outbits" "bits' + outbits * k = b" "length out' = length (out @ [?w]) + k" "regrouped outbits N val bits' out'"
      using less.IH by metis
    then show ?thesis
      using assms(1) True by (intro exI[of _ "Suc k"] exI[of _ bits'] exI[of _ out'])
        (subst emit_bits.simps, simp add: bits)
  next
    case False
    then show ?thesis using less.prems assms(1)
      by (intro exI[of _ 0] exI[of _ bits] exI[of _ out]) (subst emit_bits.simps, simp)
  qed
qed

lemma regrouped_push:
  fixes x :: u8
  assumes "regrouped outbits N val bits out" "bits \<le> 8" "0 < inbits" "inbits \<le> 8" "uint x < 2 ^ inbits"
  shows "regrouped outbits (N * 2 ^ inbits + uint x) (push_bit inbits val OR ucast x) (bits + inbits) out"
proof -
  have x: "uint (ucast x :: u32) = uint x" by (simp add: uint_ucast_up)
  have "push_bit inbits val AND (ucast x :: u32) = 0"
    by (intro bit_word_eqI) (use not_bit_small[of "ucast x :: u32" inbits] assms(5) x in \<open>auto simp: bit_simps\<close>)
  then have "push_bit inbits val OR (ucast x :: u32) = push_bit inbits val + ucast x"
    by (simp add: disjunctive_add_eq_or)
  then have "uint (push_bit inbits val OR (ucast x :: u32)) = (uint val * 2 ^ inbits mod 2 ^ 32 + uint x) mod 2 ^ 32"
    by (simp add: uint_word_ariths x uint_push_bit)
  then have u: "uint (push_bit inbits val OR (ucast x :: u32)) = (uint val * 2 ^ inbits + uint x) mod 2 ^ 32"
    by (simp add: mod_simps)
  have "(2 :: int) ^ (bits + inbits) dvd 2 ^ 32" using assms by (intro le_imp_power_dvd) simp
  then have "uint (push_bit inbits val OR (ucast x :: u32)) mod 2 ^ (bits + inbits)
      = (uint val * 2 ^ inbits + uint x) mod 2 ^ (bits + inbits)"
    unfolding u by (rule mod_mod_cancel)
  also have "\<dots> = (uint val * 2 ^ inbits mod 2 ^ (bits + inbits) + uint x) mod 2 ^ (bits + inbits)" by (simp add: mod_simps)
  also have "uint val * 2 ^ inbits mod 2 ^ (bits + inbits) = (uint val mod 2 ^ bits) * 2 ^ inbits"
    by (simp add: power_add mult_mod_left)
  also have "uint val mod 2 ^ bits = N mod 2 ^ bits" using assms(1) by (simp add: regrouped_def)
  also have "N mod 2 ^ bits * 2 ^ inbits = N * 2 ^ inbits mod 2 ^ (bits + inbits)" by (simp add: power_add mult_mod_left)
  finally have v: "uint (push_bit inbits val OR (ucast x :: u32)) mod 2 ^ (bits + inbits)
      = (N * 2 ^ inbits + uint x) mod 2 ^ (bits + inbits)" by (simp add: mod_simps)
  have "(N * 2 ^ inbits + uint x) div 2 ^ inbits = N" using assms(5) by (simp add: div_pos_pos_trivial)
  then have "(N * 2 ^ inbits + uint x) div 2 ^ (bits + inbits) = N div 2 ^ bits"
    by (metis add.commute power_add zdiv_zmult2_eq zero_le_numeral zero_le_power)
  then show ?thesis using assms(1) v by (simp add: regrouped_def)
qed

lemma convert_loop_regrouped:
  assumes "0 < outbits" "outbits \<le> 8" "0 < inbits" "inbits \<le> 8"
    and "bits < outbits" "regrouped outbits N val bits out" "digits_ok (2 ^ inbits) (map uint xs)"
  shows "\<exists>val' bits' out'. convert_loop outbits inbits (mask outbits) xs val bits out = (val', bits', out')
     \<and> bits' < outbits \<and> bits' + outbits * length out' = bits + outbits * length out + inbits * length xs
     \<and> regrouped outbits (N * 2 ^ (inbits * length xs) + digits_val (2 ^ inbits) (map uint xs)) val' bits' out'"
  using assms(5-7)
proof (induction xs arbitrary: N val bits out)
  case (Cons x xs)
  let ?val = "push_bit inbits val OR ucast x"
  have "regrouped outbits (N * 2 ^ inbits + uint x) ?val (bits + inbits) out"
    using assms(2-4) Cons.prems by (intro regrouped_push) simp_all
  then obtain k bits' out' where e: "emit_bits outbits (mask outbits) ?val (bits + inbits) out = (bits', out')"
      "bits' < outbits" "bits' + outbits * k = bits + inbits" "length out' = length out + k"
      "regrouped outbits (N * 2 ^ inbits + uint x) ?val bits' out'"
    using emit_bits_regrouped[OF assms(1,2), of "bits + inbits"] assms(2,4) Cons.prems(1) by fastforce
  have ok: "digits_ok (2 ^ inbits) (map uint xs)" using Cons.prems(3) by simp
  have eq: "(N * 2 ^ inbits + uint x) * 2 ^ (inbits * length xs) + digits_val (2 ^ inbits) (map uint xs)
      = N * 2 ^ (inbits * length (x # xs)) + digits_val (2 ^ inbits) (map uint (x # xs))"
    by (simp add: digits_val_Cons power_add power_mult algebra_simps)
  have len: "bits' + outbits * length out' + inbits * length xs = bits + outbits * length out + inbits * length (x # xs)"
    using e(3,4) by (simp add: algebra_simps)
  show ?case
    using Cons.IH[OF e(2) e(5) ok] unfolding eq len
    by (simp add: Let_def e(1))
qed (use assms in simp)

text \<open>The bytes of an address as 5-bit symbols, the last one padded with zeros, and back.\<close>

lemma uint_ucast_mask: "ob \<le> 8 \<Longrightarrow> uint (ucast (push_bit k val AND mask ob) :: u8) = uint val * 2 ^ k mod 2 ^ ob"
  for val :: u32
proof -
  assume "ob \<le> 8"
  moreover have "uint (push_bit k val AND mask ob) = uint val * 2 ^ k mod 2 ^ 32 mod 2 ^ ob"
    by (simp add: and_mask_take_bit uint_take_bit uint_push_bit)
  moreover have "(2 :: int) ^ ob dvd 2 ^ 32" using \<open>ob \<le> 8\<close> by (intro le_imp_power_dvd) simp
  ultimately show ?thesis by (simp add: uint_ucast mod_mod_cancel mod_mod_le_pow[of ob 8, simplified])
qed

lemma mod_shift_eq: "v mod 2 ^ b = N mod 2 ^ b \<Longrightarrow> b \<le> k \<Longrightarrow> v * 2 ^ (k - b) mod 2 ^ k = N * 2 ^ (k - b) mod 2 ^ k"
  for v N :: int
proof -
  assume a: "v mod 2 ^ b = N mod 2 ^ b" "b \<le> k"
  then have k: "(2 :: int) ^ k = 2 ^ b * 2 ^ (k - b)" by (simp flip: power_add)
  show ?thesis unfolding k by (simp add: a(1) flip: mult_mod_left)
qed

lemma digits_ok_bytes: "digits_ok 256 (map uint (bs :: u8 list))"
proof -
  have "uint b < 256" for b :: u8 using unsigned_less[of b] by simp
  then show ?thesis by (simp add: digits_ok_def)
qed

lemma cash_addr_to_data_value:
  assumes "2 \<le> length data" "length data \<le> 65"
  shows "\<exists>w p. cash_addr_to_data data = Some w \<and> p < 5 \<and> 5 * length w = 8 * length data + p
     \<and> digits_ok 32 (map uint w) \<and> digits_val 32 (map uint w) = be_val data * 2 ^ p"
proof -
  have ok: "digits_ok (2 ^ 8) (map uint data)" using digits_ok_bytes[of data] by simp
  have r0: "regrouped 5 0 0 0 []" by (simp add: regrouped_def)
  obtain val bits out where c: "convert_loop 5 8 (mask 5) data 0 0 [] = (val, bits, out)"
      and b: "bits < 5" "bits + 5 * length out = 8 * length data" and r: "regrouped 5 (be_val data) val bits out"
    using convert_loop_regrouped[OF _ _ _ _ _ r0 ok] by (auto simp: be_val_digits)
  have o: "digits_ok 32 (map uint out)" "digits_val 32 (map uint out) = be_val data div 2 ^ bits"
      and v: "uint val mod 2 ^ bits = be_val data mod 2 ^ bits"
    using r by (simp_all add: regrouped_def)
  show ?thesis
  proof (cases "bits = 0")
    case True
    then have "convert_bits 5 data 8 True = Some out"
      unfolding convert_bits_def Let_def decr_mask c by simp
    then have "cash_addr_to_data data = Some out" using assms by (simp add: cash_addr_to_data_def)
    then show ?thesis using b o True by (intro exI[of _ out] exI[of _ 0]) simp
  next
    case False
    define p where "p = 5 - bits"
    let ?w = "ucast (push_bit p val AND mask 5) :: u8"
    have "convert_bits 5 data 8 True = Some (out @ [?w])"
      unfolding convert_bits_def Let_def decr_mask c p_def using False by simp
    then have "cash_addr_to_data data = Some (out @ [?w])" using assms by (simp add: cash_addr_to_data_def)
    moreover have w: "uint ?w = be_val data mod 2 ^ bits * 2 ^ p"
    proof -
      have "uint ?w = be_val data * 2 ^ p mod 2 ^ 5"
        unfolding uint_ucast_mask[of 5, simplified] p_def using mod_shift_eq[OF v, of 5] b(1) by simp
      also have "(2 :: int) ^ 5 = 2 ^ bits * 2 ^ p" using b(1) by (simp add: p_def flip: power_add)
      finally show ?thesis by (simp flip: mult_mod_left)
    qed
    moreover have "32 * (be_val data div 2 ^ bits) + be_val data mod 2 ^ bits * 2 ^ p = be_val data * 2 ^ p"
    proof -
      have t: "(32 :: int) = 2 ^ bits * 2 ^ p" using b(1) by (simp add: p_def flip: power_add)
      have "32 * q + r * 2 ^ p = (q * 2 ^ bits + r) * 2 ^ p" for q r :: int unfolding t by (simp add: algebra_simps)
      then have "32 * (be_val data div 2 ^ bits) + be_val data mod 2 ^ bits * 2 ^ p
          = (be_val data div 2 ^ bits * 2 ^ bits + be_val data mod 2 ^ bits) * 2 ^ p" .
      also have "be_val data div 2 ^ bits * 2 ^ bits + be_val data mod 2 ^ bits = be_val data" by (rule div_mult_mod_eq)
      finally show ?thesis .
    qed
    moreover have "uint ?w < 32"
      using uint_ucast_mask[of 5 p val] by simp
    ultimately show ?thesis using b o False
      by (intro exI[of _ "out @ [?w]"] exI[of _ p]) (simp add: p_def)
  qed
qed

lemma cash_data_to_addr_symbols:
  assumes "2 \<le> length data" "length data \<le> 65" "p < 5" "5 * length w = 8 * length data + p"
    and "digits_ok 32 (map uint w)" "digits_val 32 (map uint w) = be_val data * 2 ^ p"
  shows "cash_data_to_addr w = Some data"
proof -
  have ok: "digits_ok (2 ^ 5) (map uint w)" using assms(5) by simp
  have r0: "regrouped 8 0 0 0 []" by (simp add: regrouped_def)
  obtain val bits out where c: "convert_loop 8 5 (mask 8) w 0 0 [] = (val, bits, out)"
      and b: "bits < 8" "bits + 8 * length out = 5 * length w" and r: "regrouped 8 (be_val data * 2 ^ p) val bits out"
    using convert_loop_regrouped[OF _ _ _ _ _ r0 ok] assms(6) by auto
  have s: "bits + 8 * length out = p + 8 * length data" using b(2) assms(4) by simp
  have "bits = p" using arg_cong[OF s, of "\<lambda>n. n mod 8"] b(1) assms(3) by simp
  then have "length out = length data" using s by simp
  have "be_val out = be_val data" using r by (simp add: regrouped_def \<open>bits = p\<close> be_val_digits)
  then have out: "out = data" using \<open>length out = length data\<close> by (intro be_val_inj)
  have v: "uint val mod 2 ^ p = 0 mod 2 ^ p" using r by (simp add: regrouped_def \<open>bits = p\<close>)
  have "uint (ucast (push_bit (8 - p) val AND mask 8) :: u8) = 0"
    unfolding uint_ucast_mask[of 8, simplified] using mod_shift_eq[OF v, of 8] assms(3) by simp
  moreover have "uint (ucast (push_bit (8 - p) val AND mask 8) :: u8) = uint (push_bit (8 - p) val AND mask 8)"
    by (simp add: and_mask_take_bit uint_take_bit uint_ucast)
  ultimately have z: "push_bit (8 - p) val AND mask 8 = 0" by (simp add: word_uint_eq_iff)
  have "\<not> 5 \<le> p" using assms(3) by simp
  with c have "convert_bits 8 w 5 False = Some data"
    unfolding convert_bits_def Let_def decr_mask \<open>bits = p\<close> out by (simp only: prod.case z) simp
  moreover have "length w \<noteq> 0" "length w \<le> 104" using assms(1-4) by linarith+
  ultimately show ?thesis
    using assms(1,2) by (simp add: cash_data_to_addr_def)
qed

theorem cash_addr_decode_encoded:
  assumes "valid_prefix hrp" "2 \<le> length data" "length data \<le> 65" "length hrp + (8 * length data + 4) div 5 \<le> 120"
  shows "\<exists>addr. cash_addr_encode hrp data = Some addr \<and> cash_addr_decode hrp addr = Some data"
proof -
  obtain w p where w: "cash_addr_to_data data = Some w" "p < 5" "5 * length w = 8 * length data + p"
     "digits_ok 32 (map uint w)" "digits_val 32 (map uint w) = be_val data * 2 ^ p"
    using cash_addr_to_data_value[OF assms(2,3)] by auto
  have lt: "\<forall>v\<in>set w. uint v < 32" using w(4) by (auto simp: digits_ok_def)
  have "length w = (8 * length data + 4) div 5" using w(2,3) by linarith
  then have len: "length w \<le> 104" "length hrp + length w \<le> 120" using assms(3,4) by simp_all
  show ?thesis
    using cash_encode_symbols[OF lt assms(1) len] cash_decode_encoded[OF lt assms(1) len]
      cash_data_to_addr_symbols[OF assms(2,3) w(2-5)]
    by (simp add: cash_addr_encode_def cash_addr_decode_def w(1))
qed

text \<open>An unusable payload is not rejected.\<close>

lemma cash_addr_encode_unusable:
  assumes "length data < 2 \<or> 65 < length data"
  shows "cash_addr_encode hrp data = cash_encode hrp []"
  using assms by (simp add: cash_addr_encode_def cash_addr_to_data_def)

end
