(* ===== verification/HashStream.thy ===== *)
theory HashStream
  imports Prelude
begin

text \<open>
  What the hash functions share: a memory buffer of bytes read as little-endian host words, the
  absorption of a message block by block, and the streaming interface as the three SHA variants of
  \<open>trezor-crypto/src/sha2.c\<close> implement it. The parameters in which the variants differ form a
  record; the C file repeats the same code for each of them.
\<close>

unbundle bit_operations_syntax

section \<open>Words in memory\<close>

definition be_word :: "u8 list \<Rightarrow> 'a::len word" where
  "be_word bs = foldl (\<lambda>w b. push_bit 8 w OR ucast b) 0 bs"

definition le_word :: "u8 list \<Rightarrow> 'a::len word" where
  "le_word bs = be_word (rev bs)"

definition word_le :: "nat \<Rightarrow> 'a::len word \<Rightarrow> u8 list" where
  "word_le k w = map (\<lambda>i. ucast (drop_bit (8 * i) w)) [0..<k]"

definition word_be :: "nat \<Rightarrow> 'a::len word \<Rightarrow> u8 list" where
  "word_be k w = rev (word_le k w)"

text \<open>The words of a memory area, and the area that holds a list of words.\<close>

definition chunk_list :: "nat \<Rightarrow> 'b list \<Rightarrow> 'b list list" where
  "chunk_list k bs = map (\<lambda>i. take k (drop (k * i) bs)) [0..<length bs div k]"

definition le_words :: "nat \<Rightarrow> u8 list \<Rightarrow> 'a::len word list" where
  "le_words k bs = map le_word (chunk_list k bs)"

definition be_words :: "nat \<Rightarrow> u8 list \<Rightarrow> 'a::len word list" where
  "be_words k bs = map be_word (chunk_list k bs)"

definition words_le :: "nat \<Rightarrow> 'a::len word list \<Rightarrow> u8 list" where
  "words_le k ws = concat (map (word_le k) ws)"

definition words_be :: "nat \<Rightarrow> 'a::len word list \<Rightarrow> u8 list" where
  "words_be k ws = concat (map (word_be k) ws)"

lemma length_word_le [simp]: "length (word_le k w) = k"
  by (simp add: word_le_def)

lemma length_word_be [simp]: "length (word_be k w) = k"
  by (simp add: word_be_def)

lemma length_words_le [simp]: "length (words_le k ws) = k * length ws"
  by (induction ws) (simp_all add: words_le_def)

lemma length_words_be [simp]: "length (words_be k ws) = k * length ws"
  by (induction ws) (simp_all add: words_be_def)

lemma be_word_Nil [simp]: "be_word [] = 0"
  by (simp add: be_word_def)

lemma be_word_snoc [simp]: "be_word (bs @ [b]) = push_bit 8 (be_word bs) OR ucast b"
  by (simp add: be_word_def)

lemma bit_be_word:
  "bit (be_word bs :: 'a::len word) n \<longleftrightarrow> n < LENGTH('a) \<and> n < 8 * length bs \<and> bit (rev bs ! (n div 8)) (n mod 8)"
proof (induction bs arbitrary: n rule: rev_induct)
  case (snoc b bs)
  show ?case
  proof (cases "n < 8")
    case True
    then show ?thesis by (auto simp: bit_simps)
  next
    case False
    then obtain m where n: "n = m + 8" by (metis add.commute le_add_diff_inverse2 not_less)
    have d: "n div 8 = Suc (m div 8)" "n mod 8 = m mod 8" by (simp_all add: n)
    have "bit (be_word (bs @ [b]) :: 'a word) n \<longleftrightarrow> n < LENGTH('a) \<and> bit (be_word bs :: 'a word) m"
      using bit_imp_le_length[of b n] False by (auto simp: bit_simps n)
    then show ?thesis unfolding snoc.IH d by (auto simp: n)
  qed
qed simp

lemma bit_word_le_nth: "i < k \<Longrightarrow> bit (word_le k w ! i) n \<longleftrightarrow> n < 8 \<and> bit w (8 * i + n)"
  by (auto simp: word_le_def bit_simps)

lemma word_le_le_word:
  assumes "LENGTH('a) = 8 * length bs"
  shows "word_le (length bs) (le_word bs :: 'a::len word) = bs"
proof (rule nth_equalityI)
  fix i assume "i < length (word_le (length bs) (le_word bs :: 'a word))"
  then have i: "i < length bs" by simp
  show "word_le (length bs) (le_word bs :: 'a word) ! i = bs ! i"
  proof (rule bit_word_eqI)
    fix n assume "n < LENGTH(8)"
    then have n: "n < 8" by simp
    then have "8 * i + n < 8 * length bs" using i by simp
    then show "bit (word_le (length bs) (le_word bs :: 'a word) ! i) n = bit (bs ! i) n"
      using i n assms by (simp add: bit_word_le_nth le_word_def bit_be_word)
  qed
qed simp

lemma le_word_word_le:
  assumes "LENGTH('a) = 8 * k"
  shows "le_word (word_le k (w :: 'a::len word)) = w"
proof (rule bit_word_eqI)
  fix n assume n: "n < LENGTH('a)"
  then have "n div 8 < k" using assms by (simp add: less_mult_imp_div_less mult.commute)
  then show "bit (le_word (word_le k w) :: 'a word) n = bit w n"
    using n assms by (simp add: le_word_def bit_be_word bit_word_le_nth)
qed

lemma word_le_be_word:
  assumes "LENGTH('a) = 8 * length bs"
  shows "word_le (length bs) (be_word bs :: 'a::len word) = rev bs"
  using word_le_le_word[of "rev bs", where 'a = 'a] assms by (simp add: le_word_def)

lemma length_chunk_list [simp]: "length (chunk_list k bs) = length bs div k"
  by (simp add: chunk_list_def)

lemma chunk_list_empty [simp]: "chunk_list k [] = []"
  by (simp add: chunk_list_def)

lemma chunk_list_Nil [simp]: "length bs < k \<Longrightarrow> chunk_list k bs = []"
  by (simp add: chunk_list_def)

lemma chunk_list_step: "0 < k \<Longrightarrow> k \<le> length bs \<Longrightarrow> chunk_list k bs = take k bs # chunk_list k (drop k bs)"
proof -
  assume k: "0 < k" "k \<le> length bs"
  then have "length bs div k = Suc ((length bs - k) div k)"
    by (simp add: le_div_geq)
  then show ?thesis
    by (simp add: chunk_list_def upt_conv_Cons map_Suc_upt[symmetric] add.commute del: upt_Suc)
qed

lemma chunk_list_append: "length b = k \<Longrightarrow> 0 < k \<Longrightarrow> chunk_list k (b @ bs) = b # chunk_list k bs"
  by (subst chunk_list_step) simp_all

lemma le_words_words_le:
  assumes "LENGTH('a) = 8 * k" and "0 < k"
  shows "le_words k (words_le k (ws :: 'a::len word list)) = ws"
proof (induction ws)
  case (Cons w ws)
  have "(le_words k (words_le k (w # ws)) :: 'a word list) = le_word (word_le k w) # le_words k (words_le k ws)"
    using assms(2) by (simp add: le_words_def words_le_def chunk_list_append)
  then show ?case using Cons le_word_word_le[OF assms(1)] by simp
qed (use assms in \<open>simp add: le_words_def words_le_def\<close>)

lemma words_be_append [simp]: "words_be k (xs @ ys) = words_be k xs @ words_be k ys"
  by (simp add: words_be_def)

lemma words_le_append [simp]: "words_le k (xs @ ys) = words_le k xs @ words_le k ys"
  by (simp add: words_le_def)

section \<open>Absorbing a message\<close>

text \<open>The state after the full blocks of a message, and the bytes that are left.\<close>

fun absorb :: "('s \<Rightarrow> 'b list \<Rightarrow> 's) \<Rightarrow> nat \<Rightarrow> 's \<Rightarrow> 'b list \<Rightarrow> 's \<times> 'b list" where
  "absorb f B s msg = (if 0 < B \<and> B \<le> length msg then absorb f B (f s (take B msg)) (drop B msg) else (s, msg))"

declare absorb.simps [simp del]

lemma absorb_short [simp]: "length msg < B \<Longrightarrow> absorb f B s msg = (s, msg)"
  by (simp add: absorb.simps)

lemma absorb_block: "length b = B \<Longrightarrow> 0 < B \<Longrightarrow> absorb f B s (b @ msg) = absorb f B (f s b) msg"
  by (subst absorb.simps) simp

lemma absorb_one: "length b = B \<Longrightarrow> 0 < B \<Longrightarrow> absorb f B s b = (f s b, [])"
  using absorb_block[of b B f s "[]"] by simp

lemma absorb_append:
  "absorb f B s (m @ d) = (let (s', r) = absorb f B s m in absorb f B s' (r @ d))"
proof (induction f B s m rule: absorb.induct)
  case (1 f B s msg)
  show ?case
  proof (cases "0 < B \<and> B \<le> length msg")
    case True
    then have "absorb f B s (msg @ d) = absorb f B (f s (take B msg)) (drop B msg @ d)"
      by (subst absorb.simps) simp
    also have "\<dots> = (let (s', r) = absorb f B s msg in absorb f B s' (r @ d))"
      using 1 True by (simp add: absorb.simps[of f B s msg])
    finally show ?thesis .
  next
    case False
    then have "absorb f B s msg = (s, msg)" by (simp only: absorb.simps[of f B s msg] if_False)
    then show ?thesis by simp
  qed
qed

lemma absorb_continue: "absorb f B s m = (s', r) \<Longrightarrow> absorb f B s (m @ d) = absorb f B s' (r @ d)"
  unfolding absorb_append[of f B s m d] by simp

lemma absorb_rest: "0 < B \<Longrightarrow> length (snd (absorb f B s msg)) = length msg mod B"
proof (induction f B s msg rule: absorb.induct)
  case (1 f B s msg)
  then show ?case by (subst absorb.simps) (auto simp: le_mod_geq)
qed

section \<open>The streaming interface\<close>

record ('w, 'c) sha_ctx =
  sha_state :: "'w list"
  bitcount :: 'c
  buffer :: "u8 list"

text \<open>
  What \<open>sha1\<close>, \<open>sha256\<close> and \<open>sha512\<close> differ in: block and word length, byte reversal, transform, and
  the bit counter: its low word, its increment, and the two words that end up in the last block.
\<close>

record ('w, 'c) sha_alg =
  block_len :: nat
  word_len :: nat
  reverse_word :: "'w \<Rightarrow> 'w"
  transform :: "'w list \<Rightarrow> 'w list \<Rightarrow> 'w list"
  count_low :: "'c \<Rightarrow> u64"
  count_add :: "'c \<Rightarrow> u64 \<Rightarrow> 'c"
  count_words :: "'c \<Rightarrow> 'w list"

text \<open>\<open>for (j < n) REVERSE(buffer[j], buffer[j])\<close>\<close>

definition reverse_buffer :: "('w::len word, 'c) sha_alg \<Rightarrow> nat \<Rightarrow> u8 list \<Rightarrow> u8 list" where
  "reverse_buffer alg n mem =
     words_le (word_len alg) (map (reverse_word alg) (le_words (word_len alg) (take (word_len alg * n) mem)))
       @ drop (word_len alg * n) mem"

definition transform_buffer :: "('w::len word, 'c) sha_alg \<Rightarrow> ('w word, 'c) sha_ctx \<Rightarrow> ('w word, 'c) sha_ctx" where
  "transform_buffer alg ctx =
     (let buf = reverse_buffer alg 16 (buffer ctx)
      in ctx\<lparr>buffer := buf, sha_state := transform alg (sha_state ctx) (le_words (word_len alg) buf)\<rparr>)"

definition memcpy_at :: "nat \<Rightarrow> u8 list \<Rightarrow> u8 list \<Rightarrow> u8 list" where
  "memcpy_at off data mem = take off mem @ data @ drop (off + length data) mem"

text \<open>\<open>while (len >= BLOCK_LENGTH)\<close>\<close>

fun sha_blocks :: "('w::len word, 'c) sha_alg \<Rightarrow> ('w word, 'c) sha_ctx \<Rightarrow> u8 list \<Rightarrow> ('w word, 'c) sha_ctx \<times> u8 list" where
  "sha_blocks alg ctx data =
     (if 0 < block_len alg \<and> block_len alg \<le> length data
      then (let ctx = ctx\<lparr>buffer := memcpy_at 0 (take (block_len alg) data) (buffer ctx)\<rparr>;
                ctx = transform_buffer alg ctx;
                ctx = ctx\<lparr>bitcount := count_add alg (bitcount ctx) (push_bit 3 (word_of_nat (block_len alg)))\<rparr>
            in sha_blocks alg ctx (drop (block_len alg) data))
      else (ctx, data))"

declare sha_blocks.simps [simp del]

definition sha_Update :: "('w::len word, 'c) sha_alg \<Rightarrow> ('w word, 'c) sha_ctx \<Rightarrow> u8 list \<Rightarrow> ('w word, 'c) sha_ctx" where
  "sha_Update alg ctx data =
     (let len = length data; add = (\<lambda>ctx n. ctx\<lparr>bitcount := count_add alg (bitcount ctx) (push_bit 3 (word_of_nat n))\<rparr>);
          rest = (\<lambda>ctx data. let (ctx, data) = sha_blocks alg ctx data
                   in if 0 < length data then add (ctx\<lparr>buffer := memcpy_at 0 data (buffer ctx)\<rparr>) (length data) else ctx)
      in if len = 0 then ctx
         else (let usedspace = unat (drop_bit 3 (count_low alg (bitcount ctx))) mod block_len alg
               in if 0 < usedspace
                  then (let freespace = block_len alg - usedspace
                        in if freespace \<le> len
                           then (let ctx = ctx\<lparr>buffer := memcpy_at usedspace (take freespace data) (buffer ctx)\<rparr>;
                                     ctx = add ctx freespace;
                                     ctx = transform_buffer alg ctx
                                 in rest ctx (drop freespace data))
                           else add (ctx\<lparr>buffer := memcpy_at usedspace data (buffer ctx)\<rparr>) len)
                  else rest ctx data))"

text \<open>The padding and the last transforms; \<open>SHORT_BLOCK_LENGTH\<close> leaves room for the counter.\<close>

definition short_block_len :: "('w, 'c) sha_alg \<Rightarrow> nat" where
  "short_block_len alg = block_len alg - 2 * word_len alg"

definition sha_Last :: "('w::len word, 'c) sha_alg \<Rightarrow> ('w word, 'c) sha_ctx \<Rightarrow> ('w word, 'c) sha_ctx" where
  "sha_Last alg ctx =
     (let usedspace = unat (drop_bit 3 (count_low alg (bitcount ctx))) mod block_len alg;
          ctx = ctx\<lparr>buffer := memcpy_at usedspace [0x80] (buffer ctx)\<rparr>;
          usedspace = usedspace + 1;
          (ctx, usedspace) =
            (if short_block_len alg < usedspace
             then (let ctx = ctx\<lparr>buffer := memcpy_at usedspace (replicate (block_len alg - usedspace) 0) (buffer ctx)\<rparr>;
                       ctx = transform_buffer alg ctx
                   in (ctx, 0))
             else (ctx, usedspace));
          ctx = ctx\<lparr>buffer := memcpy_at usedspace (replicate (short_block_len alg - usedspace) 0) (buffer ctx)\<rparr>;
          ctx = ctx\<lparr>buffer := reverse_buffer alg 14 (buffer ctx)\<rparr>;
          ctx = ctx\<lparr>buffer := memcpy_at (14 * word_len alg) (words_le (word_len alg) (count_words alg (bitcount ctx))) (buffer ctx)\<rparr>
      in ctx\<lparr>sha_state := transform alg (sha_state ctx) (le_words (word_len alg) (buffer ctx))\<rparr>)"

text \<open>The digest bytes: the state words, reversed in place, copied out.\<close>

definition sha_Final :: "('w::len word, 'c) sha_alg \<Rightarrow> ('w word, 'c) sha_ctx \<Rightarrow> u8 list" where
  "sha_Final alg ctx = words_le (word_len alg) (map (reverse_word alg) (sha_state (sha_Last alg ctx)))"

section \<open>The specification\<close>

text \<open>
  The padded message: a one bit, the least number of zero bytes, and the bit length as a big-endian
  number that fills two words. The digest is the big-endian form of the words after all blocks.
\<close>

definition be_bytes :: "nat \<Rightarrow> nat \<Rightarrow> u8 list" where
  "be_bytes n m = map (\<lambda>i. word_of_nat (m div 256 ^ (n - 1 - i))) [0..<n]"

definition sha_pad :: "nat \<Rightarrow> nat \<Rightarrow> u8 list \<Rightarrow> u8 list" where
  "sha_pad B lb msg = msg @ [0x80] @ replicate ((B - (length msg + 1 + lb) mod B) mod B) 0 @ be_bytes lb (8 * length msg)"

definition sha_step :: "('w::len word, 'c) sha_alg \<Rightarrow> 'w word list \<Rightarrow> u8 list \<Rightarrow> 'w word list" where
  "sha_step alg s b = transform alg s (be_words (word_len alg) b)"

definition sha_spec :: "('w::len word, 'c) sha_alg \<Rightarrow> 'w word list \<Rightarrow> u8 list \<Rightarrow> u8 list" where
  "sha_spec alg init msg =
     words_be (word_len alg) (fst (absorb (sha_step alg) (block_len alg) init (sha_pad (block_len alg) (2 * word_len alg) msg)))"

section \<open>The stream computes the digest of what was absorbed\<close>

text \<open>The context after \<open>msg\<close>: \<open>cnt\<close> is the counter after a number of bits.\<close>

definition absorbed :: "('w::len word, 'c) sha_alg \<Rightarrow> (nat \<Rightarrow> 'c) \<Rightarrow> 'w word list \<Rightarrow> ('w word, 'c) sha_ctx \<Rightarrow> u8 list \<Rightarrow> bool" where
  "absorbed alg cnt init ctx msg \<longleftrightarrow> length (buffer ctx) = block_len alg \<and> bitcount ctx = cnt (8 * length msg)
     \<and> absorb (sha_step alg) (block_len alg) init msg = (sha_state ctx, take (length msg mod block_len alg) (buffer ctx))"

lemma length_memcpy_at [simp]: "off + length data \<le> length mem \<Longrightarrow> length (memcpy_at off data mem) = length mem"
  by (simp add: memcpy_at_def)

lemma take_memcpy_at [simp]: "off + length data \<le> length mem \<Longrightarrow> take (off + length data) (memcpy_at off data mem) = take off mem @ data"
  by (simp add: memcpy_at_def)

lemma memcpy_at_full: "off + length data = length mem \<Longrightarrow> memcpy_at off data mem = take off mem @ data"
  by (simp add: memcpy_at_def)

lemma in_chunk_list: "c \<in> set (chunk_list k bs) \<Longrightarrow> length c = k"
proof -
  assume "c \<in> set (chunk_list k bs)"
  then obtain i where c: "c = take k (drop (k * i) bs)" and i: "i < length bs div k" by (auto simp: chunk_list_def)
  have "k * Suc i \<le> k * (length bs div k)" using i by (intro mult_le_mono2) simp
  also have "\<dots> \<le> length bs" by simp
  finally show ?thesis using c by simp
qed

lemma length_le_words [simp]: "length (le_words k bs) = length bs div k"
  by (simp add: le_words_def)

lemma length_be_words [simp]: "length (be_words k bs) = length bs div k"
  by (simp add: be_words_def)

lemma be_words_append: "length b = k \<Longrightarrow> 0 < k \<Longrightarrow> be_words k (b @ bs) = be_word b # be_words k bs"
  by (simp add: be_words_def chunk_list_append)

lemma be_words_words_be:
  assumes "LENGTH('a) = 8 * k" "0 < k"
  shows "be_words k (words_be k (ws :: 'a::len word list)) = ws"
proof (induction ws)
  case (Cons w ws)
  have w: "be_word (word_be k w) = w" using le_word_word_le[OF assms(1), of w] by (simp add: le_word_def word_be_def)
  have "(be_words k (words_be k (w # ws)) :: 'a word list) = be_word (word_be k w) # be_words k (words_be k ws)"
    using assms(2) be_words_append[of "word_be k w" k "words_be k ws"] by (simp add: words_be_def)
  then show ?case unfolding w Cons .
qed (use assms in \<open>simp add: be_words_def words_be_def\<close>)

lemma chunk_list_append_multiple:
  assumes "0 < k" "k dvd length xs"
  shows "chunk_list k (xs @ ys) = chunk_list k xs @ chunk_list k ys"
  using assms
proof (induction "length xs" arbitrary: xs rule: less_induct)
  case less
  show ?case
  proof (cases "xs = []")
    case False
    then have le: "k \<le> length xs" using less.prems by (simp add: dvd_imp_le)
    then have "chunk_list k (drop k xs @ ys) = chunk_list k (drop k xs) @ chunk_list k ys"
      using less.prems by (intro less.hyps) (auto simp: dvd_diff_nat)
    then show ?thesis using le less.prems(1) by (simp add: chunk_list_step)
  qed (use assms in simp)
qed

locale sha_stream =
  fixes alg :: "('w::len word, 'c) sha_alg" and cnt :: "nat \<Rightarrow> 'c"
  assumes word_bits: "LENGTH('w) = 8 * word_len alg" "0 < word_len alg"
    and block_words: "block_len alg = 16 * word_len alg" "block_len alg dvd 2 ^ 61"
    and reverse: "length bs = word_len alg \<Longrightarrow> reverse_word alg (le_word bs) = be_word bs"
    and count_low: "count_low alg (cnt n) = word_of_nat n"
    and count_add: "m \<le> 8 * block_len alg \<Longrightarrow> count_add alg (cnt n) (word_of_nat m) = cnt (n + m)"
    and count_words: "words_be (word_len alg) (count_words alg (cnt n)) = be_bytes (2 * word_len alg) n"
begin

lemma block_pos: "0 < block_len alg"
  using word_bits block_words by simp

lemma map_reverse: "map (reverse_word alg) (le_words (word_len alg) mem) = be_words (word_len alg) mem"
  using reverse in_chunk_list by (auto simp: le_words_def be_words_def)

lemma le_words_reversed:
  assumes "word_len alg * n \<le> length mem"
  shows "(le_words (word_len alg) (reverse_buffer alg n mem @ ys) :: 'w word list) =
    be_words (word_len alg) (take (word_len alg * n) mem) @ le_words (word_len alg) (drop (word_len alg * n) mem @ ys)"
proof -
  let ?k = "word_len alg"
  let ?ws = "be_words ?k (take (?k * n) mem) :: 'w word list"
  have "chunk_list ?k (words_le ?k ?ws @ drop (?k * n) mem @ ys) = chunk_list ?k (words_le ?k ?ws) @ chunk_list ?k (drop (?k * n) mem @ ys)"
    using word_bits(2) by (intro chunk_list_append_multiple) simp_all
  then have "(le_words ?k (words_le ?k ?ws @ drop (?k * n) mem @ ys) :: 'w word list) = le_words ?k (words_le ?k ?ws) @ le_words ?k (drop (?k * n) mem @ ys)"
    by (simp only: le_words_def map_append)
  then show ?thesis
    using le_words_words_le[OF word_bits] by (simp add: reverse_buffer_def map_reverse)
qed

lemma length_reverse_buffer: "word_len alg * n \<le> length mem \<Longrightarrow> length (reverse_buffer alg n mem) = length mem"
  using word_bits(2) by (simp add: reverse_buffer_def min_absorb2)

lemma transform_buffer_step:
  assumes "length (buffer ctx) = block_len alg"
  shows "sha_state (transform_buffer alg ctx) = sha_step alg (sha_state ctx) (buffer ctx)"
    and "length (buffer (transform_buffer alg ctx)) = block_len alg"
    and "bitcount (transform_buffer alg ctx) = bitcount ctx"
  using le_words_reversed[of 16 "buffer ctx" "[]"] assms block_words(1) length_reverse_buffer[of 16 "buffer ctx"]
  by (simp_all add: transform_buffer_def sha_step_def Let_def mult.commute le_words_def)

lemma usedspace: "unat (drop_bit 3 (count_low alg (cnt (8 * n)))) mod block_len alg = n mod block_len alg"
proof -
  have "unat (drop_bit 3 (word_of_nat m :: u64)) = m mod 2 ^ 64 div 8" for m
    unfolding unsigned_drop_bit_eq unfolding unsigned_of_nat take_bit_eq_mod drop_bit_eq_div by simp
  then have "unat (drop_bit 3 (word_of_nat (8 * n) :: u64)) = 8 * n mod 2 ^ 64 div 8" .
  also have "\<dots> = n mod 2 ^ 61" using mult_mod_right[of 8 n "2 ^ 61"] by simp
  finally show ?thesis using block_words(2) by (simp add: count_low mod_mod_cancel)
qed

lemma length_absorbed: "absorbed alg cnt init ctx msg \<Longrightarrow> length (buffer ctx) = block_len alg"
  by (simp add: absorbed_def)

lemma add_bits:
  assumes "bitcount ctx = cnt (8 * n)" "m \<le> block_len alg"
  shows "count_add alg (bitcount ctx) (push_bit 3 (word_of_nat m)) = cnt (8 * (n + m))"
proof -
  have "push_bit 3 (word_of_nat m) = (word_of_nat (8 * m) :: u64)" by (simp add: push_bit_eq_mult)
  then show ?thesis using assms count_add[of "8 * m" "8 * n"] by (simp add: algebra_simps)
qed

lemma absorbed_count: "absorbed alg cnt init ctx msg \<Longrightarrow> bitcount ctx = cnt (8 * length msg)"
  by (simp add: absorbed_def)

text \<open>Bytes that do not fill the buffer.\<close>

lemma absorbed_partial:
  assumes a: "absorbed alg cnt init ctx msg" and u: "length msg mod block_len alg + length data < block_len alg"
  shows "absorbed alg cnt init (ctx\<lparr>buffer := memcpy_at (length msg mod block_len alg) data (buffer ctx),
      bitcount := count_add alg (bitcount ctx) (push_bit 3 (word_of_nat (length data)))\<rparr>) (msg @ data)"
proof -
  have m: "(length msg + length data) mod block_len alg = length msg mod block_len alg + length data"
    using u by (metis mod_add_left_eq mod_less)
  have "count_add alg (bitcount ctx) (push_bit 3 (word_of_nat (length data))) = cnt (8 * length (msg @ data))"
    unfolding length_append by (rule add_bits[OF absorbed_count[OF a]]) (use u in linarith)
  moreover have "absorb (sha_step alg) (block_len alg) init (msg @ data)
      = (sha_state ctx, take (length msg mod block_len alg) (buffer ctx) @ data)"
    using a u absorb_continue[of "sha_step alg" "block_len alg" init msg] by (simp add: absorbed_def)
  ultimately show ?thesis
    using a u m by (simp add: absorbed_def del: push_bit_of_nat)
qed

text \<open>Bytes that fill it up: one transform.\<close>

lemma absorbed_block:
  assumes a: "absorbed alg cnt init ctx msg" and u: "length msg mod block_len alg + length data = block_len alg"
    and c: "ctx' = transform_buffer alg (ctx\<lparr>buffer := memcpy_at (length msg mod block_len alg) data (buffer ctx)\<rparr>)"
  shows "absorbed alg cnt init (ctx'\<lparr>bitcount := count_add alg (bitcount ctx) (push_bit 3 (word_of_nat (length data)))\<rparr>) (msg @ data)"
proof -
  have m: "(length msg + length data) mod block_len alg = 0"
    using u by (metis mod_add_left_eq mod_self)
  let ?b = "take (length msg mod block_len alg) (buffer ctx) @ data"
  have b: "length ?b = block_len alg" using a u by (simp add: absorbed_def)
  have mc: "memcpy_at (length msg mod block_len alg) data (buffer ctx) = ?b"
    using a u by (intro memcpy_at_full) (simp add: absorbed_def)
  have "count_add alg (bitcount ctx) (push_bit 3 (word_of_nat (length data))) = cnt (8 * length (msg @ data))"
    unfolding length_append by (rule add_bits[OF absorbed_count[OF a]]) (use u in linarith)
  moreover have "absorb (sha_step alg) (block_len alg) init (msg @ data) = (sha_step alg (sha_state ctx) ?b, [])"
    using a absorb_continue[of "sha_step alg" "block_len alg" init msg] by (simp add: absorbed_def absorb_one[OF b block_pos])
  moreover have "length (buffer (ctx\<lparr>buffer := ?b\<rparr>)) = block_len alg" using b by simp
  note transform_buffer_step[OF this]
  ultimately show ?thesis
    unfolding absorbed_def c mc by (simp add: m)
qed

lemma sha_blocks_absorbed:
  assumes "absorbed alg cnt init ctx msg" "length msg mod block_len alg = 0" "sha_blocks alg ctx data = (ctx', d)"
  shows "\<exists>c. data = c @ d \<and> length (msg @ c) mod block_len alg = 0 \<and> length d < block_len alg \<and> absorbed alg cnt init ctx' (msg @ c)"
  using assms
proof (induction "length data" arbitrary: ctx msg data rule: less_induct)
  case less
  show ?case
  proof (cases "block_len alg \<le> length data")
    case True
    let ?b = "take (block_len alg) data"
    define tb where "tb = transform_buffer alg (ctx\<lparr>buffer := memcpy_at (length msg mod block_len alg) ?b (buffer ctx)\<rparr>)"
    have b: "length ?b = block_len alg" using True by simp
    have "absorbed alg cnt init (tb\<lparr>bitcount := count_add alg (bitcount ctx) (push_bit 3 (word_of_nat (length ?b)))\<rparr>) (msg @ ?b)"
      by (rule absorbed_block[OF less.prems(1) _ tb_def]) (use True in \<open>simp add: less.prems(2)\<close>)
    moreover have "bitcount tb = bitcount ctx"
    proof -
      have "length (buffer (ctx\<lparr>buffer := memcpy_at 0 ?b (buffer ctx)\<rparr>)) = block_len alg"
        using length_absorbed[OF less.prems(1)] b by simp
      then show ?thesis using transform_buffer_step(3) by (simp add: tb_def less.prems(2))
    qed
    moreover have "sha_blocks alg (tb\<lparr>bitcount := count_add alg (bitcount tb) (push_bit 3 (word_of_nat (block_len alg)))\<rparr>) (drop (block_len alg) data) = (ctx', d)"
      using less.prems(3) block_pos True unfolding sha_blocks.simps[of alg ctx data] by (simp add: Let_def tb_def less.prems(2) del: push_bit_of_nat)
    ultimately obtain c where "drop (block_len alg) data = c @ d" "length ((msg @ ?b) @ c) mod block_len alg = 0"
        "length d < block_len alg" "absorbed alg cnt init ctx' ((msg @ ?b) @ c)"
      using less.hyps[of "drop (block_len alg) data" _ "msg @ ?b"] True block_pos b less.prems(2) by fastforce
    then show ?thesis
      by (intro exI[of _ "?b @ c"]) (metis append.assoc append_take_drop_id)
  next
    case False
    then have "ctx' = ctx" "d = data" using less.prems(3) unfolding sha_blocks.simps[of alg ctx data] by simp_all
    then show ?thesis using False less.prems by (intro exI[of _ "[]"]) simp
  qed
qed

theorem Update_absorbed:
  assumes a: "absorbed alg cnt init ctx msg"
  shows "absorbed alg cnt init (sha_Update alg ctx data) (msg @ data)"
proof -
  let ?B = "block_len alg"
  let ?add = "\<lambda>ctx n. ctx\<lparr>bitcount := count_add alg (bitcount ctx) (push_bit 3 (word_of_nat n))\<rparr>"
  define rest where "rest = (\<lambda>ctx data. let (ctx, data) = sha_blocks alg ctx data
                   in if 0 < length data then ?add (ctx\<lparr>buffer := memcpy_at 0 data (buffer ctx)\<rparr>) (length data) else ctx)"
  have rest: "absorbed alg cnt init (rest c data) (m @ data)"
    if c: "absorbed alg cnt init c m" "length m mod ?B = 0" for c m data
  proof -
    obtain c' d where s: "sha_blocks alg c data = (c', d)" by (cases "sha_blocks alg c data")
    obtain e where e: "data = e @ d" "length (m @ e) mod ?B = 0" "length d < ?B" "absorbed alg cnt init c' (m @ e)"
      using sha_blocks_absorbed[OF c s] by (elim exE conjE) (rule that)
    show ?thesis
    proof (cases "d = []")
      case True
      then have "rest c data = c'" by (simp add: rest_def s)
      then show ?thesis using True e(1,4) by simp
    next
      case False
      then have "rest c data = ?add (c'\<lparr>buffer := memcpy_at 0 d (buffer c')\<rparr>) (length d)"
        by (simp only: rest_def s Let_def prod.case length_greater_0_conv if_True not_False_eq_True)
      then show ?thesis
        using absorbed_partial[OF e(4), of d] e(3) unfolding e(2) e(1) by (simp del: push_bit_of_nat)
    qed
  qed
  define u where "u = length msg mod ?B"
  have used: "unat (drop_bit 3 (count_low alg (bitcount ctx))) mod ?B = u"
    using a usedspace by (simp only: absorbed_def u_def)
  have uB: "u < ?B" using block_pos by (simp add: u_def)
  consider "data = []" | "data \<noteq> []" "u = 0" | "data \<noteq> []" "0 < u" "?B - u \<le> length data" | "data \<noteq> []" "0 < u" "length data < ?B - u"
    by (cases "data = []"; cases "u = 0"; cases "?B - u \<le> length data") auto
  then show ?thesis
  proof cases
    case 1
    then show ?thesis using a by (simp add: sha_Update_def)
  next
    case 2
    then have "sha_Update alg ctx data = rest ctx data"
      unfolding sha_Update_def Let_def used by (simp add: rest_def Let_def)
    then show ?thesis using rest[OF a] 2 by (simp add: u_def)
  next
    case 3
    let ?d = "take (?B - u) data"
    define tb where "tb = transform_buffer alg (ctx\<lparr>buffer := memcpy_at u ?d (buffer ctx)\<rparr>)"
    have d: "u + length ?d = ?B" using 3 uB by simp
    have ab: "absorbed alg cnt init (tb\<lparr>bitcount := count_add alg (bitcount ctx) (push_bit 3 (word_of_nat (length ?d)))\<rparr>) (msg @ ?d)"
      by (rule absorbed_block[OF a]) (use d in \<open>simp_all add: u_def tb_def\<close>)
    have "sha_Update alg ctx data = rest (transform_buffer alg (?add (ctx\<lparr>buffer := memcpy_at u ?d (buffer ctx)\<rparr>) (?B - u))) (drop (?B - u) data)"
      unfolding sha_Update_def Let_def used rest_def using 3 by (simp del: push_bit_of_nat)
    moreover have "transform_buffer alg (?add (ctx\<lparr>buffer := memcpy_at u ?d (buffer ctx)\<rparr>) (?B - u))
        = tb\<lparr>bitcount := count_add alg (bitcount ctx) (push_bit 3 (word_of_nat (length ?d)))\<rparr>"
      using d by (simp add: tb_def transform_buffer_def Let_def del: push_bit_of_nat)
    moreover have "length (msg @ ?d) mod ?B = 0"
      using d unfolding u_def by (metis length_append mod_add_left_eq mod_self)
    ultimately show ?thesis using rest[OF ab, of "drop (?B - u) data"] by simp
  next
    case 4
    then have "sha_Update alg ctx data = ?add (ctx\<lparr>buffer := memcpy_at u data (buffer ctx)\<rparr>) (length data)"
      unfolding sha_Update_def Let_def used by (simp del: push_bit_of_nat)
    then show ?thesis using absorbed_partial[OF a, of data] 4 by (simp add: u_def del: push_bit_of_nat)
  qed
qed

text \<open>The padding, by what is left of the message.\<close>

lemma pad_zeros:
  assumes "u = n mod block_len alg"
  shows "(block_len alg - (n + 1 + 2 * word_len alg) mod block_len alg) mod block_len alg
    = (if u + 1 \<le> short_block_len alg then short_block_len alg - (u + 1) else (block_len alg - (u + 1)) + short_block_len alg)"
proof -
  let ?B = "block_len alg" and ?k = "word_len alg"
  have u: "u < ?B" using block_pos assms by simp
  have B: "?B = 16 * ?k" "0 < ?k" using block_words(1) word_bits(2) by simp_all
  have n: "(n + 1 + 2 * ?k) mod ?B = (u + 1 + 2 * ?k) mod ?B" unfolding assms add.assoc by (rule mod_add_left_eq[symmetric])
  consider "u + 1 + 2 * ?k < ?B" | "u + 1 + 2 * ?k = ?B" | "?B < u + 1 + 2 * ?k" by linarith
  then show ?thesis
  proof cases
    case 1
    then show ?thesis unfolding n short_block_len_def by (simp add: ac_simps)
  next
    case 2
    then show ?thesis unfolding n short_block_len_def by simp
  next
    case 3
    have "(u + 1 + 2 * ?k) mod ?B = u + 1 + 2 * ?k - ?B"
      using 3 u B by (subst mod_if) (simp add: le_mod_geq)
    then show ?thesis using 3 u B unfolding n short_block_len_def by simp
  qed
qed

text \<open>The last block: the counter takes the place of the last two words.\<close>

lemma last_words:
  assumes "length mem = block_len alg"
  shows "(le_words (word_len alg) (memcpy_at (14 * word_len alg) (words_le (word_len alg) (count_words alg (cnt n))) (reverse_buffer alg 14 mem)) :: 'w word list)
    = be_words (word_len alg) (take (short_block_len alg) mem @ be_bytes (2 * word_len alg) n)"
proof -
  let ?k = "word_len alg" and ?cw = "count_words alg (cnt n)"
  have short: "short_block_len alg = ?k * 14" using block_words(1) by (simp add: short_block_len_def)
  have len: "length ?cw = 2"
  proof -
    have "length (words_be ?k ?cw) = length (be_bytes (2 * ?k) n)" by (simp only: count_words)
    then show ?thesis using word_bits(2) by (simp add: be_bytes_def)
  qed
  have mem: "memcpy_at (14 * ?k) (words_le ?k ?cw) (reverse_buffer alg 14 mem)
      = words_le ?k (be_words ?k (take (?k * 14) mem) :: 'w word list) @ words_le ?k ?cw"
  proof -
    have "length (words_le ?k (be_words ?k (take (?k * 14) mem) :: 'w word list)) = 14 * ?k"
      using assms block_words(1) word_bits(2) by (simp add: be_words_def)
    then show ?thesis
      using assms block_words(1) len by (simp add: memcpy_at_def reverse_buffer_def map_reverse mult.commute)
  qed
  have "be_words ?k (take (?k * 14) mem @ words_be ?k ?cw) = be_words ?k (take (?k * 14) mem) @ (be_words ?k (words_be ?k ?cw) :: 'w word list)"
    using assms block_words(1) word_bits(2) unfolding be_words_def map_append[symmetric] by (subst chunk_list_append_multiple) simp_all
  then show ?thesis
    unfolding mem words_le_append[symmetric] le_words_words_le[OF word_bits] short
    by (simp add: be_words_words_be[OF word_bits] flip: count_words)
qed

lemma digest_words: "words_le (word_len alg) (map (reverse_word alg) ws) = words_be (word_len alg) ws"
proof -
  have "word_le (word_len alg) (reverse_word alg w) = word_be (word_len alg) w" for w
  proof -
    have "reverse_word alg w = be_word (word_le (word_len alg) w)"
      using reverse[of "word_le (word_len alg) w"] le_word_word_le[OF word_bits(1), of w] by simp
    then show ?thesis using word_le_be_word[of "word_le (word_len alg) w"] word_bits(1) by (simp add: word_be_def)
  qed
  then show ?thesis by (simp add: words_le_def words_be_def o_def)
qed

theorem Final_absorbed:
  assumes a: "absorbed alg cnt init ctx msg"
  shows "sha_Final alg ctx = sha_spec alg init msg"
proof -
  let ?B = "block_len alg" and ?k = "word_len alg" and ?short = "short_block_len alg"
  define u where "u = length msg mod ?B"
  define r where "r = take u (buffer ctx)"
  define bb where "bb = be_bytes (2 * ?k) (8 * length msg)"
  have uB: "u < ?B" using block_pos by (simp add: u_def)
  have B: "?short + 2 * ?k = ?B" "0 < ?k" "length bb = 2 * ?k" using block_words(1) word_bits(2) by (simp_all add: short_block_len_def bb_def be_bytes_def)
  have len: "length (buffer ctx) = ?B" using a by (simp add: absorbed_def)
  have lr: "length r = u" using uB len by (simp add: r_def)
  have used: "unat (drop_bit 3 (count_low alg (bitcount ctx))) mod ?B = u"
    using usedspace by (simp only: absorbed_count[OF a] u_def)
  have ab: "absorb (sha_step alg) ?B init msg = (sha_state ctx, r)" using a by (simp add: absorbed_def r_def u_def)
  have m80: "memcpy_at u [0x80] (buffer ctx) = r @ [0x80] @ drop (u + 1) (buffer ctx)" by (simp add: memcpy_at_def r_def)
  show ?thesis
  proof (cases "u + 1 \<le> ?short")
    case True
    let ?mem = "memcpy_at (u + 1) (replicate (?short - (u + 1)) 0) (r @ [0x80] @ drop (u + 1) (buffer ctx))"
    let ?b = "r @ [0x80] @ replicate (?short - (u + 1)) 0 @ bb"
    have mem: "length ?mem = ?B" "take ?short ?mem = r @ [0x80] @ replicate (?short - (u + 1)) 0"
      using True B len lr uB take_memcpy_at[of "u + 1" "replicate (?short - (u + 1)) 0" "r @ [0x80] @ drop (u + 1) (buffer ctx)"]
      by simp_all
    have b: "length ?b = ?B" using True B lr by simp
    have "sha_state (sha_Last alg ctx) = sha_step alg (sha_state ctx) ?b"
      using True last_words[OF mem(1), of "8 * length msg", unfolded mem(2)]
      unfolding sha_Last_def Let_def used m80 by (simp add: m80 absorbed_count[OF a] mem(2) sha_step_def bb_def)
    moreover have "sha_pad ?B (2 * ?k) msg = msg @ ([0x80] @ replicate (?short - (u + 1)) 0 @ bb)"
      using pad_zeros[OF u_def] True by (simp add: sha_pad_def bb_def)
    ultimately show ?thesis
      using absorb_continue[OF ab] absorb_one[OF b block_pos, of "sha_step alg" "sha_state ctx"] by (simp add: sha_spec_def sha_Final_def digest_words)
  next
    case False
    let ?c = "r @ [0x80] @ replicate (?B - (u + 1)) 0"
    have c: "length ?c = ?B" using uB lr by simp
    have mc: "memcpy_at (u + 1) (replicate (?B - (u + 1)) 0) (r @ [0x80] @ drop (u + 1) (buffer ctx)) = ?c"
      using uB lr len by (simp add: memcpy_at_def)
    define tb where "tb = transform_buffer alg (ctx\<lparr>buffer := ?c\<rparr>)"
    have tb: "sha_state tb = sha_step alg (sha_state ctx) ?c" "length (buffer tb) = ?B" "bitcount tb = bitcount ctx"
      using transform_buffer_step[of "ctx\<lparr>buffer := ?c\<rparr>"] c by (simp_all add: tb_def)
    let ?mem = "memcpy_at 0 (replicate ?short 0) (buffer tb)" and ?b = "replicate ?short 0 @ bb"
    have mem: "length ?mem = ?B" "take ?short ?mem = replicate ?short 0" using B tb(2) by (simp_all add: memcpy_at_def)
    have b: "length ?b = ?B" using B by simp
    have "sha_state (sha_Last alg ctx) = sha_step alg (sha_state tb) ?b"
      using False last_words[OF mem(1), of "8 * length msg", unfolded mem(2)]
      unfolding sha_Last_def Let_def used m80 by (simp add: m80 mc[simplified] tb_def[symmetric, simplified] tb(3) absorbed_count[OF a] mem(2) sha_step_def bb_def)
    moreover have "sha_pad ?B (2 * ?k) msg = msg @ ([0x80] @ replicate (?B - (u + 1)) 0 @ ?b)"
      using pad_zeros[OF u_def] False by (simp add: sha_pad_def bb_def replicate_add)
    moreover have "r @ [0x80] @ replicate (?B - (u + 1)) 0 @ ?b = ?c @ ?b" by simp
    ultimately show ?thesis
      using absorb_continue[OF ab] absorb_block[OF c block_pos, of "sha_step alg" "sha_state ctx"] absorb_one[OF b block_pos, of "sha_step alg"] tb(1)
      by (simp only: sha_spec_def sha_Final_def digest_words fst_conv)
  qed
qed

text \<open>So any way of cutting a message into updates gives the digest of the message.\<close>

theorem stream_digest:
  assumes "absorbed alg cnt init ctx []"
  shows "sha_Final alg (foldl (sha_Update alg) ctx parts) = sha_spec alg init (concat parts)"
proof -
  have "absorbed alg cnt init (foldl (sha_Update alg) ctx parts) (concat parts)"
  proof (induction parts rule: rev_induct)
    case (snoc p parts)
    then show ?case using Update_absorbed by simp
  qed (use assms in simp)
  then show ?thesis by (rule Final_absorbed)
qed

end

end
