(* ===== verification/Sha2.thy ===== *)
theory Sha2
  imports HashStream
begin

text \<open>
  SHA-1, SHA-256, SHA-512 and SHA-512/256 of \<open>trezor-crypto/src/sha2.c\<close>, on a little-endian host:
  the byte reversal macros, the round functions and constants, both forms of the three transforms
  (the loops, and the unrolled macros behind \<open>SHA2_UNROLL_TRANSFORM\<close>), and the streaming interface.

  A call of a round macro names the registers it works on: the unrolled transforms carry the
  register file as a list, and a call is the list of the register numbers in argument order.
  The message window is \<open>W[16]\<close>, which the first sixteen rounds fill before anything is read from it.
  \<open>Final\<close> is modelled for a digest pointer that is not \<open>NULL\<close>.
\<close>

unbundle bit_operations_syntax

section \<open>Macros and constants\<close>

definition REVERSE32 :: "u32 \<Rightarrow> u32" where
  "REVERSE32 w =
     (let tmp = drop_bit 16 w OR push_bit 16 w
      in drop_bit 8 (tmp AND 0xff00ff00) OR push_bit 8 (tmp AND 0x00ff00ff))"

definition REVERSE64 :: "u64 \<Rightarrow> u64" where
  "REVERSE64 w =
     (let tmp = drop_bit 32 w OR push_bit 32 w;
          tmp = drop_bit 8 (tmp AND 0xff00ff00ff00ff00) OR push_bit 8 (tmp AND 0x00ff00ff00ff00ff)
      in drop_bit 16 (tmp AND 0xffff0000ffff0000) OR push_bit 16 (tmp AND 0x0000ffff0000ffff))"

definition ADDINC128 :: "u64 \<times> u64 \<Rightarrow> u64 \<Rightarrow> u64 \<times> u64" where
  "ADDINC128 w n = (let w0 = fst w + n in (w0, if w0 < n then snd w + 1 else snd w))"

definition ROTR32 :: "nat \<Rightarrow> u32 \<Rightarrow> u32" where
  "ROTR32 b x = drop_bit b x OR push_bit (32 - b) x"

definition ROTR64 :: "nat \<Rightarrow> u64 \<Rightarrow> u64" where
  "ROTR64 b x = drop_bit b x OR push_bit (64 - b) x"

definition ROTL32 :: "nat \<Rightarrow> u32 \<Rightarrow> u32" where
  "ROTL32 b x = push_bit b x OR drop_bit (32 - b) x"

definition Ch :: "'a::len word \<Rightarrow> 'a word \<Rightarrow> 'a word \<Rightarrow> 'a word" where
  "Ch x y z = (x AND y) XOR (NOT x AND z)"

definition Maj :: "'a::len word \<Rightarrow> 'a word \<Rightarrow> 'a word \<Rightarrow> 'a word" where
  "Maj x y z = (x AND y) XOR (x AND z) XOR (y AND z)"

definition Parity :: "'a::len word \<Rightarrow> 'a word \<Rightarrow> 'a word \<Rightarrow> 'a word" where
  "Parity x y z = x XOR y XOR z"

definition Sigma0_256 :: "u32 \<Rightarrow> u32" where
  "Sigma0_256 x = ROTR32 2 x XOR ROTR32 13 x XOR ROTR32 22 x"

definition Sigma1_256 :: "u32 \<Rightarrow> u32" where
  "Sigma1_256 x = ROTR32 6 x XOR ROTR32 11 x XOR ROTR32 25 x"

definition sigma0_256 :: "u32 \<Rightarrow> u32" where
  "sigma0_256 x = ROTR32 7 x XOR ROTR32 18 x XOR drop_bit 3 x"

definition sigma1_256 :: "u32 \<Rightarrow> u32" where
  "sigma1_256 x = ROTR32 17 x XOR ROTR32 19 x XOR drop_bit 10 x"

definition Sigma0_512 :: "u64 \<Rightarrow> u64" where
  "Sigma0_512 x = ROTR64 28 x XOR ROTR64 34 x XOR ROTR64 39 x"

definition Sigma1_512 :: "u64 \<Rightarrow> u64" where
  "Sigma1_512 x = ROTR64 14 x XOR ROTR64 18 x XOR ROTR64 41 x"

definition sigma0_512 :: "u64 \<Rightarrow> u64" where
  "sigma0_512 x = ROTR64 1 x XOR ROTR64 8 x XOR drop_bit 7 x"

definition sigma1_512 :: "u64 \<Rightarrow> u64" where
  "sigma1_512 x = ROTR64 19 x XOR ROTR64 61 x XOR drop_bit 6 x"

definition sha1_initial_hash_value :: "u32 list" where
  "sha1_initial_hash_value = [
     0x67452301, 0xefcdab89, 0x98badcfe, 0x10325476, 0xc3d2e1f0]"

definition K256 :: "u32 list" where
  "K256 = concat [
     [0x428a2f98, 0x71374491, 0xb5c0fbcf, 0xe9b5dba5],
     [0x3956c25b, 0x59f111f1, 0x923f82a4, 0xab1c5ed5],
     [0xd807aa98, 0x12835b01, 0x243185be, 0x550c7dc3],
     [0x72be5d74, 0x80deb1fe, 0x9bdc06a7, 0xc19bf174],
     [0xe49b69c1, 0xefbe4786, 0x0fc19dc6, 0x240ca1cc],
     [0x2de92c6f, 0x4a7484aa, 0x5cb0a9dc, 0x76f988da],
     [0x983e5152, 0xa831c66d, 0xb00327c8, 0xbf597fc7],
     [0xc6e00bf3, 0xd5a79147, 0x06ca6351, 0x14292967],
     [0x27b70a85, 0x2e1b2138, 0x4d2c6dfc, 0x53380d13],
     [0x650a7354, 0x766a0abb, 0x81c2c92e, 0x92722c85],
     [0xa2bfe8a1, 0xa81a664b, 0xc24b8b70, 0xc76c51a3],
     [0xd192e819, 0xd6990624, 0xf40e3585, 0x106aa070],
     [0x19a4c116, 0x1e376c08, 0x2748774c, 0x34b0bcb5],
     [0x391c0cb3, 0x4ed8aa4a, 0x5b9cca4f, 0x682e6ff3],
     [0x748f82ee, 0x78a5636f, 0x84c87814, 0x8cc70208],
     [0x90befffa, 0xa4506ceb, 0xbef9a3f7, 0xc67178f2]]"

definition sha256_initial_hash_value :: "u32 list" where
  "sha256_initial_hash_value = [
     0x6a09e667, 0xbb67ae85, 0x3c6ef372, 0xa54ff53a,
     0x510e527f, 0x9b05688c, 0x1f83d9ab, 0x5be0cd19]"

definition K512 :: "u64 list" where
  "K512 = concat [
     [0x428a2f98d728ae22, 0x7137449123ef65cd],
     [0xb5c0fbcfec4d3b2f, 0xe9b5dba58189dbbc],
     [0x3956c25bf348b538, 0x59f111f1b605d019],
     [0x923f82a4af194f9b, 0xab1c5ed5da6d8118],
     [0xd807aa98a3030242, 0x12835b0145706fbe],
     [0x243185be4ee4b28c, 0x550c7dc3d5ffb4e2],
     [0x72be5d74f27b896f, 0x80deb1fe3b1696b1],
     [0x9bdc06a725c71235, 0xc19bf174cf692694],
     [0xe49b69c19ef14ad2, 0xefbe4786384f25e3],
     [0x0fc19dc68b8cd5b5, 0x240ca1cc77ac9c65],
     [0x2de92c6f592b0275, 0x4a7484aa6ea6e483],
     [0x5cb0a9dcbd41fbd4, 0x76f988da831153b5],
     [0x983e5152ee66dfab, 0xa831c66d2db43210],
     [0xb00327c898fb213f, 0xbf597fc7beef0ee4],
     [0xc6e00bf33da88fc2, 0xd5a79147930aa725],
     [0x06ca6351e003826f, 0x142929670a0e6e70],
     [0x27b70a8546d22ffc, 0x2e1b21385c26c926],
     [0x4d2c6dfc5ac42aed, 0x53380d139d95b3df],
     [0x650a73548baf63de, 0x766a0abb3c77b2a8],
     [0x81c2c92e47edaee6, 0x92722c851482353b],
     [0xa2bfe8a14cf10364, 0xa81a664bbc423001],
     [0xc24b8b70d0f89791, 0xc76c51a30654be30],
     [0xd192e819d6ef5218, 0xd69906245565a910],
     [0xf40e35855771202a, 0x106aa07032bbd1b8],
     [0x19a4c116b8d2d0c8, 0x1e376c085141ab53],
     [0x2748774cdf8eeb99, 0x34b0bcb5e19b48a8],
     [0x391c0cb3c5c95a63, 0x4ed8aa4ae3418acb],
     [0x5b9cca4f7763e373, 0x682e6ff3d6b2b8a3],
     [0x748f82ee5defb2fc, 0x78a5636f43172f60],
     [0x84c87814a1f0ab72, 0x8cc702081a6439ec],
     [0x90befffa23631e28, 0xa4506cebde82bde9],
     [0xbef9a3f7b2c67915, 0xc67178f2e372532b],
     [0xca273eceea26619c, 0xd186b8c721c0c207],
     [0xeada7dd6cde0eb1e, 0xf57d4f7fee6ed178],
     [0x06f067aa72176fba, 0x0a637dc5a2c898a6],
     [0x113f9804bef90dae, 0x1b710b35131c471b],
     [0x28db77f523047d84, 0x32caab7b40c72493],
     [0x3c9ebe0a15c9bebc, 0x431d67c49c100d4c],
     [0x4cc5d4becb3e42b6, 0x597f299cfc657e2a],
     [0x5fcb6fab3ad6faec, 0x6c44198c4a475817]]"

definition sha512_initial_hash_value :: "u64 list" where
  "sha512_initial_hash_value = [
     0x6a09e667f3bcc908, 0xbb67ae8584caa73b,
     0x3c6ef372fe94f82b, 0xa54ff53a5f1d36f1,
     0x510e527fade682d1, 0x9b05688c2b3e6c1f,
     0x1f83d9abfb41bd6b, 0x5be0cd19137e2179]"

definition sha512_256_initial_hash_value :: "u64 list" where
  "sha512_256_initial_hash_value = [
     0x22312194fc2bf72c, 0x9f555fa3c84c64c2,
     0x2393b86b6f53b151, 0x963877195940eabd,
     0x96283ee2a88effe3, 0xbe5e1e2553863992,
     0x2b0199fc2c85b8aa, 0x0eb72ddc81c52ca2]"

section \<open>Rounds\<close>

type_synonym 'w regs8 = "'w \<times> 'w \<times> 'w \<times> 'w \<times> 'w \<times> 'w \<times> 'w \<times> 'w"

text \<open>One round of the SHA-2 compression; the functions and widths are those of the caller.\<close>

definition sha2_round :: "('a::len word \<Rightarrow> 'a word) \<Rightarrow> ('a word \<Rightarrow> 'a word) \<Rightarrow> 'a word \<Rightarrow> 'a word \<Rightarrow> 'a word regs8 \<Rightarrow> 'a word regs8" where
  "sha2_round Sigma0 Sigma1 k w = (\<lambda>(a, b, c, d, e, f, g, h).
     let T1 = h + Sigma1 e + Ch e f g + k + w; T2 = Sigma0 a + Maj a b c
     in (T1 + T2, a, b, c, d + T1, e, f, g))"

definition regs8_of :: "'w list \<Rightarrow> 'w regs8" where
  "regs8_of st = (st ! 0, st ! 1, st ! 2, st ! 3, st ! 4, st ! 5, st ! 6, st ! 7)"

definition regs8_add :: "'a::len word list \<Rightarrow> 'a word regs8 \<Rightarrow> 'a word list" where
  "regs8_add st = (\<lambda>(a, b, c, d, e, f, g, h).
     [st ! 0 + a, st ! 1 + b, st ! 2 + c, st ! 3 + d, st ! 4 + e, st ! 5 + f, st ! 6 + g, st ! 7 + h])"

definition sha256_Transform :: "u32 list \<Rightarrow> u32 list \<Rightarrow> u32 list" where
  "sha256_Transform state_in data =
     (let (regs, W256) = for_up 0 16 (\<lambda>j (regs, W256).
            let W256 = W256[j := data ! j]
            in (sha2_round Sigma0_256 Sigma1_256 (K256 ! j) (W256 ! j) regs, W256))
            (regs8_of state_in, replicate 16 0);
          (regs, W256) = for_up 16 64 (\<lambda>j (regs, W256).
            let s0 = sigma0_256 (W256 ! ((j + 1) mod 16));
                s1 = sigma1_256 (W256 ! ((j + 14) mod 16));
                W256 = W256[j mod 16 := W256 ! (j mod 16) + (s1 + W256 ! ((j + 9) mod 16) + s0)]
            in (sha2_round Sigma0_256 Sigma1_256 (K256 ! j) (W256 ! (j mod 16)) regs, W256))
            (regs, W256)
      in regs8_add state_in regs)"

definition sha512_Transform :: "u64 list \<Rightarrow> u64 list \<Rightarrow> u64 list" where
  "sha512_Transform state_in data =
     (let (regs, W512) = for_up 0 16 (\<lambda>j (regs, W512).
            let W512 = W512[j := data ! j]
            in (sha2_round Sigma0_512 Sigma1_512 (K512 ! j) (W512 ! j) regs, W512))
            (regs8_of state_in, replicate 16 0);
          (regs, W512) = for_up 16 80 (\<lambda>j (regs, W512).
            let s0 = sigma0_512 (W512 ! ((j + 1) mod 16));
                s1 = sigma1_512 (W512 ! ((j + 14) mod 16));
                W512 = W512[j mod 16 := W512 ! (j mod 16) + (s1 + W512 ! ((j + 9) mod 16) + s0)]
            in (sha2_round Sigma0_512 Sigma1_512 (K512 ! j) (W512 ! (j mod 16)) regs, W512))
            (regs, W512)
      in regs8_add state_in regs)"

text \<open>SHA-1: five registers, a function and a constant per twenty rounds.\<close>

type_synonym regs5 = "u32 \<times> u32 \<times> u32 \<times> u32 \<times> u32"

definition sha1_round :: "(u32 \<Rightarrow> u32 \<Rightarrow> u32 \<Rightarrow> u32) \<Rightarrow> u32 \<Rightarrow> u32 \<Rightarrow> regs5 \<Rightarrow> regs5" where
  "sha1_round f k w = (\<lambda>(a, b, c, d, e).
     let T1 = ROTL32 5 a + f b c d + e + k + w in (T1, a, ROTL32 30 b, c, d))"

definition sha1_rounds :: "(u32 \<Rightarrow> u32 \<Rightarrow> u32 \<Rightarrow> u32) \<Rightarrow> u32 \<Rightarrow> nat \<Rightarrow> nat \<Rightarrow> regs5 \<times> u32 list \<Rightarrow> regs5 \<times> u32 list" where
  "sha1_rounds f k lo hi = for_up lo hi (\<lambda>j (regs, W1).
     let T1 = W1 ! ((j + 13) mod 16) XOR W1 ! ((j + 8) mod 16) XOR W1 ! ((j + 2) mod 16) XOR W1 ! (j mod 16);
         W1 = W1[j mod 16 := ROTL32 1 T1]
     in (sha1_round f k (W1 ! (j mod 16)) regs, W1))"

definition sha1_Transform :: "u32 list \<Rightarrow> u32 list \<Rightarrow> u32 list" where
  "sha1_Transform state_in data =
     (let st = (state_in ! 0, state_in ! 1, state_in ! 2, state_in ! 3, state_in ! 4);
          s = for_up 0 16 (\<lambda>j (regs, W1).
                let W1 = W1[j := data ! j] in (sha1_round Ch 0x5a827999 (W1 ! j) regs, W1)) (st, replicate 16 0);
          s = sha1_rounds Ch 0x5a827999 16 20 s;
          s = sha1_rounds Parity 0x6ed9eba1 20 40 s;
          s = sha1_rounds Maj 0x8f1bbcdc 40 60 s;
          ((a, b, c, d, e), W1) = sha1_rounds Parity 0xca62c1d6 60 80 s
      in [state_in ! 0 + a, state_in ! 1 + b, state_in ! 2 + c, state_in ! 3 + d, state_in ! 4 + e])"

section \<open>The unrolled transforms\<close>

text \<open>
  \<open>ROUND256_0_TO_15\<close> and \<open>ROUND256\<close>: the registers \<open>d\<close> and \<open>h\<close> of the call are overwritten, \<open>j\<close> is
  incremented. \<open>args\<close> are the registers passed for \<open>a\<close> to \<open>h\<close>.
\<close>

type_synonym 'w unrolled = "nat \<times> 'w list \<times> 'w list"

definition sha2_step :: "('a::len word \<Rightarrow> 'a word) \<Rightarrow> ('a word \<Rightarrow> 'a word) \<Rightarrow> 'a word \<Rightarrow> 'a word \<Rightarrow> nat list \<Rightarrow> 'a word list \<Rightarrow> 'a word list" where
  "sha2_step Sigma0 Sigma1 k w args r =
     (let T1 = r ! (args ! 7) + Sigma1 (r ! (args ! 4)) + Ch (r ! (args ! 4)) (r ! (args ! 5)) (r ! (args ! 6)) + k + w;
          r = r[args ! 3 := r ! (args ! 3) + T1]
      in r[args ! 7 := T1 + Sigma0 (r ! (args ! 0)) + Maj (r ! (args ! 0)) (r ! (args ! 1)) (r ! (args ! 2))])"

definition ROUND256_0_TO_15 :: "u32 list \<Rightarrow> nat list \<Rightarrow> u32 unrolled \<Rightarrow> u32 unrolled" where
  "ROUND256_0_TO_15 data args = (\<lambda>(j, r, W256).
     let W256 = W256[j := data ! j] in (j + 1, sha2_step Sigma0_256 Sigma1_256 (K256 ! j) (W256 ! j) args r, W256))"

definition ROUND256 :: "nat list \<Rightarrow> u32 unrolled \<Rightarrow> u32 unrolled" where
  "ROUND256 args = (\<lambda>(j, r, W256).
     let s0 = sigma0_256 (W256 ! ((j + 1) mod 16)); s1 = sigma1_256 (W256 ! ((j + 14) mod 16));
         W256 = W256[j mod 16 := W256 ! (j mod 16) + (s1 + W256 ! ((j + 9) mod 16) + s0)]
     in (j + 1, sha2_step Sigma0_256 Sigma1_256 (K256 ! j) (W256 ! (j mod 16)) args r, W256))"

definition ROUND512_0_TO_15 :: "u64 list \<Rightarrow> nat list \<Rightarrow> u64 unrolled \<Rightarrow> u64 unrolled" where
  "ROUND512_0_TO_15 data args = (\<lambda>(j, r, W512).
     let W512 = W512[j := data ! j] in (j + 1, sha2_step Sigma0_512 Sigma1_512 (K512 ! j) (W512 ! j) args r, W512))"

definition ROUND512 :: "nat list \<Rightarrow> u64 unrolled \<Rightarrow> u64 unrolled" where
  "ROUND512 args = (\<lambda>(j, r, W512).
     let s0 = sigma0_512 (W512 ! ((j + 1) mod 16)); s1 = sigma1_512 (W512 ! ((j + 14) mod 16));
         W512 = W512[j mod 16 := W512 ! (j mod 16) + (s1 + W512 ! ((j + 9) mod 16) + s0)]
     in (j + 1, sha2_step Sigma0_512 Sigma1_512 (K512 ! j) (W512 ! (j mod 16)) args r, W512))"

text \<open>The eight calls of a loop body, each with the registers moved on by one.\<close>

definition calls8 :: "nat list list" where
  "calls8 = [
     [0, 1, 2, 3, 4, 5, 6, 7], [7, 0, 1, 2, 3, 4, 5, 6], [6, 7, 0, 1, 2, 3, 4, 5], [5, 6, 7, 0, 1, 2, 3, 4],
     [4, 5, 6, 7, 0, 1, 2, 3], [3, 4, 5, 6, 7, 0, 1, 2], [2, 3, 4, 5, 6, 7, 0, 1], [1, 2, 3, 4, 5, 6, 7, 0]]"

text \<open>\<open>do ... while (j < n)\<close> runs \<open>2\<close> bodies from \<open>0\<close> to \<open>16\<close> and \<open>6\<close> or \<open>8\<close> from there to \<open>64\<close> or \<open>80\<close>.\<close>

definition sha256_Transform_unrolled :: "u32 list \<Rightarrow> u32 list \<Rightarrow> u32 list" where
  "sha256_Transform_unrolled state_in data =
     (let s = (0, take 8 state_in, replicate 16 0);
          s = (fold (ROUND256_0_TO_15 data) calls8 ^^ 2) s;
          (j, r, W256) = (fold ROUND256 calls8 ^^ 6) s
      in regs8_add state_in (regs8_of r))"

definition sha512_Transform_unrolled :: "u64 list \<Rightarrow> u64 list \<Rightarrow> u64 list" where
  "sha512_Transform_unrolled state_in data =
     (let s = (0, take 8 state_in, replicate 16 0);
          s = (fold (ROUND512_0_TO_15 data) calls8 ^^ 2) s;
          (j, r, W512) = (fold ROUND512 calls8 ^^ 8) s
      in regs8_add state_in (regs8_of r))"

text \<open>The SHA-1 macros: \<open>b\<close> and \<open>e\<close> of the call are overwritten.\<close>

definition ROUND1_0_TO_15 :: "u32 list \<Rightarrow> nat list \<Rightarrow> u32 unrolled \<Rightarrow> u32 unrolled" where
  "ROUND1_0_TO_15 data args = (\<lambda>(j, r, W1).
     let W1 = W1[j := data ! j];
         r = r[args ! 4 := ROTL32 5 (r ! (args ! 0)) + Ch (r ! (args ! 1)) (r ! (args ! 2)) (r ! (args ! 3)) + r ! (args ! 4) + 0x5a827999 + W1 ! j]
     in (j + 1, r[args ! 1 := ROTL32 30 (r ! (args ! 1))], W1))"

definition ROUND1_STEP :: "(u32 \<Rightarrow> u32 \<Rightarrow> u32 \<Rightarrow> u32) \<Rightarrow> u32 \<Rightarrow> nat list \<Rightarrow> u32 unrolled \<Rightarrow> u32 unrolled" where
  "ROUND1_STEP f k args = (\<lambda>(j, r, W1).
     let T1 = W1 ! ((j + 13) mod 16) XOR W1 ! ((j + 8) mod 16) XOR W1 ! ((j + 2) mod 16) XOR W1 ! (j mod 16);
         W1 = W1[j mod 16 := ROTL32 1 T1];
         r = r[args ! 4 := ROTL32 5 (r ! (args ! 0)) + f (r ! (args ! 1)) (r ! (args ! 2)) (r ! (args ! 3)) + r ! (args ! 4) + k + W1 ! (j mod 16)]
     in (j + 1, r[args ! 1 := ROTL32 30 (r ! (args ! 1))], W1))"

definition calls5 :: "nat list list" where
  "calls5 = [[0, 1, 2, 3, 4], [4, 0, 1, 2, 3], [3, 4, 0, 1, 2], [2, 3, 4, 0, 1], [1, 2, 3, 4, 0]]"

text \<open>Sixteen calls that start at \<open>(a, b, c, d, e)\<close>, four from \<open>(e, a, b, c, d)\<close>, then whole cycles.\<close>

definition sha1_Transform_unrolled :: "u32 list \<Rightarrow> u32 list \<Rightarrow> u32 list" where
  "sha1_Transform_unrolled state_in data =
     (let s = (0, take 5 state_in, replicate 16 0);
          s = fold (ROUND1_0_TO_15 data) (calls5 @ calls5 @ calls5 @ [calls5 ! 0]) s;
          s = fold (ROUND1_STEP Ch 0x5a827999) (tl calls5) s;
          s = fold (ROUND1_STEP Parity 0x6ed9eba1) (calls5 @ calls5 @ calls5 @ calls5) s;
          s = fold (ROUND1_STEP Maj 0x8f1bbcdc) (calls5 @ calls5 @ calls5 @ calls5) s;
          (j, r, W1) = fold (ROUND1_STEP Parity 0xca62c1d6) (calls5 @ calls5 @ calls5 @ calls5) s
      in [state_in ! 0 + r ! 0, state_in ! 1 + r ! 1, state_in ! 2 + r ! 2, state_in ! 3 + r ! 3, state_in ! 4 + r ! 4])"

section \<open>Byte reversal\<close>

lemma word_bit_beyond: "LENGTH('a) \<le> n \<Longrightarrow> \<not> bit (w :: 'a::len word) n"
  using bit_imp_le_length[of w n] by auto

lemma bits_64: "[0..<64] = [0, 1, 2, 3, 4, 5, 6, 7, 8, 9, 10, 11, 12, 13, 14, 15, 16, 17, 18, 19, 20, 21, 22, 23, 24, 25, 26, 27, 28, 29,
       30, 31, 32, 33, 34, 35, 36, 37, 38, 39, 40, 41, 42, 43, 44, 45, 46, 47, 48, 49, 50, 51, 52, 53, 54, 55, 56,
       57, 58, 59, 60, 61, 62, 63]"
  by code_simp

lemma REVERSE32_bit: "n < 32 \<Longrightarrow> bit (REVERSE32 w) n = bit w (8 * (3 - n div 8) + n mod 8)"
proof -
  have "\<forall>n\<in>set (take 32 [0..<64]). bit (REVERSE32 w) n = bit w (8 * (3 - n div 8) + n mod 8)"
    unfolding bits_64 by (simp add: REVERSE32_def Let_def bit_simps word_bit_beyond flip: numeral_2_eq_2)
  then show "n < 32 \<Longrightarrow> ?thesis" by simp
qed

lemma REVERSE64_bit: "n < 64 \<Longrightarrow> bit (REVERSE64 w) n = bit w (8 * (7 - n div 8) + n mod 8)"
proof -
  have "\<forall>n\<in>set [0..<64]. bit (REVERSE64 w) n = bit w (8 * (7 - n div 8) + n mod 8)"
    unfolding bits_64 by (simp add: REVERSE64_def Let_def bit_simps word_bit_beyond flip: numeral_2_eq_2)
  then show "n < 64 \<Longrightarrow> ?thesis" by simp
qed

lemma bit_reversed:
  assumes "n < 8 * length bs" "LENGTH('a) = 8 * length bs"
  shows "bit (le_word bs :: 'a::len word) (8 * (length bs - 1 - n div 8) + n mod 8) \<longleftrightarrow> bit (be_word bs :: 'a word) n"
proof -
  have "n div 8 < length bs" using assms(1) by (simp add: less_mult_imp_div_less mult.commute)
  then have "8 * (length bs - 1 - n div 8) + n mod 8 < 8 * length bs" by (simp add: algebra_simps)
  then show ?thesis
    using assms \<open>n div 8 < length bs\<close> by (simp add: le_word_def bit_be_word rev_nth)
qed

lemma REVERSE32_le_word:
  assumes "length bs = 4"
  shows "REVERSE32 (le_word bs) = be_word bs"
  using assms bit_reversed[of _ bs, where 'a = 32] by (intro bit_word_eqI) (simp add: REVERSE32_bit)

lemma REVERSE64_le_word:
  assumes "length bs = 8"
  shows "REVERSE64 (le_word bs) = be_word bs"
  using assms bit_reversed[of _ bs, where 'a = 64] by (intro bit_word_eqI) (simp add: REVERSE64_bit)

section \<open>The unrolled transforms agree with the loops\<close>

definition rot :: "'a list \<Rightarrow> 'a list" where
  "rot xs = last xs # butlast xs"

definition orbit :: "nat \<Rightarrow> nat list \<Rightarrow> nat list list" where
  "orbit n args = map (\<lambda>i. (rot ^^ i) args) [0..<n]"

lemma calls8_orbit: "calls8 = orbit 8 [0, 1, 2, 3, 4, 5, 6, 7]" "(rot ^^ 8) [0 :: nat, 1, 2, 3, 4, 5, 6, 7] = [0, 1, 2, 3, 4, 5, 6, 7]"
  by code_simp+

text \<open>A round that keeps a relation along the rotation keeps it along an orbit.\<close>

lemma orbit_simulation:
  assumes "R args s j t"
    and "\<And>i s j t. i < n \<Longrightarrow> R ((rot ^^ i) args) s j t \<Longrightarrow> R ((rot ^^ Suc i) args) (G ((rot ^^ i) args) s) (Suc j) (F j t)"
  shows "R ((rot ^^ n) args) (fold G (orbit n args) s) (j + n) (for_up j (j + n) F t)"
  using assms(2)
proof (induction n)
  case 0
  then show ?case using assms(1) by (simp add: orbit_def)
next
  case (Suc n)
  have "R ((rot ^^ n) args) (fold G (orbit n args) s) (j + n) (for_up j (j + n) F t)"
    by (rule Suc.IH) (use Suc.prems in simp)
  from Suc.prems[of n, OF _ this] show ?case by (simp add: orbit_def for_up_last)
qed

lemma for_up_split: "lo \<le> mid \<Longrightarrow> mid \<le> hi \<Longrightarrow> for_up lo hi f s = for_up mid hi f (for_up lo mid f s)"
proof -
  assume "lo \<le> mid" "mid \<le> hi"
  then have "[lo..<hi] = [lo..<mid] @ [mid..<hi]" by (metis le_add_diff_inverse upt_add_eq_append)
  then show ?thesis by (simp add: for_up_def)
qed

definition view8 :: "nat list \<Rightarrow> 'w list \<Rightarrow> 'w regs8" where
  "view8 args r = (r ! (args ! 0), r ! (args ! 1), r ! (args ! 2), r ! (args ! 3), r ! (args ! 4), r ! (args ! 5), r ! (args ! 6), r ! (args ! 7))"

definition sim8 :: "nat list \<Rightarrow> 'w unrolled \<Rightarrow> nat \<Rightarrow> 'w regs8 \<times> 'w list \<Rightarrow> bool" where
  "sim8 args = (\<lambda>(i, r, W) j (regs, W'). i = j \<and> W = W' \<and> length r = 8 \<and> view8 args r = regs)"

lemma sha2_step_view:
  assumes "args \<in> set calls8" "length r = 8"
  shows "view8 (rot args) (sha2_step S0 S1 k w args r) = sha2_round S0 S1 k w (view8 args r) \<and> length (sha2_step S0 S1 k w args r) = 8"
  using assms unfolding calls8_def list.set insert_iff empty_iff
  by (elim disjE) (simp_all add: rot_def view8_def sha2_step_def sha2_round_def Let_def add_ac)

lemma orbit8_calls: "i < 8 \<Longrightarrow> (rot ^^ i) [0, 1, 2, 3, 4, 5, 6, 7] \<in> set calls8"
  unfolding calls8_orbit(1) by (auto simp: orbit_def)

text \<open>Bodies that run the eight calls a number of times.\<close>

lemma calls8_power:
  assumes "sim8 [0, 1, 2, 3, 4, 5, 6, 7] s j t"
    and "\<And>args s j t. args \<in> set calls8 \<Longrightarrow> sim8 args s j t \<Longrightarrow> sim8 (rot args) (G args s) (Suc j) (F j t)"
  shows "sim8 [0, 1, 2, 3, 4, 5, 6, 7] ((fold G calls8 ^^ n) s) (j + 8 * n) (for_up j (j + 8 * n) F t)"
proof (induction n)
  case (Suc n)
  have "sim8 ((rot ^^ 8) [0, 1, 2, 3, 4, 5, 6, 7]) (fold G (orbit 8 [0, 1, 2, 3, 4, 5, 6, 7]) ((fold G calls8 ^^ n) s)) (j + 8 * n + 8)
      (for_up (j + 8 * n) (j + 8 * n + 8) F (for_up j (j + 8 * n) F t))"
    by (rule orbit_simulation[where R = sim8, OF Suc]) (use assms(2) orbit8_calls in simp)
  moreover have e: "j + 8 * Suc n = j + 8 * n + 8" by simp
  moreover have "for_up j (j + 8 * n + 8) F t = for_up (j + 8 * n) (j + 8 * n + 8) F (for_up j (j + 8 * n) F t)"
    by (rule for_up_split) simp_all
  ultimately show ?case
    unfolding calls8_orbit(2) calls8_orbit(1)[symmetric] funpow.simps(2) o_def e by (simp only:)
qed (use assms(1) in simp)

lemma sim8_step:
  assumes "args \<in> set calls8" "sim8 args s j t"
    and "G = (\<lambda>(j, r, W). let W = upd j W in (j + 1, sha2_step S0 S1 (K j) (w j W) args r, W))"
    and "F = (\<lambda>j (regs, W). let W = upd j W in (sha2_round S0 S1 (K j) (w j W) regs, W))"
  shows "sim8 (rot args) (G s) (Suc j) (F j t)"
proof -
  obtain r W where s: "s = (j, r, W)" "t = (view8 args r, W)" "length r = 8"
    using assms(2) by (auto simp: sim8_def split: prod.splits)
  show ?thesis
    using sha2_step_view[OF assms(1) s(3), of S0 S1 "K j" "w j (upd j W)"] by (simp add: s sim8_def assms(3,4) Let_def)
qed

lemma sim8_init: "8 \<le> length st \<Longrightarrow> sim8 [0, 1, 2, 3, 4, 5, 6, 7] (0, take 8 st, W) 0 (regs8_of st, W)"
  by (simp add: sim8_def view8_def regs8_of_def)

lemma sha256_unrolled:
  assumes "8 \<le> length state_in"
  shows "sha256_Transform_unrolled state_in data = sha256_Transform state_in data"
proof -
  let ?F1 = "\<lambda>j (regs, W256). let W256 = W256[j := data ! j]
            in (sha2_round Sigma0_256 Sigma1_256 (K256 ! j) (W256 ! j) regs, W256)"
  let ?F2 = "\<lambda>j (regs, W256). let s0 = sigma0_256 (W256 ! ((j + 1) mod 16)); s1 = sigma1_256 (W256 ! ((j + 14) mod 16));
                W256 = W256[j mod 16 := W256 ! (j mod 16) + (s1 + W256 ! ((j + 9) mod 16) + s0)]
            in (sha2_round Sigma0_256 Sigma1_256 (K256 ! j) (W256 ! (j mod 16)) regs, W256)"
  have G1: "sim8 (rot args) (ROUND256_0_TO_15 data args s) (Suc j) (?F1 j t)" if "args \<in> set calls8" "sim8 args s j t" for args s j t
    by (rule sim8_step[OF that, where upd = "\<lambda>j W. W[j := data ! j]" and w = "\<lambda>j W. W ! j"]) (simp_all add: ROUND256_0_TO_15_def)
  have G2: "sim8 (rot args) (ROUND256 args s) (Suc j) (?F2 j t)" if "args \<in> set calls8" "sim8 args s j t" for args s j t
    by (rule sim8_step[OF that, where w = "\<lambda>j W. W ! (j mod 16)"
          and upd = "\<lambda>j W. W[j mod 16 := W ! (j mod 16) + (sigma1_256 (W ! ((j + 14) mod 16)) + W ! ((j + 9) mod 16) + sigma0_256 (W ! ((j + 1) mod 16)))]"])
      (simp_all add: ROUND256_def Let_def)
  have "sim8 [0, 1, 2, 3, 4, 5, 6, 7] ((fold (ROUND256_0_TO_15 data) calls8 ^^ 2) (0, take 8 state_in, replicate 16 0)) (0 + 8 * 2)
      (for_up 0 (0 + 8 * 2) ?F1 (regs8_of state_in, replicate 16 0))"
    by (rule calls8_power[OF sim8_init[OF assms]]) (rule G1)
  then have "sim8 [0, 1, 2, 3, 4, 5, 6, 7] ((fold ROUND256 calls8 ^^ 6) ((fold (ROUND256_0_TO_15 data) calls8 ^^ 2) (0, take 8 state_in, replicate 16 0)))
      (0 + 8 * 2 + 8 * 6) (for_up (0 + 8 * 2) (0 + 8 * 2 + 8 * 6) ?F2 (for_up 0 (0 + 8 * 2) ?F1 (regs8_of state_in, replicate 16 0)))"
    by (rule calls8_power) (rule G2)
  then show ?thesis
    unfolding sha256_Transform_unrolled_def sha256_Transform_def Let_def
    by (auto simp: sim8_def view8_def regs8_of_def split: prod.splits)
qed

lemma sha512_unrolled:
  assumes "8 \<le> length state_in"
  shows "sha512_Transform_unrolled state_in data = sha512_Transform state_in data"
proof -
  let ?F1 = "\<lambda>j (regs, W512). let W512 = W512[j := data ! j]
            in (sha2_round Sigma0_512 Sigma1_512 (K512 ! j) (W512 ! j) regs, W512)"
  let ?F2 = "\<lambda>j (regs, W512). let s0 = sigma0_512 (W512 ! ((j + 1) mod 16)); s1 = sigma1_512 (W512 ! ((j + 14) mod 16));
                W512 = W512[j mod 16 := W512 ! (j mod 16) + (s1 + W512 ! ((j + 9) mod 16) + s0)]
            in (sha2_round Sigma0_512 Sigma1_512 (K512 ! j) (W512 ! (j mod 16)) regs, W512)"
  have G1: "sim8 (rot args) (ROUND512_0_TO_15 data args s) (Suc j) (?F1 j t)" if "args \<in> set calls8" "sim8 args s j t" for args s j t
    by (rule sim8_step[OF that, where upd = "\<lambda>j W. W[j := data ! j]" and w = "\<lambda>j W. W ! j"]) (simp_all add: ROUND512_0_TO_15_def)
  have G2: "sim8 (rot args) (ROUND512 args s) (Suc j) (?F2 j t)" if "args \<in> set calls8" "sim8 args s j t" for args s j t
    by (rule sim8_step[OF that, where w = "\<lambda>j W. W ! (j mod 16)"
          and upd = "\<lambda>j W. W[j mod 16 := W ! (j mod 16) + (sigma1_512 (W ! ((j + 14) mod 16)) + W ! ((j + 9) mod 16) + sigma0_512 (W ! ((j + 1) mod 16)))]"])
      (simp_all add: ROUND512_def Let_def)
  have "sim8 [0, 1, 2, 3, 4, 5, 6, 7] ((fold (ROUND512_0_TO_15 data) calls8 ^^ 2) (0, take 8 state_in, replicate 16 0)) (0 + 8 * 2)
      (for_up 0 (0 + 8 * 2) ?F1 (regs8_of state_in, replicate 16 0))"
    by (rule calls8_power[OF sim8_init[OF assms]]) (rule G1)
  then have "sim8 [0, 1, 2, 3, 4, 5, 6, 7] ((fold ROUND512 calls8 ^^ 8) ((fold (ROUND512_0_TO_15 data) calls8 ^^ 2) (0, take 8 state_in, replicate 16 0)))
      (0 + 8 * 2 + 8 * 8) (for_up (0 + 8 * 2) (0 + 8 * 2 + 8 * 8) ?F2 (for_up 0 (0 + 8 * 2) ?F1 (regs8_of state_in, replicate 16 0)))"
    by (rule calls8_power) (rule G2)
  then show ?thesis
    unfolding sha512_Transform_unrolled_def sha512_Transform_def Let_def
    by (auto simp: sim8_def view8_def regs8_of_def split: prod.splits)
qed

definition sim5 :: "nat list \<Rightarrow> u32 unrolled \<Rightarrow> nat \<Rightarrow> regs5 \<times> u32 list \<Rightarrow> bool" where
  "sim5 args = (\<lambda>(i, r, W) j (regs, W'). i = j \<and> W = W' \<and> length r = 5
     \<and> (r ! (args ! 0), r ! (args ! 1), r ! (args ! 2), r ! (args ! 3), r ! (args ! 4)) = regs)"

lemma orbit_Suc: "orbit (Suc n) args = args # orbit n (rot args)"
  by (simp add: orbit_def upt_conv_Cons map_Suc_upt[symmetric] funpow_swap1 o_def del: upt_Suc funpow.simps)
    (simp add: funpow_swap1)

lemma orbit_0: "orbit 0 args = []" by (simp add: orbit_def)

lemma rot_5: "rot [a, b, c, d, e] = [e, a, b, c, d]" by (simp add: rot_def)

lemma orbit_5:
  "orbit 20 [a, b, c, d, e] = (let cs = [[a, b, c, d, e], [e, a, b, c, d], [d, e, a, b, c], [c, d, e, a, b], [b, c, d, e, a]] in cs @ cs @ cs @ cs)"
  "orbit 16 [a, b, c, d, e] = (let cs = [[a, b, c, d, e], [e, a, b, c, d], [d, e, a, b, c], [c, d, e, a, b], [b, c, d, e, a]] in cs @ cs @ cs @ [[a, b, c, d, e]])"
  "orbit 4 [a, b, c, d, e] = [[a, b, c, d, e], [e, a, b, c, d], [d, e, a, b, c], [c, d, e, a, b]]"
  by (simp_all add: numeral_eq_Suc orbit_Suc orbit_0 rot_5)

lemma rot_power_5:
  "(rot ^^ 20) [a, b, c, d, e] = [a, b, c, d, e]" "(rot ^^ 16) [a, b, c, d, e] = [e, a, b, c, d]" "(rot ^^ 4) [a, b, c, d, e] = [b, c, d, e, a]"
  by (simp_all add: numeral_eq_Suc rot_5)

lemma calls5_orbit:
  "calls5 @ calls5 @ calls5 @ [calls5 ! 0] = orbit 16 [0, 1, 2, 3, 4]" "tl calls5 = orbit 4 [4, 0, 1, 2, 3]"
  "calls5 @ calls5 @ calls5 @ calls5 = orbit 20 [0, 1, 2, 3, 4]"
  "(rot ^^ 16) [0 :: nat, 1, 2, 3, 4] = [4, 0, 1, 2, 3]" "(rot ^^ 4) [4 :: nat, 0, 1, 2, 3] = [0, 1, 2, 3, 4]"
  "(rot ^^ 20) [0 :: nat, 1, 2, 3, 4] = [0, 1, 2, 3, 4]"
  unfolding orbit_5 rot_power_5 by (simp_all add: calls5_def)

lemma orbit5_calls: "(rot ^^ i) [0, 1, 2, 3, 4] \<in> set calls5"
proof (induction i)
  case (Suc i)
  have "\<forall>args\<in>set calls5. rot args \<in> set calls5" by code_simp
  then show ?case using Suc by simp
qed (simp add: calls5_def)

lemma orbit5_calls': "(rot ^^ i) [4, 0, 1, 2, 3] \<in> set calls5"
  using orbit5_calls[of "i + 16"] unfolding funpow_add o_apply calls5_orbit(4) .

lemma sim5_first:
  assumes "args \<in> set calls5" "sim5 args s j t"
  shows "sim5 (rot args) (ROUND1_0_TO_15 data args s) (Suc j)
    ((\<lambda>j (regs, W1). let W1 = W1[j := data ! j] in (sha1_round Ch 0x5a827999 (W1 ! j) regs, W1)) j t)"
proof -
  obtain r W where s: "s = (j, r, W)" "length r = 5"
    "t = ((r ! (args ! 0), r ! (args ! 1), r ! (args ! 2), r ! (args ! 3), r ! (args ! 4)), W)"
    using assms(2) by (auto simp: sim5_def split: prod.splits)
  show ?thesis
    using assms(1) s(2) unfolding s(1,3) calls5_def list.set insert_iff empty_iff
    by (elim disjE) (simp_all add: sim5_def rot_def ROUND1_0_TO_15_def sha1_round_def Let_def)
qed

lemma sim5_step:
  assumes "args \<in> set calls5" "sim5 args s j t"
  shows "sim5 (rot args) (ROUND1_STEP f k args s) (Suc j)
    ((\<lambda>j (regs, W1).
     let T1 = W1 ! ((j + 13) mod 16) XOR W1 ! ((j + 8) mod 16) XOR W1 ! ((j + 2) mod 16) XOR W1 ! (j mod 16);
         W1 = W1[j mod 16 := ROTL32 1 T1]
     in (sha1_round f k (W1 ! (j mod 16)) regs, W1)) j t)"
proof -
  obtain r W where s: "s = (j, r, W)" "length r = 5"
    "t = ((r ! (args ! 0), r ! (args ! 1), r ! (args ! 2), r ! (args ! 3), r ! (args ! 4)), W)"
    using assms(2) by (auto simp: sim5_def split: prod.splits)
  show ?thesis
    using assms(1) s(2) unfolding s(1,3) calls5_def list.set insert_iff empty_iff
    by (elim disjE) (simp_all add: sim5_def rot_def ROUND1_STEP_def sha1_round_def Let_def)
qed

lemma sha1_unrolled:
  assumes "5 \<le> length state_in"
  shows "sha1_Transform_unrolled state_in data = sha1_Transform state_in data"
proof -
  let ?F = "\<lambda>j (regs, W1). let W1 = W1[j := data ! j] in (sha1_round Ch 0x5a827999 (W1 ! j) regs, W1)"
  let ?st = "(state_in ! 0, state_in ! 1, state_in ! 2, state_in ! 3, state_in ! 4)"
  let ?s0 = "(0, take 5 state_in, replicate 16 0)" and ?t0 = "(?st, replicate 16 0)"
  have s0: "sim5 [0, 1, 2, 3, 4] ?s0 0 ?t0" using assms by (simp add: sim5_def)
  let ?s1 = "fold (ROUND1_0_TO_15 data) (orbit 16 [0, 1, 2, 3, 4]) ?s0" and ?t1 = "for_up 0 16 ?F ?t0"
  have "sim5 ((rot ^^ 16) [0, 1, 2, 3, 4]) ?s1 (0 + 16) (for_up 0 (0 + 16) ?F ?t0)"
    by (rule orbit_simulation[where R = sim5, OF s0]) (use sim5_first orbit5_calls in simp)
  then have s1: "sim5 [4, 0, 1, 2, 3] ?s1 16 ?t1" by (simp only: calls5_orbit(4) add_0_left)
  let ?s2 = "fold (ROUND1_STEP Ch 0x5a827999) (orbit 4 [4, 0, 1, 2, 3]) ?s1" and ?t2 = "sha1_rounds Ch 0x5a827999 16 20 ?t1"
  have "sim5 ((rot ^^ 4) [4, 0, 1, 2, 3]) ?s2 (16 + 4) (sha1_rounds Ch 0x5a827999 16 (16 + 4) ?t1)"
    unfolding sha1_rounds_def by (rule orbit_simulation[where R = sim5, OF s1]) (use sim5_step orbit5_calls' in simp)
  moreover have "16 + 4 = (20 :: nat)" by simp
  ultimately have s2: "sim5 [0, 1, 2, 3, 4] ?s2 20 ?t2" by (simp only: calls5_orbit(5))
  have cycle: "sim5 [0, 1, 2, 3, 4] (fold (ROUND1_STEP f k) (orbit 20 [0, 1, 2, 3, 4]) s) (j + 20) (sha1_rounds f k j (j + 20) t)"
    if "sim5 [0, 1, 2, 3, 4] s j t" for f k s j t
  proof -
    have "sim5 ((rot ^^ 20) [0, 1, 2, 3, 4]) (fold (ROUND1_STEP f k) (orbit 20 [0, 1, 2, 3, 4]) s) (j + 20) (sha1_rounds f k j (j + 20) t)"
      unfolding sha1_rounds_def by (rule orbit_simulation[where R = sim5, OF that]) (use sim5_step orbit5_calls in simp)
    then show ?thesis by (simp only: calls5_orbit(6))
  qed
  let ?c = "\<lambda>f k. fold (ROUND1_STEP f k) (orbit 20 [0, 1, 2, 3, 4])"
  have s3: "sim5 [0, 1, 2, 3, 4] (?c Parity 0x6ed9eba1 ?s2) 40 (sha1_rounds Parity 0x6ed9eba1 20 40 ?t2)"
    using cycle[OF s2] by simp
  have s4: "sim5 [0, 1, 2, 3, 4] (?c Maj 0x8f1bbcdc (?c Parity 0x6ed9eba1 ?s2)) 60
      (sha1_rounds Maj 0x8f1bbcdc 40 60 (sha1_rounds Parity 0x6ed9eba1 20 40 ?t2))"
    using cycle[OF s3] by simp
  have "sim5 [0, 1, 2, 3, 4] (?c Parity 0xca62c1d6 (?c Maj 0x8f1bbcdc (?c Parity 0x6ed9eba1 ?s2))) 80
      (sha1_rounds Parity 0xca62c1d6 60 80 (sha1_rounds Maj 0x8f1bbcdc 40 60 (sha1_rounds Parity 0x6ed9eba1 20 40 ?t2)))"
    using cycle[OF s4] by simp
  then show ?thesis
    unfolding sha1_Transform_unrolled_def sha1_Transform_def Let_def calls5_orbit
    by (auto simp: sim5_def split: prod.splits)
qed

section \<open>The loops compute the message schedule of the standard\<close>

fun sha2_sched :: "('a::len word \<Rightarrow> 'a word) \<Rightarrow> ('a word \<Rightarrow> 'a word) \<Rightarrow> 'a word list \<Rightarrow> nat \<Rightarrow> 'a word" where
  "sha2_sched \<sigma>0 \<sigma>1 M t = (if t < 16 then M ! t
     else \<sigma>1 (sha2_sched \<sigma>0 \<sigma>1 M (t - 2)) + sha2_sched \<sigma>0 \<sigma>1 M (t - 7) + \<sigma>0 (sha2_sched \<sigma>0 \<sigma>1 M (t - 15)) + sha2_sched \<sigma>0 \<sigma>1 M (t - 16))"

fun sha1_sched :: "u32 list \<Rightarrow> nat \<Rightarrow> u32" where
  "sha1_sched M t = (if t < 16 then M ! t
     else ROTL32 1 (sha1_sched M (t - 3) XOR sha1_sched M (t - 8) XOR sha1_sched M (t - 14) XOR sha1_sched M (t - 16)))"

declare sha2_sched.simps [simp del] sha1_sched.simps [simp del]

definition sha256_compress :: "u32 list \<Rightarrow> u32 list \<Rightarrow> u32 list" where
  "sha256_compress st M = regs8_add st
     (fold (\<lambda>t. sha2_round Sigma0_256 Sigma1_256 (K256 ! t) (sha2_sched sigma0_256 sigma1_256 M t)) [0..<64] (regs8_of st))"

definition sha512_compress :: "u64 list \<Rightarrow> u64 list \<Rightarrow> u64 list" where
  "sha512_compress st M = regs8_add st
     (fold (\<lambda>t. sha2_round Sigma0_512 Sigma1_512 (K512 ! t) (sha2_sched sigma0_512 sigma1_512 M t)) [0..<80] (regs8_of st))"

definition sha1_f :: "nat \<Rightarrow> u32 \<Rightarrow> u32 \<Rightarrow> u32 \<Rightarrow> u32" where
  "sha1_f t = (if t < 20 then Ch else if t < 40 then Parity else if t < 60 then Maj else Parity)"

definition sha1_K :: "nat \<Rightarrow> u32" where
  "sha1_K t = (if t < 20 then 0x5a827999 else if t < 40 then 0x6ed9eba1 else if t < 60 then 0x8f1bbcdc else 0xca62c1d6)"

definition sha1_compress :: "u32 list \<Rightarrow> u32 list \<Rightarrow> u32 list" where
  "sha1_compress st M =
     (let (a, b, c, d, e) = fold (\<lambda>t. sha1_round (sha1_f t) (sha1_K t) (sha1_sched M t)) [0..<80]
            (st ! 0, st ! 1, st ! 2, st ! 3, st ! 4)
      in [st ! 0 + a, st ! 1 + b, st ! 2 + c, st ! 3 + d, st ! 4 + e])"

text \<open>The window of sixteen words: word \<open>t\<close> of the schedule at \<open>t mod 16\<close>.\<close>

definition window :: "(nat \<Rightarrow> 'w) \<Rightarrow> nat \<Rightarrow> 'w list \<Rightarrow> bool" where
  "window S j W \<longleftrightarrow> length W = 16 \<and> (\<forall>t. t < j \<and> j \<le> t + 16 \<longrightarrow> W ! (t mod 16) = S t)"

lemma window_step: "window S j W \<Longrightarrow> window S (Suc j) (W[j mod 16 := S j])"
proof -
  assume w: "window S j W"
  have "(W[j mod 16 := S j]) ! (t mod 16) = S t" if "t < Suc j" "Suc j \<le> t + 16" for t
  proof (cases "t = j")
    case False
    then have "t < j" using that by simp
    then have "t mod 16 \<noteq> j mod 16"
    proof (intro notI)
      assume "t mod 16 = j mod 16"
      then have "16 dvd j - t" using \<open>t < j\<close> mod_eq_dvd_iff_nat[of t j 16] by simp
      then have "16 \<le> j - t" using \<open>t < j\<close> by (intro dvd_imp_le) simp_all
      then show False using that by simp
    qed
    then show ?thesis using w that \<open>t < j\<close> by (simp add: window_def)
  qed (use w in \<open>simp add: window_def\<close>)
  then show ?thesis using w by (simp add: window_def)
qed

lemma window_nth: "window S j W \<Longrightarrow> 16 \<le> j \<Longrightarrow> k < 16 \<Longrightarrow> W ! ((j + k) mod 16) = S (j + k - 16)"
proof -
  assume a: "window S j W" "16 \<le> j" "k < 16"
  then have "(j + k) mod 16 = (j + k - 16) mod 16" by (simp add: le_mod_geq)
  then show ?thesis using a by (simp add: window_def)
qed

lemma rounds_window:
  assumes "lo \<le> hi" "window S lo W" "\<And>j r W. lo \<le> j \<Longrightarrow> j < hi \<Longrightarrow> window S j W \<Longrightarrow> F j (r, W) = (R j (S j) r, W[j mod 16 := S j])"
  shows "\<exists>W'. for_up lo hi F (r, W) = (fold (\<lambda>t. R t (S t)) [lo..<hi] r, W') \<and> window S hi W'"
  using assms
proof (induction hi rule: dec_induct)
  case base
  then show ?case by simp
next
  case (step n)
  obtain W' where "for_up lo n F (r, W) = (fold (\<lambda>t. R t (S t)) [lo..<n] r, W')" "window S n W'"
    using step.IH[OF step.prems(1)] step.prems(2) by (metis less_SucI)
  then show ?case
    using step.prems(2)[of n W' "fold (\<lambda>t. R t (S t)) [lo..<n] r"] step.hyps window_step[of S n W'] by (simp add: for_up_last)
qed

lemma window_0: "length W = 16 \<Longrightarrow> window S 0 W"
  by (simp add: window_def)

lemma sched_window:
  assumes "window (sha2_sched s0 s1 M) j W" "16 \<le> j"
  shows "W ! (j mod 16) + (s1 (W ! ((j + 14) mod 16)) + W ! ((j + 9) mod 16) + s0 (W ! ((j + 1) mod 16))) = sha2_sched s0 s1 M j"
proof -
  have "W ! (j mod 16) = sha2_sched s0 s1 M (j - 16)" "W ! ((j + 14) mod 16) = sha2_sched s0 s1 M (j - 2)"
    "W ! ((j + 9) mod 16) = sha2_sched s0 s1 M (j - 7)" "W ! ((j + 1) mod 16) = sha2_sched s0 s1 M (j - 15)"
    using window_nth[OF assms, of 0] window_nth[OF assms, of 14] window_nth[OF assms, of 9] window_nth[OF assms, of 1] assms(2) by simp_all
  then show ?thesis using assms(2) by (subst sha2_sched.simps) (simp add: add_ac)
qed

lemma sha2_loops:
  fixes K M :: "'a::len word list" and S0 S1 s0 s1 :: "'a word \<Rightarrow> 'a word"
  assumes "16 \<le> n" and "length W0 = 16"
    and F1: "F1 = (\<lambda>j (regs, W). let W = W[j := M ! j] in (sha2_round S0 S1 (K ! j) (W ! j) regs, W))"
    and F2: "F2 = (\<lambda>j (regs, W). let s0 = s0 (W ! ((j + 1) mod 16)); s1 = s1 (W ! ((j + 14) mod 16));
                W = W[j mod 16 := W ! (j mod 16) + (s1 + W ! ((j + 9) mod 16) + s0)]
            in (sha2_round S0 S1 (K ! j) (W ! (j mod 16)) regs, W))"
  shows "fst (for_up 16 n F2 (for_up 0 16 F1 (r, W0))) = fold (\<lambda>t. sha2_round S0 S1 (K ! t) (sha2_sched s0 s1 M t)) [0..<n] r"
proof -
  let ?S = "sha2_sched s0 s1 M" and ?R = "\<lambda>j. sha2_round S0 S1 (K ! j)"
  have "F1 j (r, W) = (?R j (?S j) r, W[j mod 16 := ?S j])" if "j < 16" "window ?S j W" for j r W
    using that by (simp add: F1 Let_def window_def sha2_sched.simps[of s0 s1 M j])
  then obtain W where W: "for_up 0 16 F1 (r, W0) = (fold (\<lambda>t. ?R t (?S t)) [0..<16] r, W)" "window ?S 16 W"
    using rounds_window[of 0 16 ?S W0 F1 ?R r] window_0[OF assms(2)] by blast
  have "F2 j (r, W) = (?R j (?S j) r, W[j mod 16 := ?S j])" if "16 \<le> j" "window ?S j W" for j r W
    unfolding F2 Let_def prod.case sched_window[OF that(2,1)] using that by (simp add: window_def)
  then obtain W' where "for_up 16 n F2 (for_up 0 16 F1 (r, W0)) = (fold (\<lambda>t. ?R t (?S t)) [16..<n] (fold (\<lambda>t. ?R t (?S t)) [0..<16] r), W')"
    unfolding W(1) using rounds_window[of 16 n ?S W F2 ?R] assms(1) W(2) by blast
  moreover have "[0..<n] = [0..<16] @ [16..<n]" using upt_add_eq_append[of 0 16 "n - 16"] assms(1) by simp
  ultimately show ?thesis by simp
qed

lemma sha256_Transform_compress: "sha256_Transform st M = sha256_compress st M"
  using sha2_loops[where n = 64 and ?W0.0 = "replicate 16 0" and ?S0.0 = Sigma0_256 and ?S1.0 = Sigma1_256 and ?s0.0 = sigma0_256
      and ?s1.0 = sigma1_256 and K = K256 and M = M and r = "regs8_of st", OF _ _ refl refl]
  by (simp add: sha256_Transform_def sha256_compress_def Let_def split_def)

lemma sha512_Transform_compress: "sha512_Transform st M = sha512_compress st M"
  using sha2_loops[where n = 80 and ?W0.0 = "replicate 16 0" and ?S0.0 = Sigma0_512 and ?S1.0 = Sigma1_512 and ?s0.0 = sigma0_512
      and ?s1.0 = sigma1_512 and K = K512 and M = M and r = "regs8_of st", OF _ _ refl refl]
  by (simp add: sha512_Transform_def sha512_compress_def Let_def split_def)

lemma sha1_window:
  assumes "window (sha1_sched M) j W" "16 \<le> j"
  shows "ROTL32 1 (W ! ((j + 13) mod 16) XOR W ! ((j + 8) mod 16) XOR W ! ((j + 2) mod 16) XOR W ! (j mod 16)) = sha1_sched M j"
proof -
  have "W ! (j mod 16) = sha1_sched M (j - 16)" "W ! ((j + 13) mod 16) = sha1_sched M (j - 3)"
    "W ! ((j + 8) mod 16) = sha1_sched M (j - 8)" "W ! ((j + 2) mod 16) = sha1_sched M (j - 14)"
    using window_nth[OF assms, of 0] window_nth[OF assms, of 13] window_nth[OF assms, of 8] window_nth[OF assms, of 2] assms(2) by simp_all
  then show ?thesis using assms(2) by (subst sha1_sched.simps) simp
qed

lemma sha1_rounds_window:
  assumes "16 \<le> lo" "lo \<le> hi" "window (sha1_sched M) lo W" "\<And>t. lo \<le> t \<Longrightarrow> t < hi \<Longrightarrow> sha1_f t = f \<and> sha1_K t = k"
  shows "\<exists>W'. sha1_rounds f k lo hi (r, W) = (fold (\<lambda>t. sha1_round (sha1_f t) (sha1_K t) (sha1_sched M t)) [lo..<hi] r, W')
    \<and> window (sha1_sched M) hi W'"
  unfolding sha1_rounds_def
proof (rule rounds_window[OF assms(2,3)])
  fix j r and W :: "u32 list"
  assume j: "lo \<le> j" "j < hi" "window (sha1_sched M) j W"
  have s: "ROTL32 1 (W ! ((j + 13) mod 16) XOR W ! ((j + 8) mod 16) XOR W ! ((j + 2) mod 16) XOR W ! (j mod 16)) = sha1_sched M j"
    by (rule sha1_window[OF j(3)]) (use j(1) assms(1) in simp)
  show "(case (r, W) of (regs, W1) \<Rightarrow> let T1 = W1 ! ((j + 13) mod 16) XOR W1 ! ((j + 8) mod 16) XOR W1 ! ((j + 2) mod 16) XOR W1 ! (j mod 16);
         W1 = W1[j mod 16 := ROTL32 1 T1] in (sha1_round f k (W1 ! (j mod 16)) regs, W1))
      = (sha1_round (sha1_f j) (sha1_K j) (sha1_sched M j) r, W[j mod 16 := sha1_sched M j])"
    unfolding Let_def prod.case s using assms(4)[OF j(1,2)] j(3) by (simp add: window_def)
qed

lemma sha1_Transform_compress: "sha1_Transform st M = sha1_compress st M"
proof -
  let ?S = "sha1_sched M" and ?R = "\<lambda>j. sha1_round (sha1_f j) (sha1_K j)"
  define F1 where "F1 = (\<lambda>j (regs, W1). let W1 = W1[j := M ! j] in (sha1_round Ch 0x5a827999 (W1 ! j) regs, W1))"
  let ?r = "(st ! 0, st ! 1, st ! 2, st ! 3, st ! 4)" and ?f = "\<lambda>t. ?R t (?S t)"
  have "F1 j (r, W) = (?R j (?S j) r, W[j mod 16 := ?S j])" if "j < 16" "window ?S j W" for j r W
    using that by (simp add: F1_def Let_def window_def sha1_sched.simps[of M j] sha1_f_def sha1_K_def)
  then obtain W1 where W1: "for_up 0 16 F1 (?r, replicate 16 0) = (fold ?f [0..<16] ?r, W1)" "window ?S 16 W1"
    using rounds_window[of 0 16 ?S "replicate 16 0" F1 ?R ?r] window_0[of "replicate 16 0" ?S] by auto
  have "\<exists>W'. sha1_rounds Ch 0x5a827999 16 20 (fold ?f [0..<16] ?r, W1) = (fold ?f [16..<20] (fold ?f [0..<16] ?r), W') \<and> window ?S 20 W'"
    by (rule sha1_rounds_window[OF _ _ W1(2)]) (simp_all add: sha1_f_def sha1_K_def)
  then obtain W2 where W2: "sha1_rounds Ch 0x5a827999 16 20 (fold ?f [0..<16] ?r, W1) = (fold ?f [16..<20] (fold ?f [0..<16] ?r), W2)" "window ?S 20 W2" by blast
  have "\<exists>W'. sha1_rounds Parity 0x6ed9eba1 20 40 (fold ?f [0..<20] ?r, W2) = (fold ?f [20..<40] (fold ?f [0..<20] ?r), W') \<and> window ?S 40 W'"
    by (rule sha1_rounds_window[OF _ _ W2(2)]) (simp_all add: sha1_f_def sha1_K_def)
  then obtain W3 where W3: "sha1_rounds Parity 0x6ed9eba1 20 40 (fold ?f [0..<20] ?r, W2) = (fold ?f [20..<40] (fold ?f [0..<20] ?r), W3)" "window ?S 40 W3" by blast
  have "\<exists>W'. sha1_rounds Maj 0x8f1bbcdc 40 60 (fold ?f [0..<40] ?r, W3) = (fold ?f [40..<60] (fold ?f [0..<40] ?r), W') \<and> window ?S 60 W'"
    by (rule sha1_rounds_window[OF _ _ W3(2)]) (simp_all add: sha1_f_def sha1_K_def)
  then obtain W4 where W4: "sha1_rounds Maj 0x8f1bbcdc 40 60 (fold ?f [0..<40] ?r, W3) = (fold ?f [40..<60] (fold ?f [0..<40] ?r), W4)" "window ?S 60 W4" by blast
  have "\<exists>W'. sha1_rounds Parity 0xca62c1d6 60 80 (fold ?f [0..<60] ?r, W4) = (fold ?f [60..<80] (fold ?f [0..<60] ?r), W') \<and> window ?S 80 W'"
    by (rule sha1_rounds_window[OF _ _ W4(2)]) (simp_all add: sha1_f_def sha1_K_def)
  then obtain W5 where W5: "sha1_rounds Parity 0xca62c1d6 60 80 (fold ?f [0..<60] ?r, W4) = (fold ?f [60..<80] (fold ?f [0..<60] ?r), W5)" by blast
  have split: "fold ?f [m..<n] (fold ?f [0..<m] ?r) = fold ?f [0..<n] ?r" if "m \<le> n" for m n
    using upt_add_eq_append[of 0 m "n - m"] that by simp
  show ?thesis
    unfolding sha1_Transform_def sha1_compress_def Let_def
    using W1(1)[unfolded F1_def Let_def] W2(1) W3(1) W4(1) W5 by (simp only: split prod.case) (simp split: prod.splits)
qed

section \<open>The streaming interfaces\<close>

definition sha1_alg :: "(u32, u64) sha_alg" where
  "sha1_alg = \<lparr>block_len = 64, word_len = 4, reverse_word = REVERSE32, transform = sha1_Transform,
     count_low = (\<lambda>c. c), count_add = (\<lambda>c n. c + n),
     count_words = (\<lambda>c. [ucast (drop_bit 32 c), ucast (c AND 0xffffffff)])\<rparr>"

definition sha256_alg :: "(u32, u64) sha_alg" where
  "sha256_alg = sha1_alg\<lparr>transform := sha256_Transform\<rparr>"

definition sha512_alg :: "(u64, u64 \<times> u64) sha_alg" where
  "sha512_alg = \<lparr>block_len = 128, word_len = 8, reverse_word = REVERSE64, transform = sha512_Transform,
     count_low = fst, count_add = ADDINC128, count_words = (\<lambda>c. [snd c, fst c])\<rparr>"

type_synonym SHA1_CTX = "(u32, u64) sha_ctx"
type_synonym SHA256_CTX = "(u32, u64) sha_ctx"
type_synonym SHA512_CTX = "(u64, u64 \<times> u64) sha_ctx"

definition sha1_Init :: SHA1_CTX where
  "sha1_Init = \<lparr>sha_state = sha1_initial_hash_value, bitcount = 0, buffer = replicate 64 0\<rparr>"

definition sha256_Init :: SHA256_CTX where
  "sha256_Init = \<lparr>sha_state = sha256_initial_hash_value, bitcount = 0, buffer = replicate 64 0\<rparr>"

definition sha512_Init :: SHA512_CTX where
  "sha512_Init = \<lparr>sha_state = sha512_initial_hash_value, bitcount = (0, 0), buffer = replicate 128 0\<rparr>"

definition sha512_256_Init :: SHA512_CTX where
  "sha512_256_Init = \<lparr>sha_state = sha512_256_initial_hash_value, bitcount = (0, 0), buffer = replicate 128 0\<rparr>"

definition sha1_Update :: "SHA1_CTX \<Rightarrow> u8 list \<Rightarrow> SHA1_CTX" where
  "sha1_Update = sha_Update sha1_alg"

definition sha256_Update :: "SHA256_CTX \<Rightarrow> u8 list \<Rightarrow> SHA256_CTX" where
  "sha256_Update = sha_Update sha256_alg"

definition sha512_Update :: "SHA512_CTX \<Rightarrow> u8 list \<Rightarrow> SHA512_CTX" where
  "sha512_Update = sha_Update sha512_alg"

text \<open>The digest, and the context cleared by \<open>memzero\<close>.\<close>

definition sha1_Final :: "SHA1_CTX \<Rightarrow> u8 list \<times> SHA1_CTX" where
  "sha1_Final ctx = (take 20 (sha_Final sha1_alg ctx), \<lparr>sha_state = replicate 5 0, bitcount = 0, buffer = replicate 64 0\<rparr>)"

definition sha256_Final :: "SHA256_CTX \<Rightarrow> u8 list \<times> SHA256_CTX" where
  "sha256_Final ctx = (take 32 (sha_Final sha256_alg ctx), \<lparr>sha_state = replicate 8 0, bitcount = 0, buffer = replicate 64 0\<rparr>)"

definition sha512_Final :: "SHA512_CTX \<Rightarrow> u8 list \<times> SHA512_CTX" where
  "sha512_Final ctx = (take 64 (sha_Final sha512_alg ctx), \<lparr>sha_state = replicate 8 0, bitcount = (0, 0), buffer = replicate 128 0\<rparr>)"

definition sha1_Raw :: "u8 list \<Rightarrow> u8 list" where
  "sha1_Raw data = fst (sha1_Final (sha1_Update sha1_Init data))"

definition sha256_Raw :: "u8 list \<Rightarrow> u8 list" where
  "sha256_Raw data = fst (sha256_Final (sha256_Update sha256_Init data))"

definition sha512_Raw :: "u8 list \<Rightarrow> u8 list" where
  "sha512_Raw data = fst (sha512_Final (sha512_Update sha512_Init data))"

definition sha512_256_Raw :: "u8 list \<Rightarrow> u8 list" where
  "sha512_256_Raw data = take 32 (fst (sha512_Final (sha512_Update sha512_256_Init data)))"

text \<open>The hexadecimal digests, with the final \<open>NUL\<close>.\<close>

definition sha2_hex_digits :: "u8 list" where
  "sha2_hex_digits = map (\<lambda>c. of_nat (of_char c)) ''0123456789abcdef''"

definition sha2_hex :: "u8 list \<Rightarrow> u8 list" where
  "sha2_hex digest = concat (map (\<lambda>d. [sha2_hex_digits ! unat (drop_bit 4 (d AND 0xf0)), sha2_hex_digits ! unat (d AND 0x0f)]) digest) @ [0]"

definition sha1_End :: "SHA1_CTX \<Rightarrow> u8 list" where
  "sha1_End ctx = sha2_hex (fst (sha1_Final ctx))"

definition sha256_End :: "SHA256_CTX \<Rightarrow> u8 list" where
  "sha256_End ctx = sha2_hex (fst (sha256_Final ctx))"

definition sha512_End :: "SHA512_CTX \<Rightarrow> u8 list" where
  "sha512_End ctx = sha2_hex (fst (sha512_Final ctx))"

definition sha1_Data :: "u8 list \<Rightarrow> u8 list" where
  "sha1_Data data = sha1_End (sha1_Update sha1_Init data)"

definition sha256_Data :: "u8 list \<Rightarrow> u8 list" where
  "sha256_Data data = sha256_End (sha256_Update sha256_Init data)"

definition sha512_Data :: "u8 list \<Rightarrow> u8 list" where
  "sha512_Data data = sha512_End (sha512_Update sha512_Init data)"

text \<open>The counters as bytes.\<close>

lemma be_bytes_append: "be_bytes (a + b) n = be_bytes a (n div 256 ^ b) @ be_bytes b n"
proof (rule nth_equalityI)
  fix i assume "i < length (be_bytes (a + b) n)"
  then have i: "i < a + b" by (simp add: be_bytes_def)
  show "be_bytes (a + b) n ! i = (be_bytes a (n div 256 ^ b) @ be_bytes b n) ! i"
  proof (cases "i < a")
    case True
    then have e: "a + b - 1 - i = b + (a - 1 - i)" by simp
    have "n div 256 ^ (a + b - 1 - i) = n div 256 ^ b div 256 ^ (a - 1 - i)"
      unfolding e by (simp only: power_add div_mult2_eq)
    then show ?thesis using True i by (simp add: be_bytes_def nth_append)
  next
    case False
    then have e: "a + b - 1 - i = b - 1 - (i - a)" "i - a < b" using i by simp_all
    have "be_bytes (a + b) n ! i = word_of_nat (n div 256 ^ (b - 1 - (i - a)))"
      using i unfolding be_bytes_def e(1)[symmetric] by simp
    then show ?thesis using False e(2) by (simp add: be_bytes_def nth_append)
  qed
qed (simp add: be_bytes_def)

lemma word_be_of_nat:
  assumes "LENGTH('a) = 8 * k"
  shows "word_be k (word_of_nat n :: 'a::len word) = be_bytes k n"
proof (rule nth_equalityI)
  fix i assume "i < length (word_be k (word_of_nat n :: 'a word))"
  then have i: "i < k" by simp
  define m where "m = k - 1 - i"
  have m: "m < k" "word_be k (word_of_nat n :: 'a word) ! i = ucast (drop_bit (8 * m) (word_of_nat n :: 'a word))"
      "be_bytes k n ! i = word_of_nat (drop_bit (8 * m) n)"
    using i by (simp_all add: m_def word_be_def word_le_def be_bytes_def rev_nth drop_bit_eq_div power_mult)
  show "word_be k (word_of_nat n :: 'a word) ! i = be_bytes k n ! i"
    unfolding m(2,3) using m(1) assms by (intro bit_word_eqI) (auto simp: bit_simps)
qed (simp add: be_bytes_def)

lemma count_pair:
  assumes "LENGTH('a) = 8 * k"
  shows "words_be k [word_of_nat (n div 256 ^ k) :: 'a::len word, word_of_nat n] = be_bytes (2 * k) n"
  using be_bytes_append[of k k n] by (simp add: words_be_def word_be_of_nat[OF assms] mult_2)

lemma count64_high: "ucast (drop_bit 32 (word_of_nat n :: u64)) = (word_of_nat (n div 256 ^ 4) :: u32)"
proof -
  have "n div 256 ^ 4 = drop_bit 32 n" by (simp add: drop_bit_eq_div)
  then show ?thesis by (simp only:) (intro bit_word_eqI, auto simp: bit_simps)
qed

lemma count64_low: "ucast ((word_of_nat n :: u64) AND 0xffffffff) = (word_of_nat n :: u32)"
proof -
  have "(w :: u64) AND 0xffffffff = take_bit 32 w" for w by (simp add: mask_numeral flip: and_mask_take_bit)
  then show ?thesis by (simp only:) (intro bit_word_eqI, auto simp: bit_simps)
qed

lemma ADDINC128_count:
  assumes "m \<le> 1024"
  shows "ADDINC128 (word_of_nat n, word_of_nat (n div 2 ^ 64)) (word_of_nat m) = (word_of_nat (n + m), word_of_nat ((n + m) div 2 ^ 64))"
proof -
  let ?l = "n mod 2 ^ 64"
  have l: "?l < 2 ^ 64" by simp
  have u: "unat (word_of_nat (n + m) :: u64) = (n + m) mod 2 ^ 64" "unat (word_of_nat m :: u64) = m"
    using assms by (simp_all add: unsigned_of_nat take_bit_eq_mod del: of_nat_add)
  have nm: "(n + m) mod 2 ^ 64 = (?l + m) mod 2 ^ 64" "(n + m) div 2 ^ 64 = n div 2 ^ 64 + (?l + m) div 2 ^ 64"
    by (simp add: mod_simps, metis div_add1_eq div_mult_mod_eq mod_add_left_eq add.assoc div_mult_self3 zero_neq_numeral power_eq_0_iff)
  show ?thesis
  proof (cases "?l + m < 2 ^ 64")
    case True
    then have "\<not> word_of_nat (n + m) < (word_of_nat m :: u64)" "(n + m) div 2 ^ 64 = n div 2 ^ 64"
      using u nm by (simp_all add: word_less_nat_alt)
    then show ?thesis by (simp add: ADDINC128_def Let_def)
  next
    case False
    then have "(?l + m) mod 2 ^ 64 = ?l + m - 2 ^ 64" "(?l + m) div 2 ^ 64 = 1"
      using l assms by (simp_all add: le_mod_geq le_div_geq)
    moreover from this have "?l + m - 2 ^ 64 < m" using l False by linarith
    ultimately have "word_of_nat (n + m) < (word_of_nat m :: u64)" "(n + m) div 2 ^ 64 = n div 2 ^ 64 + 1"
      using u nm by (simp_all add: word_less_nat_alt)
    then show ?thesis by (simp add: ADDINC128_def Let_def)
  qed
qed

lemma ADDINC128_exact:
  "uint (snd (ADDINC128 w n)) * 2 ^ 64 + uint (fst (ADDINC128 w n)) = (uint (snd w) * 2 ^ 64 + uint (fst w) + uint n) mod 2 ^ 128"
proof -
  obtain lo hi where w: "w = (lo, hi)" by (cases w)
  note b = uint_lt_u64[of lo] uint_lt_u64[of hi] uint_lt_u64[of n] uint_ge_0[of lo] uint_ge_0[of hi] uint_ge_0[of n]
  show ?thesis
  proof (cases "uint lo + uint n < 2 ^ 64")
    case True
    then have u: "uint (lo + n) = uint lo + uint n" by (simp add: uint_word_ariths)
    then have "\<not> lo + n < n" by (simp add: word_less_def)
    then show ?thesis using True b by (simp add: w ADDINC128_def Let_def u)
  next
    case False
    then have u: "uint (lo + n) = uint lo + uint n - 2 ^ 64"
      using b by (simp add: uint_word_ariths) (subst mod_pos_pos_trivial[symmetric, of _ "2 ^ 64"], simp_all)
    then have c: "lo + n < n" using b by (simp add: word_less_def)
    have "uint (hi + 1) = (if uint hi = 2 ^ 64 - 1 then 0 else uint hi + 1)"
      using b by (simp add: uint_word_ariths)
    then show ?thesis using False b by (cases "uint hi = 2 ^ 64 - 1") (simp_all add: w ADDINC128_def Let_def c u mod_pos_geq)
  qed
qed

interpretation sha1: sha_stream sha1_alg "\<lambda>n. word_of_nat n"
proof unfold_locales
  show "words_be (word_len sha1_alg) (count_words sha1_alg (word_of_nat n)) = be_bytes (2 * word_len sha1_alg) n" for n
    using count_pair[of 4 n, where 'a = 32] by (simp add: sha1_alg_def count64_high count64_low del: power_numeral)
qed (simp_all add: sha1_alg_def REVERSE32_le_word)

interpretation sha256: sha_stream sha256_alg "\<lambda>n. word_of_nat n"
proof unfold_locales
  show "words_be (word_len sha256_alg) (count_words sha256_alg (word_of_nat n)) = be_bytes (2 * word_len sha256_alg) n" for n
    using sha1.count_words[of n] by (simp add: sha256_alg_def sha1_alg_def)
qed (simp_all add: sha256_alg_def sha1_alg_def REVERSE32_le_word)

interpretation sha512: sha_stream sha512_alg "\<lambda>n. (word_of_nat n, word_of_nat (n div 2 ^ 64))"
proof unfold_locales
  show "words_be (word_len sha512_alg) (count_words sha512_alg (word_of_nat n, word_of_nat (n div 2 ^ 64))) = be_bytes (2 * word_len sha512_alg) n" for n
    using count_pair[of 8 n, where 'a = 64] by (simp add: sha512_alg_def)
  show "count_add sha512_alg (word_of_nat n, word_of_nat (n div 2 ^ 64)) (word_of_nat m) = (word_of_nat (n + m), word_of_nat ((n + m) div 2 ^ 64))"
    if "m \<le> 8 * block_len sha512_alg" for m n
    using that ADDINC128_count[of m n] by (simp add: sha512_alg_def)
qed (simp_all add: sha512_alg_def REVERSE64_le_word)

section \<open>The digests\<close>

lemma absorb_state:
  assumes "P s" "\<And>s b. P s \<Longrightarrow> P (f s b)"
  shows "P (fst (absorb f B s msg))"
  using assms
proof (induction f B s msg rule: absorb.induct)
  case (1 f B s msg)
  then show ?case by (subst absorb.simps) simp
qed

definition sha1_fips :: "u8 list \<Rightarrow> u8 list" where
  "sha1_fips msg = words_be 4 (fst (absorb (\<lambda>s b. sha1_compress s (be_words 4 b)) 64 sha1_initial_hash_value (sha_pad 64 8 msg)))"

definition sha256_fips :: "u8 list \<Rightarrow> u8 list" where
  "sha256_fips msg = words_be 4 (fst (absorb (\<lambda>s b. sha256_compress s (be_words 4 b)) 64 sha256_initial_hash_value (sha_pad 64 8 msg)))"

definition sha512_fips :: "u64 list \<Rightarrow> u8 list \<Rightarrow> u8 list" where
  "sha512_fips init msg = words_be 8 (fst (absorb (\<lambda>s b. sha512_compress s (be_words 8 b)) 128 init (sha_pad 128 16 msg)))"

lemma length_sha_fips: "length (sha1_fips msg) = 20" "length (sha256_fips msg) = 32" "length init = 8 \<Longrightarrow> length (sha512_fips init msg) = 64"
proof -
  have "length (fst (absorb (\<lambda>s b. sha1_compress s (be_words 4 b)) 64 sha1_initial_hash_value (sha_pad 64 8 msg))) = 5"
    by (rule absorb_state) (simp_all add: sha1_initial_hash_value_def sha1_compress_def split_def Let_def)
  then show "length (sha1_fips msg) = 20" by (simp add: sha1_fips_def)
  have "length (fst (absorb (\<lambda>s b. sha256_compress s (be_words 4 b)) 64 sha256_initial_hash_value (sha_pad 64 8 msg))) = 8"
    by (rule absorb_state) (simp_all add: sha256_initial_hash_value_def sha256_compress_def regs8_add_def split_def)
  then show "length (sha256_fips msg) = 32" by (simp add: sha256_fips_def)
  have "length (fst (absorb (\<lambda>s b. sha512_compress s (be_words 8 b)) 128 init (sha_pad 128 16 msg))) = 8" if "length init = 8"
    by (rule absorb_state) (simp_all add: that sha512_compress_def regs8_add_def split_def)
  then show "length init = 8 \<Longrightarrow> length (sha512_fips init msg) = 64" by (simp add: sha512_fips_def)
qed

lemma sha256_spec_fips: "sha_spec sha256_alg sha256_initial_hash_value msg = sha256_fips msg"
  unfolding sha_spec_def sha_step_def[abs_def] sha256_fips_def by (simp add: sha256_alg_def sha1_alg_def sha256_Transform_compress)

lemma sha512_spec_fips: "sha_spec sha512_alg init msg = sha512_fips init msg"
  unfolding sha_spec_def sha_step_def[abs_def] sha512_fips_def by (simp add: sha512_alg_def sha512_Transform_compress)

lemma sha1_stream: "fst (sha1_Final (foldl sha1_Update sha1_Init parts)) = sha1_fips (concat parts)"
proof -
  have "absorbed sha1_alg (\<lambda>n. word_of_nat n) sha1_initial_hash_value sha1_Init []"
    by (simp add: absorbed_def sha1_Init_def sha1_alg_def)
  from sha1.stream_digest[OF this, of parts]
  have "sha_Final sha1_alg (foldl sha1_Update sha1_Init parts) = sha1_fips (concat parts)"
    unfolding sha1_Update_def sha_spec_def sha_step_def[abs_def] sha1_fips_def by (simp add: sha1_alg_def sha1_Transform_compress)
  then show ?thesis by (simp add: sha1_Final_def length_sha_fips)
qed

lemma sha256_stream: "fst (sha256_Final (foldl sha256_Update sha256_Init parts)) = sha256_fips (concat parts)"
proof -
  have "absorbed sha256_alg (\<lambda>n. word_of_nat n) sha256_initial_hash_value sha256_Init []"
    by (simp add: absorbed_def sha256_Init_def sha256_alg_def sha1_alg_def)
  from sha256.stream_digest[OF this, of parts]
  have "sha_Final sha256_alg (foldl sha256_Update sha256_Init parts) = sha256_fips (concat parts)"
    unfolding sha256_Update_def sha256_spec_fips .
  then show ?thesis by (simp add: sha256_Final_def length_sha_fips)
qed

lemma sha512_absorbed: "absorbed sha512_alg (\<lambda>n. (word_of_nat n, word_of_nat (n div 2 ^ 64))) init
   \<lparr>sha_state = init, bitcount = (0, 0), buffer = replicate 128 0\<rparr> []"
  by (simp add: absorbed_def sha512_alg_def)

lemma sha512_stream_init:
  assumes "length init = 8"
  shows "fst (sha512_Final (foldl sha512_Update \<lparr>sha_state = init, bitcount = (0, 0), buffer = replicate 128 0\<rparr> parts)) = sha512_fips init (concat parts)"
proof -
  from sha512.stream_digest[OF sha512_absorbed, of init parts]
  have "sha_Final sha512_alg (foldl sha512_Update \<lparr>sha_state = init, bitcount = (0, 0), buffer = replicate 128 0\<rparr> parts) = sha512_fips init (concat parts)"
    unfolding sha512_Update_def sha512_spec_fips .
  then show ?thesis by (simp add: sha512_Final_def length_sha_fips[OF ] assms)
qed

lemma sha512_stream: "fst (sha512_Final (foldl sha512_Update sha512_Init parts)) = sha512_fips sha512_initial_hash_value (concat parts)"
  unfolding sha512_Init_def by (rule sha512_stream_init) (simp add: sha512_initial_hash_value_def)

lemma sha1_Raw_fips: "sha1_Raw msg = sha1_fips msg"
  using sha1_stream[of "[msg]"] by (simp add: sha1_Raw_def)

lemma sha256_Raw_fips: "sha256_Raw msg = sha256_fips msg"
  using sha256_stream[of "[msg]"] by (simp add: sha256_Raw_def)

lemma sha512_Raw_fips: "sha512_Raw msg = sha512_fips sha512_initial_hash_value msg"
  using sha512_stream[of "[msg]"] by (simp add: sha512_Raw_def)

lemma sha512_256_Raw_fips: "sha512_256_Raw msg = take 32 (sha512_fips sha512_256_initial_hash_value msg)"
  using sha512_stream_init[of sha512_256_initial_hash_value "[msg]"]
  by (simp add: sha512_256_Raw_def sha512_256_Init_def sha512_256_initial_hash_value_def)

end
