(* ===== verification/Hmac.thy ===== *)
theory Hmac
  imports Sha2
begin

text \<open>
  HMAC of \<open>trezor-crypto/src/hmac.c\<close>. The C file repeats its functions for SHA-256 and SHA-512; here
  they take the hash as a record of operations, and the named functions are its two instances.
  A locale states what HMAC relies on: that the streaming operations compute a digest of what was
  absorbed. \<open>hmac_sha256_prepare\<close> and \<open>hmac_sha512_prepare\<close>, which work on words and call the
  transform directly, are shown to leave the states in which the two hashes of HMAC stand after
  their first block.
\<close>

unbundle bit_operations_syntax

section \<open>Operations\<close>

record 'ctx hash_fun =
  hash_block :: nat
  hash_digest :: nat
  hash_raw :: "u8 list \<Rightarrow> u8 list"
  hash_init :: 'ctx
  hash_update :: "'ctx \<Rightarrow> u8 list \<Rightarrow> 'ctx"
  hash_final :: "'ctx \<Rightarrow> u8 list"

record 'ctx hmac_ctx =
  o_key_pad :: "u8 list"
  hmac_inner :: 'ctx

definition hmac_Init :: "'ctx hash_fun \<Rightarrow> u8 list \<Rightarrow> 'ctx hmac_ctx" where
  "hmac_Init H key =
     (let i_key_pad = replicate (hash_block H) 0;
          i_key_pad = (if hash_block H < length key then memcpy_at 0 (hash_raw H key) i_key_pad else memcpy_at 0 key i_key_pad);
          o_key_pad = map (\<lambda>b. b XOR 0x5c) i_key_pad;
          i_key_pad = map (\<lambda>b. b XOR 0x36) i_key_pad
      in \<lparr>o_key_pad = o_key_pad, hmac_inner = hash_update H (hash_init H) i_key_pad\<rparr>)"

definition hmac_Update :: "'ctx hash_fun \<Rightarrow> 'ctx hmac_ctx \<Rightarrow> u8 list \<Rightarrow> 'ctx hmac_ctx" where
  "hmac_Update H hctx msg = hctx\<lparr>hmac_inner := hash_update H (hmac_inner hctx) msg\<rparr>"

definition hmac_Final :: "'ctx hash_fun \<Rightarrow> 'ctx hmac_ctx \<Rightarrow> u8 list" where
  "hmac_Final H hctx =
     (let hmac = hash_final H (hmac_inner hctx);
          ctx = hash_init H;
          ctx = hash_update H ctx (o_key_pad hctx);
          ctx = hash_update H ctx hmac
      in hash_final H ctx)"

definition hmac_Raw :: "'ctx hash_fun \<Rightarrow> u8 list \<Rightarrow> u8 list \<Rightarrow> u8 list" where
  "hmac_Raw H key msg = hmac_Final H (hmac_Update H (hmac_Init H key) msg)"

definition sha256_hash :: "SHA256_CTX hash_fun" where
  "sha256_hash = \<lparr>hash_block = 64, hash_digest = 32, hash_raw = sha256_Raw, hash_init = sha256_Init,
     hash_update = sha256_Update, hash_final = (\<lambda>ctx. fst (sha256_Final ctx))\<rparr>"

definition sha512_hash :: "SHA512_CTX hash_fun" where
  "sha512_hash = \<lparr>hash_block = 128, hash_digest = 64, hash_raw = sha512_Raw, hash_init = sha512_Init,
     hash_update = sha512_Update, hash_final = (\<lambda>ctx. fst (sha512_Final ctx))\<rparr>"

definition hmac_sha256_Init :: "u8 list \<Rightarrow> SHA256_CTX hmac_ctx" where
  "hmac_sha256_Init = hmac_Init sha256_hash"

definition hmac_sha256_Update :: "SHA256_CTX hmac_ctx \<Rightarrow> u8 list \<Rightarrow> SHA256_CTX hmac_ctx" where
  "hmac_sha256_Update = hmac_Update sha256_hash"

definition hmac_sha256_Final :: "SHA256_CTX hmac_ctx \<Rightarrow> u8 list" where
  "hmac_sha256_Final = hmac_Final sha256_hash"

definition hmac_sha256 :: "u8 list \<Rightarrow> u8 list \<Rightarrow> u8 list" where
  "hmac_sha256 key msg = hmac_sha256_Final (hmac_sha256_Update (hmac_sha256_Init key) msg)"

definition hmac_sha512_Init :: "u8 list \<Rightarrow> SHA512_CTX hmac_ctx" where
  "hmac_sha512_Init = hmac_Init sha512_hash"

definition hmac_sha512_Update :: "SHA512_CTX hmac_ctx \<Rightarrow> u8 list \<Rightarrow> SHA512_CTX hmac_ctx" where
  "hmac_sha512_Update = hmac_Update sha512_hash"

definition hmac_sha512_Final :: "SHA512_CTX hmac_ctx \<Rightarrow> u8 list" where
  "hmac_sha512_Final = hmac_Final sha512_hash"

definition hmac_sha512 :: "u8 list \<Rightarrow> u8 list \<Rightarrow> u8 list" where
  "hmac_sha512 key msg = hmac_sha512_Final (hmac_sha512_Update (hmac_sha512_Init key) msg)"

text \<open>
  The prepared states: the key pad as host words, reversed, masked, and run through the transform.
  \<open>m5c\<close> and \<open>m36\<close> are the pad bytes repeated over the word. The result is \<open>opad_digest\<close> and
  \<open>ipad_digest\<close>.
\<close>

definition hmac_prepare :: "('w::len word, 'c) sha_alg \<Rightarrow> (u8 list \<Rightarrow> u8 list) \<Rightarrow> 'w word list \<Rightarrow> 'w word \<Rightarrow> 'w word \<Rightarrow> u8 list \<Rightarrow> 'w word list \<times> 'w word list" where
  "hmac_prepare alg digest iv m5c m36 key =
     (let mem = replicate (block_len alg) 0;
          mem = (if block_len alg < length key then memcpy_at 0 (digest key) mem else memcpy_at 0 key mem);
          key_pad = map (\<lambda>w. reverse_word alg w XOR m5c) (le_words (word_len alg) mem);
          opad_digest = transform alg iv key_pad;
          key_pad = map (\<lambda>w. w XOR m5c XOR m36) key_pad;
          ipad_digest = transform alg iv key_pad
      in (opad_digest, ipad_digest))"

definition hmac_sha256_prepare :: "u8 list \<Rightarrow> u32 list \<times> u32 list" where
  "hmac_sha256_prepare =
     hmac_prepare sha256_alg (\<lambda>key. fst (sha256_Final (sha256_Update sha256_Init key))) sha256_initial_hash_value 0x5c5c5c5c 0x36363636"

definition hmac_sha512_prepare :: "u8 list \<Rightarrow> u64 list \<times> u64 list" where
  "hmac_sha512_prepare =
     hmac_prepare sha512_alg (\<lambda>key. fst (sha512_Final (sha512_Update sha512_Init key))) sha512_initial_hash_value
       0x5c5c5c5c5c5c5c5c 0x3636363636363636"

section \<open>The standard's HMAC\<close>

definition hmac_key :: "nat \<Rightarrow> (u8 list \<Rightarrow> u8 list) \<Rightarrow> u8 list \<Rightarrow> u8 list" where
  "hmac_key B D key = (let k = (if B < length key then D key else key) in k @ replicate (B - length k) 0)"

definition hmac_spec :: "nat \<Rightarrow> (u8 list \<Rightarrow> u8 list) \<Rightarrow> u8 list \<Rightarrow> u8 list \<Rightarrow> u8 list" where
  "hmac_spec B D key msg =
     D (map (\<lambda>b. b XOR 0x5c) (hmac_key B D key) @ D (map (\<lambda>b. b XOR 0x36) (hmac_key B D key) @ msg))"

text \<open>What HMAC asks of a hash: the stream and the one-shot function compute the digest \<open>D\<close>.\<close>

locale hash_stream =
  fixes H :: "'ctx hash_fun" and D :: "u8 list \<Rightarrow> u8 list"
  assumes raw: "hash_raw H msg = D msg"
    and stream: "hash_final H (foldl (hash_update H) (hash_init H) parts) = D (concat parts)"
    and digest_len: "length (D msg) = hash_digest H" "hash_digest H \<le> hash_block H"
begin

lemma stream_Cons: "hash_final H (foldl (hash_update H) (hash_update H (hash_init H) p) parts) = D (p @ concat parts)"
  using stream[of "p # parts"] by simp

theorem hmac_stream:
  "hmac_Final H (foldl (hmac_Update H) (hmac_Init H key) parts) = hmac_spec (hash_block H) D key (concat parts)"
proof -
  have pad: "(if hash_block H < length key then memcpy_at 0 (hash_raw H key) (replicate (hash_block H) 0)
      else memcpy_at 0 key (replicate (hash_block H) 0)) = hmac_key (hash_block H) D key"
    by (simp add: memcpy_at_def hmac_key_def raw Let_def)
  have upd: "foldl (hmac_Update H) hctx ps = hctx\<lparr>hmac_inner := foldl (hash_update H) (hmac_inner hctx) ps\<rparr>" for hctx ps
    by (induction ps arbitrary: hctx) (simp_all add: hmac_Update_def)
  have outer: "hash_final H (hash_update H (hash_update H (hash_init H) p) q) = D (p @ q)" for p q
    using stream_Cons[of p "[q]"] by simp
  show ?thesis
    unfolding hmac_Final_def upd hmac_Init_def Let_def pad
    by (simp add: outer stream_Cons hmac_spec_def)
qed

lemma hmac_Init_pads:
  "hmac_Init H key = \<lparr>o_key_pad = map (\<lambda>b. b XOR 0x5c) (hmac_key (hash_block H) D key),
     hmac_inner = hash_update H (hash_init H) (map (\<lambda>b. b XOR 0x36) (hmac_key (hash_block H) D key))\<rparr>"
  by (simp add: hmac_Init_def memcpy_at_def hmac_key_def raw Let_def)

lemma hmac_Raw_spec: "hmac_Raw H key msg = hmac_spec (hash_block H) D key msg"
  using hmac_stream[of key "[msg]"] by (simp add: hmac_Raw_def)

lemma length_hmac_key: "length (hmac_key (hash_block H) D key) = hash_block H"
  using digest_len by (simp add: hmac_key_def Let_def)

end

interpretation sha256_hash: hash_stream sha256_hash sha256_fips
  by unfold_locales (simp_all add: sha256_hash_def sha256_Raw_fips sha256_stream length_sha_fips)

interpretation sha512_hash: hash_stream sha512_hash "sha512_fips sha512_initial_hash_value"
  by unfold_locales (simp_all add: sha512_hash_def sha512_Raw_fips sha512_stream length_sha_fips sha512_initial_hash_value_def)

section \<open>The prepared states\<close>

lemma be_word_xor:
  "be_word (map (\<lambda>b. b XOR c) bs) = be_word bs XOR (be_word (replicate (length bs) c) :: 'a::len word)"
proof (rule bit_word_eqI)
  fix n assume n: "n < LENGTH('a)"
  show "bit (be_word (map (\<lambda>b. b XOR c) bs) :: 'a word) n = bit (be_word bs XOR (be_word (replicate (length bs) c) :: 'a word)) n"
  proof (cases "n < 8 * length bs")
    case True
    then have "n div 8 < length bs" by (simp add: less_mult_imp_div_less mult.commute)
    then show ?thesis using n True by (simp add: bit_be_word bit_xor_iff rev_map[symmetric] rev_nth)
  qed (simp add: bit_be_word bit_xor_iff)
qed

lemma be_words_xor:
  assumes "k dvd length bs"
  shows "be_words k (map (\<lambda>b. b XOR c) bs) = map (\<lambda>w. w XOR be_word (replicate k c)) (be_words k bs :: 'a::len word list)"
proof -
  have "chunk_list k (map f bs) = map (map f) (chunk_list k bs)" for f :: "u8 \<Rightarrow> u8"
    by (simp add: chunk_list_def take_map drop_map)
  then show ?thesis using in_chunk_list[of _ k bs] by (simp add: be_words_def be_word_xor)
qed

context sha_stream
begin

lemma prepare_states:
  assumes "length (D key) \<le> block_len alg" "m5c = be_word (replicate (word_len alg) 0x5c)" "m36 = be_word (replicate (word_len alg) 0x36)"
  shows "hmac_prepare alg D iv m5c m36 key =
    (sha_step alg iv (map (\<lambda>b. b XOR 0x5c) (hmac_key (block_len alg) D key)),
     sha_step alg iv (map (\<lambda>b. b XOR 0x36) (hmac_key (block_len alg) D key)))"
proof -
  let ?K = "hmac_key (block_len alg) D key" and ?k = "word_len alg"
  have pad: "(if block_len alg < length key then memcpy_at 0 (D key) (replicate (block_len alg) 0)
      else memcpy_at 0 key (replicate (block_len alg) 0)) = ?K"
    by (simp add: memcpy_at_def hmac_key_def Let_def)
  have "length ?K = block_len alg" using assms(1) by (simp add: hmac_key_def Let_def)
  then have dvd: "?k dvd length ?K" using block_words(1) by simp
  have "map (\<lambda>w. reverse_word alg w XOR m) (le_words ?k ?K) = map (\<lambda>w. w XOR m) (be_words ?k ?K)" for m
    using arg_cong[OF map_reverse[of ?K], of "map (\<lambda>w. w XOR m)"] by (simp add: o_def)
  then show ?thesis
    unfolding hmac_prepare_def Let_def pad
    by (simp add: sha_step_def be_words_xor[OF dvd] assms(2,3) o_def flip: xor.assoc)
      (simp add: xor.assoc)
qed

text \<open>A hash that stands after one block, whatever its buffer holds.\<close>

lemma absorbed_after_block:
  assumes "length b = block_len alg" "length buf = block_len alg" "s = sha_step alg iv b"
  shows "absorbed alg cnt iv \<lparr>sha_state = s, bitcount = cnt (8 * block_len alg), buffer = buf\<rparr> b"
  using assms absorb_one[OF assms(1) block_pos, of "sha_step alg" iv] by (simp add: absorbed_def)

end

lemma hmac_pads:
  "(0x5c5c5c5c :: u32) = be_word (replicate 4 0x5c)" "(0x36363636 :: u32) = be_word (replicate 4 0x36)"
  "(0x5c5c5c5c5c5c5c5c :: u64) = be_word (replicate 8 0x5c)" "(0x3636363636363636 :: u64) = be_word (replicate 8 0x36)"
  by (code_simp)+

lemma sha256_prepare:
  "hmac_sha256_prepare key =
    (sha_step sha256_alg sha256_initial_hash_value (map (\<lambda>b. b XOR 0x5c) (hmac_key 64 sha256_fips key)),
     sha_step sha256_alg sha256_initial_hash_value (map (\<lambda>b. b XOR 0x36) (hmac_key 64 sha256_fips key)))"
proof -
  have "(\<lambda>key. fst (sha256_Final (sha256_Update sha256_Init key))) = sha256_fips"
    using sha256_Raw_fips by (simp add: sha256_Raw_def fun_eq_iff)
  then show ?thesis
    using sha256.prepare_states[of sha256_fips key "0x5c5c5c5c" "0x36363636" sha256_initial_hash_value]
    by (simp add: hmac_sha256_prepare_def sha256_alg_def sha1_alg_def length_sha_fips hmac_pads(1,2))
qed

lemma sha512_prepare:
  "hmac_sha512_prepare key =
    (sha_step sha512_alg sha512_initial_hash_value (map (\<lambda>b. b XOR 0x5c) (hmac_key 128 (sha512_fips sha512_initial_hash_value) key)),
     sha_step sha512_alg sha512_initial_hash_value (map (\<lambda>b. b XOR 0x36) (hmac_key 128 (sha512_fips sha512_initial_hash_value) key)))"
proof -
  have "(\<lambda>key. fst (sha512_Final (sha512_Update sha512_Init key))) = sha512_fips sha512_initial_hash_value"
    using sha512_Raw_fips by (simp add: sha512_Raw_def fun_eq_iff)
  then show ?thesis
    using sha512.prepare_states[of "sha512_fips sha512_initial_hash_value" key "0x5c5c5c5c5c5c5c5c" "0x3636363636363636" sha512_initial_hash_value]
    by (simp add: hmac_sha512_prepare_def sha512_alg_def length_sha_fips sha512_initial_hash_value_def hmac_pads(3,4))
qed

lemma sha256_absorbed: "absorbed sha256_alg (\<lambda>n. word_of_nat n) sha256_initial_hash_value sha256_Init []"
  by (simp add: absorbed_def sha256_Init_def sha256_alg_def sha1_alg_def)

lemma sha256_one_block:
  assumes "length b = 64"
  shows "sha_state (sha256_Update sha256_Init b) = sha_step sha256_alg sha256_initial_hash_value b"
  using sha256.Update_absorbed[OF sha256_absorbed, of b] assms absorb_one[of b 64 "sha_step sha256_alg" sha256_initial_hash_value]
  unfolding sha256_Update_def by (simp add: absorbed_def sha256_alg_def sha1_alg_def)

lemma sha512_one_block:
  assumes "length b = 128"
  shows "sha_state (sha512_Update sha512_Init b) = sha_step sha512_alg sha512_initial_hash_value b"
  using sha512.Update_absorbed[OF sha512_absorbed, of sha512_initial_hash_value b] assms absorb_one[of b 128 "sha_step sha512_alg" sha512_initial_hash_value]
  unfolding sha512_Update_def by (simp add: absorbed_def sha512_alg_def sha512_Init_def)

lemma hmac_sha256_pads:
  "hmac_sha256_Init key = \<lparr>o_key_pad = map (\<lambda>b. b XOR 0x5c) (hmac_key 64 sha256_fips key),
     hmac_inner = sha256_Update sha256_Init (map (\<lambda>b. b XOR 0x36) (hmac_key 64 sha256_fips key))\<rparr>"
  using sha256_hash.hmac_Init_pads[of key] by (simp add: hmac_sha256_Init_def) (simp add: sha256_hash_def)

lemma hmac_sha512_pads:
  "hmac_sha512_Init key = \<lparr>o_key_pad = map (\<lambda>b. b XOR 0x5c) (hmac_key 128 (sha512_fips sha512_initial_hash_value) key),
     hmac_inner = sha512_Update sha512_Init (map (\<lambda>b. b XOR 0x36) (hmac_key 128 (sha512_fips sha512_initial_hash_value) key))\<rparr>"
  using sha512_hash.hmac_Init_pads[of key] by (simp add: hmac_sha512_Init_def) (simp add: sha512_hash_def)

lemma length_hmac_keys:
  "length (hmac_key 64 sha256_fips key) = 64" "length (hmac_key 128 (sha512_fips sha512_initial_hash_value) key) = 128"
  using sha256_hash.length_hmac_key[of key] sha512_hash.length_hmac_key[of key] by (simp_all add: sha256_hash_def sha512_hash_def)

lemma hmac_sha256_spec: "hmac_sha256 key msg = hmac_spec 64 sha256_fips key msg"
  using sha256_hash.hmac_Raw_spec[of key msg]
  by (simp add: hmac_sha256_def hmac_sha256_Final_def hmac_sha256_Update_def hmac_sha256_Init_def hmac_Raw_def) (simp add: sha256_hash_def)

lemma hmac_sha512_spec: "hmac_sha512 key msg = hmac_spec 128 (sha512_fips sha512_initial_hash_value) key msg"
  using sha512_hash.hmac_Raw_spec[of key msg]
  by (simp add: hmac_sha512_def hmac_sha512_Final_def hmac_sha512_Update_def hmac_sha512_Init_def hmac_Raw_def) (simp add: sha512_hash_def)

text \<open>The prepared states are those the streaming form has after the masked keys.\<close>

lemma hmac_prepared_states:
  "hmac_sha256_prepare key =
      (sha_step sha256_alg sha256_initial_hash_value (o_key_pad (hmac_sha256_Init key)), sha_state (hmac_inner (hmac_sha256_Init key)))
    \<and> hmac_sha512_prepare key =
      (sha_step sha512_alg sha512_initial_hash_value (o_key_pad (hmac_sha512_Init key)), sha_state (hmac_inner (hmac_sha512_Init key)))"
  by (simp add: sha256_prepare sha512_prepare hmac_sha256_pads hmac_sha512_pads sha256_one_block sha512_one_block length_hmac_keys)

end
