(* ===== verification/Pbkdf2.thy ===== *)
theory Pbkdf2
  imports Hmac
begin

text \<open>
  PBKDF2 of \<open>trezor-crypto/src/pbkdf2.c\<close>: the functions for HMAC-SHA-256 and HMAC-SHA-512 are the
  instances of one text. A block works on the transform alone: \<open>g\<close> holds the eight words of the last
  value followed by the constant padding of an eight-word message that comes after one block.
  The buffer of the local hash context is not initialised by the code; it is an argument here.
\<close>

unbundle bit_operations_syntax

section \<open>Operations\<close>

record 'w pbkdf2_ctx =
  odig :: "'w list"
  idig :: "'w list"
  pb_f :: "'w list"
  pb_g :: "'w list"
  pb_first :: nat

definition pbkdf2_Init :: "('w::len word, 'c) sha_alg \<Rightarrow> (u8 list \<Rightarrow> 'w word list \<times> 'w word list) \<Rightarrow> 'w word \<Rightarrow> 'w word \<Rightarrow> 'c \<Rightarrow> u8 list
    \<Rightarrow> u8 list \<Rightarrow> u8 list \<Rightarrow> u32 \<Rightarrow> 'w word pbkdf2_ctx" where
  "pbkdf2_Init alg prepare top_bit total_bits block_bits junk pass salt blocknr =
     (let blocknr = REVERSE32 blocknr;
          (odig, idig) = prepare pass;
          g = (replicate 16 0)[8 := top_bit, 15 := total_bits];
          ctx = \<lparr>sha_state = idig, bitcount = block_bits, buffer = junk\<rparr>;
          ctx = sha_Update alg ctx salt;
          ctx = sha_Update alg ctx (word_le 4 blocknr);
          g = le_words (word_len alg) (sha_Final alg ctx) @ drop 8 g;
          g = map (reverse_word alg) (take 8 g) @ drop 8 g;
          g = transform alg odig g @ drop 8 g
      in \<lparr>odig = odig, idig = idig, pb_f = take 8 g, pb_g = g, pb_first = 1\<rparr>)"

definition pbkdf2_Update :: "('w::len word, 'c) sha_alg \<Rightarrow> 'w word pbkdf2_ctx \<Rightarrow> nat \<Rightarrow> 'w word pbkdf2_ctx" where
  "pbkdf2_Update alg pctx iterations =
     (let pctx = for_up (pb_first pctx) iterations (\<lambda>i pctx.
            let g = transform alg (idig pctx) (pb_g pctx) @ drop 8 (pb_g pctx);
                g = transform alg (odig pctx) g @ drop 8 g
            in pctx\<lparr>pb_g := g, pb_f := map2 (\<lambda>x y. x XOR y) (pb_f pctx) (take 8 g)\<rparr>) pctx
      in pctx\<lparr>pb_first := 0\<rparr>)"

definition pbkdf2_Final :: "('w::len word, 'c) sha_alg \<Rightarrow> 'w word pbkdf2_ctx \<Rightarrow> u8 list" where
  "pbkdf2_Final alg pctx = words_le (word_len alg) (map (reverse_word alg) (pb_f pctx))"

text \<open>The derived key, written block by block over the caller's buffer.\<close>

definition pbkdf2_key :: "nat \<Rightarrow> (nat \<Rightarrow> u8 list) \<Rightarrow> u8 list \<Rightarrow> u8 list" where
  "pbkdf2_key digest_length digest key =
     (let keylen = length key;
          last_block_size = keylen mod digest_length;
          blocks_count = keylen div digest_length;
          (blocks_count, last_block_size) =
            (if last_block_size \<noteq> 0 then (blocks_count + 1, last_block_size) else (blocks_count, digest_length))
      in for_up 1 (blocks_count + 1) (\<lambda>blocknr key.
           let key_offset = (blocknr - 1) * digest_length
           in if blocknr < blocks_count then memcpy_at key_offset (digest blocknr) key
              else memcpy_at key_offset (take last_block_size (digest blocknr)) key) key)"

definition pbkdf2_hmac_sha256_Init :: "u8 list \<Rightarrow> u8 list \<Rightarrow> u8 list \<Rightarrow> u32 \<Rightarrow> u32 pbkdf2_ctx" where
  "pbkdf2_hmac_sha256_Init = pbkdf2_Init sha256_alg hmac_sha256_prepare 0x80000000 ((64 + 32) * 8) (64 * 8)"

definition pbkdf2_hmac_sha256_Update :: "u32 pbkdf2_ctx \<Rightarrow> nat \<Rightarrow> u32 pbkdf2_ctx" where
  "pbkdf2_hmac_sha256_Update = pbkdf2_Update sha256_alg"

definition pbkdf2_hmac_sha256_Final :: "u32 pbkdf2_ctx \<Rightarrow> u8 list" where
  "pbkdf2_hmac_sha256_Final = pbkdf2_Final sha256_alg"

definition pbkdf2_hmac_sha256 :: "u8 list \<Rightarrow> u8 list \<Rightarrow> u8 list \<Rightarrow> nat \<Rightarrow> u8 list \<Rightarrow> u8 list" where
  "pbkdf2_hmac_sha256 junk pass salt iterations key = pbkdf2_key 32 (\<lambda>blocknr.
     let pctx = pbkdf2_hmac_sha256_Init junk pass salt (word_of_nat blocknr);
         pctx = pbkdf2_hmac_sha256_Update pctx iterations
     in pbkdf2_hmac_sha256_Final pctx) key"

definition pbkdf2_hmac_sha512_Init :: "u8 list \<Rightarrow> u8 list \<Rightarrow> u8 list \<Rightarrow> u32 \<Rightarrow> u64 pbkdf2_ctx" where
  "pbkdf2_hmac_sha512_Init = pbkdf2_Init sha512_alg hmac_sha512_prepare 0x8000000000000000 ((128 + 64) * 8) (128 * 8, 0)"

definition pbkdf2_hmac_sha512_Update :: "u64 pbkdf2_ctx \<Rightarrow> nat \<Rightarrow> u64 pbkdf2_ctx" where
  "pbkdf2_hmac_sha512_Update = pbkdf2_Update sha512_alg"

definition pbkdf2_hmac_sha512_Final :: "u64 pbkdf2_ctx \<Rightarrow> u8 list" where
  "pbkdf2_hmac_sha512_Final = pbkdf2_Final sha512_alg"

definition pbkdf2_hmac_sha512 :: "u8 list \<Rightarrow> u8 list \<Rightarrow> u8 list \<Rightarrow> nat \<Rightarrow> u8 list \<Rightarrow> u8 list" where
  "pbkdf2_hmac_sha512 junk pass salt iterations key = pbkdf2_key 64 (\<lambda>blocknr.
     let pctx = pbkdf2_hmac_sha512_Init junk pass salt (word_of_nat blocknr);
         pctx = pbkdf2_hmac_sha512_Update pctx iterations
     in pbkdf2_hmac_sha512_Final pctx) key"

section \<open>The standard's key derivation\<close>

definition xor_bytes :: "u8 list \<Rightarrow> u8 list \<Rightarrow> u8 list" where
  "xor_bytes = map2 (\<lambda>x y. x XOR y)"

text \<open>\<open>prf_iter F n u\<close> is \<open>F (... (F u))\<close>; block \<open>i\<close> is the exclusive or of the first \<open>c\<close> values.\<close>

definition pbkdf2_block :: "(u8 list \<Rightarrow> u8 list) \<Rightarrow> u8 list \<Rightarrow> nat \<Rightarrow> nat \<Rightarrow> u8 list" where
  "pbkdf2_block prf salt c i =
     (let u = prf (salt @ be_bytes 4 i)
      in foldl (\<lambda>f n. xor_bytes f ((prf ^^ n) u)) u [1..<c])"

definition pbkdf2_spec :: "(u8 list \<Rightarrow> u8 list) \<Rightarrow> nat \<Rightarrow> u8 list \<Rightarrow> nat \<Rightarrow> nat \<Rightarrow> u8 list" where
  "pbkdf2_spec prf dlen salt c keylen =
     take keylen (concat (map (\<lambda>i. pbkdf2_block prf salt c (Suc i)) [0..<(keylen + dlen - 1) div dlen]))"

lemma word_be_xor: "word_be k (a XOR b) = xor_bytes (word_be k a) (word_be k b)"
proof -
  have "word_le k (a XOR b) = xor_bytes (word_le k a) (word_le k b)"
    by (simp add: word_le_def xor_bytes_def map2_map_map) (auto simp: bit_eq_iff bit_simps)
  then show ?thesis by (simp add: word_be_def xor_bytes_def rev_map zip_rev)
qed

lemma words_be_xor: "length xs = length ys \<Longrightarrow> words_be k (map2 (\<lambda>x y. x XOR y) xs ys) = xor_bytes (words_be k xs) (words_be k ys)"
  by (induction xs ys rule: list_induct2) (simp_all add: words_be_def word_be_xor xor_bytes_def)

text \<open>A hash with eight state words, its initial value and the padding of an eight-word message after a block.\<close>

definition digest_tail :: "nat \<Rightarrow> 'a::len word list" where
  "digest_tail k = be_words k (0x80 # replicate (6 * k - 1) 0 @ be_bytes (2 * k) (192 * k))"

locale sha_stream8 = sha_stream alg cnt for alg :: "('w::len word, 'c) sha_alg" and cnt :: "nat \<Rightarrow> 'c" +
  fixes iv :: "'w word list" and D :: "u8 list \<Rightarrow> u8 list"
  assumes state_len: "length iv = 8" "length (transform alg s b) = 8"
    and digest: "D msg = sha_spec alg iv msg"
begin

text \<open>The digest of one block and an eight-word value.\<close>

lemma digest_block_words:
  assumes "length b = block_len alg" "length ws = 8"
  shows "D (b @ words_be (word_len alg) ws)
    = words_be (word_len alg) (transform alg (sha_step alg iv b) (ws @ digest_tail (word_len alg)))"
proof -
  let ?k = "word_len alg" and ?m = "words_be (word_len alg) ws"
  let ?p = "0x80 # replicate (6 * ?k - 1) 0 @ be_bytes (2 * ?k) (192 * ?k)"
  have k: "0 < ?k" "block_len alg = 16 * ?k" using word_bits block_words by simp_all
  have "(24 * ?k + 1 + 2 * ?k) mod (16 * ?k) = 10 * ?k + 1"
  proof -
    have "1 < 6 * ?k" using k(1) by simp
    then show ?thesis by (subst mod_if) (simp add: le_mod_geq)
  qed
  then have pad: "sha_pad (block_len alg) (2 * ?k) (b @ ?m) = b @ (?m @ ?p)"
    using assms k by (simp add: sha_pad_def)
  have p: "length (?m @ ?p) = block_len alg" using assms k by (simp add: be_bytes_def)
  have "?k dvd length ?m" by simp
  then have "be_words ?k (?m @ ?p) = (be_words ?k ?m @ digest_tail ?k :: 'w word list)"
    using k(1) unfolding digest_tail_def be_words_def map_append[symmetric] by (subst chunk_list_append_multiple) simp_all
  then have "sha_step alg s (?m @ ?p) = transform alg s (ws @ digest_tail ?k)" for s
    using be_words_words_be[OF word_bits] by (simp add: sha_step_def)
  then show ?thesis
    unfolding digest sha_spec_def pad
    using absorb_block[OF assms(1) block_pos, of "sha_step alg" iv "?m @ ?p"] absorb_one[OF p block_pos, of "sha_step alg" "sha_step alg iv b"]
    by simp
qed

lemma digest_words_list: "\<exists>ws :: 'w word list. D msg = words_be (word_len alg) ws \<and> length ws = 8"
proof -
  let ?ws = "fst (absorb (sha_step alg) (block_len alg) iv (sha_pad (block_len alg) (2 * word_len alg) msg))"
  have "length ?ws = 8" by (rule absorb_state) (simp_all add: state_len sha_step_def)
  then show ?thesis by (intro exI[of _ ?ws]) (simp add: digest sha_spec_def)
qed

lemma digest_length: "length (D msg) = 8 * word_len alg"
  using digest_words_list[of msg] by auto

abbreviation ipad :: "u8 list \<Rightarrow> u8 list" where
  "ipad key \<equiv> map (\<lambda>b. b XOR 0x36) (hmac_key (block_len alg) D key)"

abbreviation opad :: "u8 list \<Rightarrow> u8 list" where
  "opad key \<equiv> map (\<lambda>b. b XOR 0x5c) (hmac_key (block_len alg) D key)"

abbreviation mac :: "u8 list \<Rightarrow> u8 list \<Rightarrow> u8 list" where
  "mac key \<equiv> hmac_spec (block_len alg) D key"

lemma pad_length: "length (hmac_key (block_len alg) D key) = block_len alg"
  using digest_length[of key] block_words(1) by (simp add: hmac_key_def Let_def)

text \<open>HMAC of an eight-word value, from the two prepared states.\<close>

lemma prf_words:
  assumes "length ws = 8"
  shows "mac key (words_be (word_len alg) ws) = words_be (word_len alg)
    (transform alg (sha_step alg iv (opad key)) (transform alg (sha_step alg iv (ipad key)) (ws @ digest_tail (word_len alg)) @ digest_tail (word_len alg)))"
  using digest_block_words[of "ipad key" ws] digest_block_words[of "opad key"] assms state_len
  by (simp add: hmac_spec_def pad_length)

lemma Init_correct:
  assumes "prepare pass = (sha_step alg iv (opad pass), sha_step alg iv (ipad pass))"
    and "top_bit # replicate 6 0 @ [total_bits] = digest_tail (word_len alg)" and "bits = cnt (8 * block_len alg)" "length junk = block_len alg"
  shows "\<exists>gs. pbkdf2_Init alg prepare top_bit total_bits bits junk pass salt (word_of_nat i)
      = \<lparr>odig = sha_step alg iv (opad pass), idig = sha_step alg iv (ipad pass), pb_f = gs, pb_g = gs @ digest_tail (word_len alg), pb_first = 1\<rparr>
    \<and> length gs = 8 \<and> words_be (word_len alg) gs = mac pass (salt @ be_bytes 4 i)"
proof -
  let ?k = "word_len alg" and ?od = "sha_step alg iv (opad pass)" and ?id = "sha_step alg iv (ipad pass)"
  have tail: "drop 8 ((replicate 16 0)[8 := top_bit, 15 := total_bits]) = digest_tail ?k"
    unfolding assms(2)[symmetric] by (simp add: numeral_eq_Suc)
  have nr: "word_le 4 (REVERSE32 (word_of_nat i)) = be_bytes 4 i"
  proof -
    let ?w = "word_of_nat i :: u32"
    have "REVERSE32 ?w = be_word (word_le 4 ?w)"
      using REVERSE32_le_word[of "word_le 4 ?w"] le_word_word_le[of 4 ?w] by simp
    then have "word_le 4 (REVERSE32 ?w) = word_be 4 ?w"
      using word_le_be_word[of "word_le 4 ?w", where 'a = 32] by (simp add: word_be_def)
    then show ?thesis using word_be_of_nat[of 4 i, where 'a = 32] by simp
  qed
  let ?ctx = "\<lparr>sha_state = ?id, bitcount = bits, buffer = junk\<rparr>"
  have "absorbed alg cnt iv ?ctx (ipad pass)"
    using absorbed_after_block[of "ipad pass" junk ?id iv] assms(3,4) by (simp add: pad_length)
  then have "absorbed alg cnt iv (sha_Update alg (sha_Update alg ?ctx salt) (be_bytes 4 i)) ((ipad pass @ salt) @ be_bytes 4 i)"
    by (intro Update_absorbed)
  then have fin: "sha_Final alg (sha_Update alg (sha_Update alg ?ctx salt) (be_bytes 4 i)) = D (ipad pass @ salt @ be_bytes 4 i)"
    using Final_absorbed by (simp add: digest)
  obtain ws :: "'w word list" where ws: "D (ipad pass @ salt @ be_bytes 4 i) = words_be ?k ws" "length ws = 8" using digest_words_list by blast
  have "(map (reverse_word alg) (le_words ?k (words_be ?k ws)) :: 'w word list) = ws"
    unfolding map_reverse by (rule be_words_words_be[OF word_bits])
  then have words: "map (reverse_word alg) (le_words ?k (D (ipad pass @ salt @ be_bytes 4 i))) = ws" unfolding ws(1) .
  then have len: "length (le_words ?k (D (ipad pass @ salt @ be_bytes 4 i)) :: 'w word list) = 8"
    using ws(2) by (metis length_map)
  let ?gs = "transform alg ?od (ws @ digest_tail ?k)"
  have "pbkdf2_Init alg prepare top_bit total_bits bits junk pass salt (word_of_nat i)
      = \<lparr>odig = ?od, idig = ?id, pb_f = ?gs, pb_g = ?gs @ digest_tail ?k, pb_first = 1\<rparr>"
    unfolding pbkdf2_Init_def Let_def assms(1) nr prod.case fin tail using len ws(2) by (simp add: words state_len)
  moreover have "words_be ?k ?gs = mac pass (salt @ be_bytes 4 i)"
    using digest_block_words[of "opad pass" ws] ws by (simp add: hmac_spec_def pad_length)
  ultimately show ?thesis using state_len by blast
qed

lemma block_correct:
  assumes "prepare pass = (sha_step alg iv (opad pass), sha_step alg iv (ipad pass))"
    and "top_bit # replicate 6 0 @ [total_bits] = digest_tail (word_len alg)" and "bits = cnt (8 * block_len alg)" "length junk = block_len alg"
  shows "pbkdf2_Final alg (pbkdf2_Update alg (pbkdf2_Init alg prepare top_bit total_bits bits junk pass salt (word_of_nat i)) c)
    = pbkdf2_block (mac pass) salt c i"
proof -
  let ?k = "word_len alg" and ?od = "sha_step alg iv (opad pass)" and ?id = "sha_step alg iv (ipad pass)"
  let ?u = "mac pass (salt @ be_bytes 4 i)" and ?tail = "digest_tail (word_len alg)"
  obtain gs where gs: "pbkdf2_Init alg prepare top_bit total_bits bits junk pass salt (word_of_nat i)
      = \<lparr>odig = ?od, idig = ?id, pb_f = gs, pb_g = gs @ ?tail, pb_first = 1\<rparr>" "length gs = 8" "words_be ?k gs = ?u"
    using Init_correct[where prepare = prepare and pass = pass, OF assms] by blast
  define ok where "ok = (\<lambda>j p. \<exists>f g. p = \<lparr>odig = ?od, idig = ?id, pb_f = f, pb_g = g @ ?tail, pb_first = 1\<rparr> \<and> length f = 8 \<and> length g = 8
      \<and> words_be ?k g = (mac pass ^^ (j - 1)) ?u \<and> words_be ?k f = foldl (\<lambda>f n. xor_bytes f ((mac pass ^^ n) ?u)) ?u [1..<j])"
  let ?body = "\<lambda>i pctx. let g = transform alg (idig pctx) (pb_g pctx) @ drop 8 (pb_g pctx);
                g = transform alg (odig pctx) g @ drop 8 g
            in pctx\<lparr>pb_g := g, pb_f := map2 (\<lambda>x y. x XOR y) (pb_f pctx) (take 8 g)\<rparr>"
  let ?p0 = "\<lparr>odig = ?od, idig = ?id, pb_f = gs, pb_g = gs @ ?tail, pb_first = 1\<rparr>"
  have "ok (max 1 c) (for_up 1 (max 1 c) ?body ?p0)"
  proof (rule for_up_inv)
    show "ok 1 ?p0" using gs by (simp add: ok_def)
    fix j p assume j: "1 \<le> j" "ok j p"
    then obtain f g where p: "p = \<lparr>odig = ?od, idig = ?id, pb_f = f, pb_g = g @ ?tail, pb_first = 1\<rparr>" "length f = 8" "length g = 8"
      "words_be ?k g = (mac pass ^^ (j - 1)) ?u" "words_be ?k f = foldl (\<lambda>f n. xor_bytes f ((mac pass ^^ n) ?u)) ?u [1..<j]"
      by (auto simp: ok_def)
    let ?g = "transform alg ?od (transform alg ?id (g @ ?tail) @ ?tail)"
    have "words_be ?k ?g = mac pass (words_be ?k g)" using prf_words[OF p(3)] by simp
    also have "\<dots> = (mac pass ^^ Suc (j - 1)) ?u" unfolding p(4) by simp
    finally have g: "words_be ?k ?g = (mac pass ^^ j) ?u" using j(1) by simp
    have f: "words_be ?k (map2 (\<lambda>x y. x XOR y) f ?g) = foldl (\<lambda>f n. xor_bytes f ((mac pass ^^ n) ?u)) ?u [1..<Suc j]"
      using j(1) p(2,5) g state_len by (simp add: words_be_xor)
    have "?body j p = \<lparr>odig = ?od, idig = ?id, pb_f = map2 (\<lambda>x y. x XOR y) f ?g, pb_g = ?g @ ?tail, pb_first = 1\<rparr>"
      using p(1,3) state_len by (simp add: Let_def)
    then show "ok (Suc j) (?body j p)"
      unfolding ok_def using g f p(2) state_len by (intro exI[of _ "map2 (\<lambda>x y. x XOR y) f ?g"] exI[of _ ?g]) simp
  qed simp
  moreover have "for_up 1 (max 1 c) ?body ?p0 = for_up 1 c ?body ?p0" by (cases "c = 0") (simp_all add: max_def)
  ultimately obtain f g where fg: "for_up 1 c ?body ?p0 = \<lparr>odig = ?od, idig = ?id, pb_f = f, pb_g = g @ ?tail, pb_first = 1\<rparr>"
      "words_be ?k f = foldl (\<lambda>f n. xor_bytes f ((mac pass ^^ n) ?u)) ?u [1..<max 1 c]"
    by (auto simp: ok_def)
  have "[1..<max 1 c] = [1..<c]" by (cases "c = 0") (simp_all add: max_def)
  then show ?thesis
    unfolding gs(1) pbkdf2_Update_def pbkdf2_block_def using fg
    by (simp add: Let_def pbkdf2_Final_def digest_words)
qed

end

section \<open>Assembling the key\<close>

lemma blocks_length: "(\<And>i. length (digest i) = d) \<Longrightarrow> length (concat (map (\<lambda>i. digest (Suc i)) [0..<n])) = n * d"
  by (induction n) simp_all

lemma key_blocks:
  assumes "\<And>i. length (digest i) = d" "n * d \<le> length key"
  shows "for_up 1 (n + 1) (\<lambda>i key. memcpy_at ((i - 1) * d) (digest i) key) key = concat (map (\<lambda>i. digest (Suc i)) [0..<n]) @ drop (n * d) key"
  using assms(2)
proof (induction n)
  case (Suc n)
  have len: "length (concat (map (\<lambda>i. digest (Suc i)) [0..<n])) = n * d"
    by (rule blocks_length) (rule assms(1))
  have "for_up 1 (Suc n + 1) (\<lambda>i key. memcpy_at ((i - 1) * d) (digest i) key) key
      = memcpy_at (n * d) (digest (Suc n)) (concat (map (\<lambda>i. digest (Suc i)) [0..<n]) @ drop (n * d) key)"
    using Suc by (simp add: for_up_last)
  also have "\<dots> = concat (map (\<lambda>i. digest (Suc i)) [0..<n]) @ digest (Suc n) @ drop (Suc n * d) key"
    using len assms(1) by (simp add: memcpy_at_def add.commute)
  finally show ?case by simp
qed simp

lemma pbkdf2_key_correct:
  assumes d: "\<And>i. length (digest i) = d" "0 < d"
  shows "pbkdf2_key d digest key = take (length key) (concat (map (\<lambda>i. digest (Suc i)) [0..<(length key + d - 1) div d]))"
proof (cases "length key mod d = 0")
  case True
  let ?q = "length key div d"
  have n: "?q * d = length key" using True by (simp add: dvd_div_mult_self mod_0_imp_dvd)
  have cnt: "(length key + d - 1) div d = ?q"
  proof -
    have "length key + d - 1 = ?q * d + (d - 1)" unfolding n using d(2) by linarith
    then have "(length key + d - 1) div d = (?q * d + (d - 1)) div d" by (rule arg_cong)
    also have "\<dots> = ?q + (d - 1) div d" by (rule div_mult_self3) (use d(2) in simp)
    also have "\<dots> = ?q" using d(2) by simp
    finally show ?thesis .
  qed
  have "pbkdf2_key d digest key = for_up 1 (?q + 1) (\<lambda>i key. memcpy_at ((i - 1) * d) (digest i) key) key"
    using True d(1) unfolding pbkdf2_key_def Let_def by (simp del: One_nat_def) (intro for_up_cong, simp)
  also have "\<dots> = concat (map (\<lambda>i. digest (Suc i)) [0..<?q])"
    using key_blocks[of digest d ?q key] d(1) n by simp
  finally have key: "pbkdf2_key d digest key = concat (map (\<lambda>i. digest (Suc i)) [0..<?q])" .
  have "length (concat (map (\<lambda>i. digest (Suc i)) [0..<?q])) = ?q * d"
    by (rule blocks_length) (rule d(1))
  then show ?thesis unfolding key cnt n by simp
next
  case False
  let ?q = "length key div d" and ?r = "length key mod d"
  have n: "?q * d + ?r = length key" by simp
  have r: "?r < d" using d(2) by simp
  have cnt: "(length key + d - 1) div d = ?q + 1"
  proof -
    have "length key + d - 1 = ?q * d + d + (?r - 1)" using n False by linarith
    also have "\<dots> = (?q + 1) * d + (?r - 1)" by (simp add: algebra_simps)
    also have "\<dots> div d = ?q + 1" using r by (subst div_mult_self3) simp_all
    finally show ?thesis .
  qed
  let ?C = "concat (map (\<lambda>i. digest (Suc i)) [0..<?q])"
  have len: "length ?C = ?q * d"
    by (rule blocks_length) (rule d(1))
  have "for_up 1 (?q + 1) (\<lambda>blocknr key. if blocknr < ?q + 1 then memcpy_at ((blocknr - 1) * d) (digest blocknr) key
      else memcpy_at ((blocknr - 1) * d) (take ?r (digest blocknr)) key) key = ?C @ drop (?q * d) key"
    using key_blocks[of digest d ?q key] d(1) n
    by (subst for_up_cong[where g = "\<lambda>i key. memcpy_at ((i - 1) * d) (digest i) key"]) simp_all
  then have "pbkdf2_key d digest key = memcpy_at (?q * d) (take ?r (digest (Suc ?q))) (?C @ drop (?q * d) key)"
    using False unfolding pbkdf2_key_def Let_def by (simp add: for_up_last del: One_nat_def) (simp add: for_up_last)
  also have "\<dots> = ?C @ take ?r (digest (Suc ?q))"
    using len d(1) r n by (simp add: memcpy_at_def min_absorb2)
  finally show ?thesis
    using len n unfolding cnt by (simp add: minus_div_mult_eq_mod)
qed

section \<open>Both instances\<close>

interpretation sha256_8: sha_stream8 sha256_alg "\<lambda>n. word_of_nat n" sha256_initial_hash_value sha256_fips
  by unfold_locales
    (simp add: sha256_initial_hash_value_def, simp add: sha256_alg_def sha256_Transform_compress sha256_compress_def regs8_add_def split_def,
     simp only: sha256_spec_fips)

interpretation sha512_8: sha_stream8 sha512_alg "\<lambda>n. (word_of_nat n, word_of_nat (n div 2 ^ 64))" sha512_initial_hash_value "sha512_fips sha512_initial_hash_value"
  by unfold_locales
    (simp add: sha512_initial_hash_value_def, simp add: sha512_alg_def sha512_Transform_compress sha512_compress_def regs8_add_def split_def,
     simp only: sha512_spec_fips)

lemma be_words_4: "be_words 4 (a # b # c # d # bs) = be_word [a, b, c, d] # be_words 4 bs"
  using be_words_append[of "[a, b, c, d]" 4 bs] by simp

lemma be_words_8: "be_words 8 (a # b # c # d # e # f # g # h # bs) = be_word [a, b, c, d, e, f, g, h] # be_words 8 bs"
  using be_words_append[of "[a, b, c, d, e, f, g, h]" 8 bs] by simp

lemma tail_bytes: "be_bytes 8 768 = [0, 0, 0, 0, 0, 0, 3, 0]" "be_bytes 16 1536 = [0, 0, 0, 0, 0, 0, 0, 0, 0, 0, 0, 0, 0, 0, 6, 0]"
proof -
  have "[0..<8] = [0, 1, 2, 3, 4, 5, 6, 7 :: nat]" "[0..<16] = [0, 1, 2, 3, 4, 5, 6, 7, 8, 9, 10, 11, 12, 13, 14, 15 :: nat]"
    by code_simp+
  then show "be_bytes 8 768 = [0, 0, 0, 0, 0, 0, 3, 0]" "be_bytes 16 1536 = [0, 0, 0, 0, 0, 0, 0, 0, 0, 0, 0, 0, 0, 0, 6, 0]"
    by (simp_all add: be_bytes_def)
qed

lemma tail_zeros:
  "replicate 6 0 = [0, 0, 0, 0, 0, 0]" "replicate 23 0 = [0, 0, 0, 0, 0, 0, 0, 0, 0, 0, 0, 0, 0, 0, 0, 0, 0, 0, 0, 0, 0, 0, 0]"
  "replicate 47 0 = [0, 0, 0, 0, 0, 0, 0, 0, 0, 0, 0, 0, 0, 0, 0, 0, 0, 0, 0, 0, 0, 0, 0, 0, 0, 0, 0, 0, 0, 0, 0, 0, 0, 0, 0, 0, 0, 0, 0, 0, 0, 0, 0, 0, 0, 0, 0]"
  by (simp_all add: numeral_eq_Suc)

lemma tail_words:
  "(0x80000000 :: u32) # replicate 6 0 @ [(64 + 32) * 8] = digest_tail 4"
  "(0x8000000000000000 :: u64) # replicate 6 0 @ [(128 + 64) * 8] = digest_tail 8"
  by (simp_all add: digest_tail_def tail_bytes tail_zeros be_words_4 be_words_8 be_word_def) (simp_all add: be_words_def)

lemma length_xor_bytes: "length (xor_bytes a b) = min (length a) (length b)"
  by (simp add: xor_bytes_def)

lemma length_pbkdf2_block:
  assumes "\<And>m. length (mac m) = d"
  shows "length (pbkdf2_block mac salt c i) = d"
proof -
  have mac_iter: "length ((mac ^^ n) (mac x)) = d" for n x by (cases n) (simp_all add: assms)
  have "length (foldl (\<lambda>f n. xor_bytes f ((mac ^^ n) (mac x))) (mac x) ns) = d" for x ns
    by (induction ns rule: rev_induct) (simp_all add: assms length_xor_bytes mac_iter)
  then show ?thesis by (simp add: pbkdf2_block_def Let_def)
qed

lemma pbkdf2_sha256_block:
  assumes "length junk = 64"
  shows "pbkdf2_hmac_sha256_Final (pbkdf2_hmac_sha256_Update (pbkdf2_hmac_sha256_Init junk pass salt (word_of_nat i)) c)
    = pbkdf2_block (hmac_sha256 pass) salt c i"
proof -
  have mac: "hmac_sha256 pass = hmac_spec 64 sha256_fips pass" by (simp add: fun_eq_iff hmac_sha256_spec)
  show ?thesis
    using sha256_8.block_correct[of hmac_sha256_prepare pass "0x80000000" "(64 + 32) * 8" "64 * 8" junk salt i c] sha256_prepare[of pass] tail_words(1) assms
    unfolding mac pbkdf2_hmac_sha256_Final_def pbkdf2_hmac_sha256_Update_def pbkdf2_hmac_sha256_Init_def
    by (simp add: sha256_alg_def sha1_alg_def)
qed

lemma pbkdf2_sha512_block:
  assumes "length junk = 128"
  shows "pbkdf2_hmac_sha512_Final (pbkdf2_hmac_sha512_Update (pbkdf2_hmac_sha512_Init junk pass salt (word_of_nat i)) c)
    = pbkdf2_block (hmac_sha512 pass) salt c i"
proof -
  have mac: "hmac_sha512 pass = hmac_spec 128 (sha512_fips sha512_initial_hash_value) pass" by (simp add: fun_eq_iff hmac_sha512_spec)
  show ?thesis
    using sha512_8.block_correct[of hmac_sha512_prepare pass "0x8000000000000000" "(128 + 64) * 8" "(128 * 8, 0)" junk salt i c] sha512_prepare[of pass] tail_words(2) assms
    unfolding mac pbkdf2_hmac_sha512_Final_def pbkdf2_hmac_sha512_Update_def pbkdf2_hmac_sha512_Init_def
    by (simp add: sha512_alg_def)
qed

lemma pbkdf2_block_lengths:
  "length (pbkdf2_block (hmac_sha256 pass) salt c i) = 32" "length (pbkdf2_block (hmac_sha512 pass) salt c i) = 64"
  by (rule length_pbkdf2_block;
      simp add: hmac_sha256_spec hmac_sha512_spec hmac_spec_def length_sha_fips sha512_initial_hash_value_def)+

lemma pbkdf2_sha256_correct:
  "length junk = 64 \<Longrightarrow> pbkdf2_hmac_sha256 junk pass salt c key = pbkdf2_spec (hmac_sha256 pass) 32 salt c (length key)"
  using pbkdf2_key_correct[of "pbkdf2_block (hmac_sha256 pass) salt c" 32 key] pbkdf2_block_lengths
  by (simp add: pbkdf2_hmac_sha256_def pbkdf2_spec_def Let_def pbkdf2_sha256_block)

lemma pbkdf2_sha512_correct:
  "length junk = 128 \<Longrightarrow> pbkdf2_hmac_sha512 junk pass salt c key = pbkdf2_spec (hmac_sha512 pass) 64 salt c (length key)"
  using pbkdf2_key_correct[of "pbkdf2_block (hmac_sha512 pass) salt c" 64 key] pbkdf2_block_lengths
  by (simp add: pbkdf2_hmac_sha512_def pbkdf2_spec_def Let_def pbkdf2_sha512_block)

section \<open>Splitting the iterations\<close>

definition pbkdf2_step :: "('w::len word, 'c) sha_alg \<Rightarrow> 'w word pbkdf2_ctx \<Rightarrow> 'w word pbkdf2_ctx" where
  "pbkdf2_step alg pctx =
     (let g = transform alg (idig pctx) (pb_g pctx) @ drop 8 (pb_g pctx);
          g = transform alg (odig pctx) g @ drop 8 g
      in pctx\<lparr>pb_g := g, pb_f := map2 (\<lambda>x y. x XOR y) (pb_f pctx) (take 8 g)\<rparr>)"

lemma pbkdf2_Update_steps: "pbkdf2_Update alg p n = ((pbkdf2_step alg ^^ (n - pb_first p)) p)\<lparr>pb_first := 0\<rparr>"
  unfolding pbkdf2_Update_def pbkdf2_step_def[symmetric] by (simp add: for_up_const Let_def)

lemma pbkdf2_step_first: "pbkdf2_step alg (p\<lparr>pb_first := k\<rparr>) = (pbkdf2_step alg p)\<lparr>pb_first := k\<rparr>"
  by (simp add: pbkdf2_step_def Let_def)

text \<open>Iterations may be split over several calls, as long as the first call asks for at least one.\<close>

lemma pbkdf2_Update_add:
  assumes "pb_first p \<le> a"
  shows "pbkdf2_Update alg (pbkdf2_Update alg p a) b = pbkdf2_Update alg p (a + b)"
proof -
  have steps: "(pbkdf2_step alg ^^ k) (q\<lparr>pb_first := 0\<rparr>) = ((pbkdf2_step alg ^^ k) q)\<lparr>pb_first := 0\<rparr>" for k q
    by (induction k) (simp_all add: pbkdf2_step_first)
  have "a + b - pb_first p = b + (a - pb_first p)" using assms by simp
  then show ?thesis by (simp add: pbkdf2_Update_steps steps funpow_add)
qed

lemma pbkdf2_Update_repeat:
  assumes "pb_first p \<le> a"
  shows "((\<lambda>p. pbkdf2_Update alg p a) ^^ Suc n) p = pbkdf2_Update alg p (Suc n * a)"
  by (induction n) (use assms in \<open>simp_all add: pbkdf2_Update_add add.commute\<close>)

end
