(* ===== verification/Bip39.thy ===== *)
theory Bip39
  imports Bip39Words Pbkdf2
begin

text \<open>
  Mnemonics, \<open>trezor-crypto/src/bip39.c\<close>: from entropy to words and back, the checksum, the
  normalisation of spaces and the seed. A C string is the list of its characters before the
  terminating zero; a failing call is \<open>None\<close>. The last byte of the local bit array is not initialised
  by \<open>mnemonic_from_data\<close>, nor is the hash buffer of the key derivation: both are arguments.
\<close>

unbundle bit_operations_syntax

section \<open>Entropy to words\<close>

definition mnemonic_index :: "u8 list \<Rightarrow> nat \<Rightarrow> nat" where
  "mnemonic_index bits i = for_up 0 11 (\<lambda>j idx.
     2 * idx + of_bool (0 < bits ! ((i * 11 + j) div 8) AND push_bit (7 - (i * 11 + j) mod 8) 1)) 0"

definition mnemonic_from_data :: "u8 \<Rightarrow> u8 list \<Rightarrow> string option" where
  "mnemonic_from_data junk data =
     (let len = length data
      in if len mod 4 \<noteq> 0 \<or> len < 16 \<or> 32 < len then None
         else
           let bits = sha256_Raw data @ [junk];
               bits = bits[len := bits ! 0];
               bits = memcpy_at 0 data bits;
               mlen = len * 3 div 4
           in Some (for_up 0 mlen (\<lambda>i p.
                let p = p @ wordlist ! mnemonic_index bits i
                in if i < mlen - 1 then p @ '' '' else p) []))"

text \<open>\<open>random\<close> is what \<open>random_buffer\<close> puts into the 32 bytes.\<close>

definition mnemonic_generate :: "u8 \<Rightarrow> u8 list \<Rightarrow> int \<Rightarrow> string option" where
  "mnemonic_generate junk random strength =
     (if strength mod 32 \<noteq> 0 \<or> strength < 128 \<or> 256 < strength then None
      else mnemonic_from_data junk (take (nat (strength div 8)) random))"

section \<open>Words to entropy\<close>

text \<open>Up to nine characters before a space go to \<open>current_word\<close>.\<close>

fun read_word :: "string \<Rightarrow> string \<Rightarrow> (string \<times> string) option" where
  "read_word current_word [] = Some (current_word, [])"
| "read_word current_word (c # mnemonic) =
     (if c = CHR '' '' then Some (current_word, c # mnemonic)
      else if 9 \<le> length current_word then None
      else read_word (current_word @ [c]) mnemonic)"

fun find_word :: "string \<Rightarrow> string list \<Rightarrow> nat \<Rightarrow> nat option" where
  "find_word current_word [] k = None"
| "find_word current_word (w # ws) k = (if current_word = w then Some k else find_word current_word ws (k + 1))"

definition set_word_bits :: "nat \<Rightarrow> u8 list \<times> nat \<Rightarrow> u8 list \<times> nat" where
  "set_word_bits k = for_up 0 11 (\<lambda>ki (bits, bi).
     (if k AND push_bit (10 - ki) 1 \<noteq> 0 then bits[bi div 8 := bits ! (bi div 8) OR push_bit (7 - bi mod 8) 1] else bits, bi + 1))"

lemma read_word_rest: "read_word w m = Some (w', m') \<Longrightarrow> length m' \<le> length m \<and> (m' = m \<longrightarrow> m = [] \<or> hd m = CHR '' '')"
proof (induction w m rule: read_word.induct)
  case (2 w c m)
  then show ?case by (cases "c = CHR '' ''") (auto split: if_splits)
qed simp

function entropy_loop :: "string \<Rightarrow> u8 list \<times> nat \<Rightarrow> (u8 list \<times> nat) option" where
  "entropy_loop mnemonic s =
     (if mnemonic = [] then Some s
      else case read_word [] mnemonic of
             None \<Rightarrow> None
           | Some (current_word, rest) \<Rightarrow>
               let rest = (if rest \<noteq> [] then tl rest else rest)
               in case find_word current_word wordlist 0 of
                    None \<Rightarrow> None
                  | Some k \<Rightarrow> entropy_loop rest (set_word_bits k s))"
  by pat_completeness auto

termination
proof (relation "measure (length \<circ> fst)")
  fix mnemonic :: string and s :: "u8 list \<times> nat" and x cw rest rest' k
  assume "mnemonic \<noteq> []" "read_word [] mnemonic = Some x" "(cw, rest) = x" "rest' = (if rest \<noteq> [] then tl rest else rest)"
  then show "((rest', set_word_bits k s), mnemonic, s) \<in> measure (length \<circ> fst)"
    using read_word_rest[of "[]" mnemonic cw rest] by (cases rest) auto
qed simp

declare entropy_loop.simps [simp del]

definition mnemonic_to_entropy :: "string \<Rightarrow> (u8 list \<times> nat) option" where
  "mnemonic_to_entropy mnemonic =
     (let n = length (filter (\<lambda>c. c = CHR '' '') mnemonic) + 1
      in if n \<noteq> 12 \<and> n \<noteq> 15 \<and> n \<noteq> 18 \<and> n \<noteq> 21 \<and> n \<noteq> 24 then None
         else case entropy_loop mnemonic (replicate 33 0, 0) of
                None \<Rightarrow> None
              | Some (bits, bi) \<Rightarrow> if bi \<noteq> n * 11 then None else Some (bits, n * 11))"

definition mnemonic_check :: "string \<Rightarrow> bool" where
  "mnemonic_check mnemonic =
     (case mnemonic_to_entropy mnemonic of
        None \<Rightarrow> False
      | Some (bits, mnemonic_bits_len) \<Rightarrow>
          if mnemonic_bits_len \<noteq> 12 * 11 \<and> mnemonic_bits_len \<noteq> 15 * 11 \<and> mnemonic_bits_len \<noteq> 18 * 11
             \<and> mnemonic_bits_len \<noteq> 21 * 11 \<and> mnemonic_bits_len \<noteq> 24 * 11 then False
          else
            let words = mnemonic_bits_len div 11;
                checksum = bits ! (words * 4 div 3);
                bits = memcpy_at 0 (sha256_Raw (take (words * 4 div 3) bits)) bits
            in if words = 12 then bits ! 0 AND 0xF0 = checksum AND 0xF0
               else if words = 15 then bits ! 0 AND 0xF8 = checksum AND 0xF8
               else if words = 18 then bits ! 0 AND 0xFC = checksum AND 0xFC
               else if words = 21 then bits ! 0 AND 0xFE = checksum AND 0xFE
               else if words = 24 then bits ! 0 = checksum
               else False)"

section \<open>Bits of an array\<close>

declare push_bit_of_1 [simp del] push_bit_of_Suc_0 [simp del]

definition getbit :: "u8 list \<Rightarrow> nat \<Rightarrow> bool" where
  "getbit bits k \<longleftrightarrow> bit (bits ! (k div 8)) (7 - k mod 8)"

lemma getbit_and: "0 < bits ! (k div 8) AND push_bit (7 - k mod 8) 1 \<longleftrightarrow> getbit bits k"
  by (simp add: getbit_def word_gt_0 bit_iff_and_push_bit_not_eq_0)

lemma getbit_or:
  assumes "k div 8 < length bits" "m div 8 < length bits"
  shows "getbit (bits[m div 8 := bits ! (m div 8) OR push_bit (7 - m mod 8) 1]) k \<longleftrightarrow> getbit bits k \<or> k = m"
proof -
  have "k = m \<longleftrightarrow> k div 8 = m div 8 \<and> 7 - k mod 8 = 7 - m mod 8"
  proof
    assume "k div 8 = m div 8 \<and> 7 - k mod 8 = 7 - m mod 8"
    moreover have "k mod 8 < 8" "m mod 8 < 8" by simp_all
    ultimately have "k div 8 = m div 8" "k mod 8 = m mod 8" by linarith+
    then show "k = m" by (metis mult_div_mod_eq)
  qed simp
  moreover have "bit (push_bit a 1 :: u8) b \<longleftrightarrow> b = a" if "a < 8" for a b
    using that by (auto simp: bit_push_bit_iff bit_1_iff)
  then have "bit (push_bit (7 - m mod 8) 1 :: u8) (7 - k mod 8) \<longleftrightarrow> 7 - k mod 8 = 7 - m mod 8" by simp
  ultimately show ?thesis using assms by (auto simp: getbit_def nth_list_update bit_or_iff)
qed

lemma index_bits:
  "for_up 0 n (\<lambda>j idx. 2 * idx + of_bool (b j)) 0 < (2 :: nat) ^ n
   \<and> (\<forall>k<n. bit (for_up 0 n (\<lambda>j idx. 2 * idx + of_bool (b j)) (0 :: nat)) (n - 1 - k) \<longleftrightarrow> b k)"
proof (induction n)
  case (Suc n)
  let ?x = "for_up 0 n (\<lambda>j idx. 2 * idx + of_bool (b j)) (0 :: nat)"
  have step: "for_up 0 (Suc n) (\<lambda>j idx. 2 * idx + of_bool (b j)) 0 = 2 * ?x + of_bool (b n)" by (simp add: for_up_last)
  have "bit (2 * ?x + of_bool (b n)) (n - k) \<longleftrightarrow> b k" if "k < Suc n" for k
  proof (cases "k = n")
    case False
    then have "n - k = Suc (n - 1 - k)" "k < n" using that by auto
    then show ?thesis using Suc by (simp add: bit_Suc)
  qed (simp add: bit_0)
  then show ?case unfolding step using Suc by simp
qed simp

lemma mnemonic_index_bits:
  "mnemonic_index bits i < 2048" "k < 11 \<Longrightarrow> bit (mnemonic_index bits i) (10 - k) \<longleftrightarrow> getbit bits (i * 11 + k)"
  using index_bits[of 11 "\<lambda>j. getbit bits (i * 11 + j)"] by (simp_all add: mnemonic_index_def getbit_and)

text \<open>\<open>bits\<close> holds the bits \<open>f\<close> up to position \<open>bi\<close> and zeros after it.\<close>

definition bits_upto :: "(nat \<Rightarrow> bool) \<Rightarrow> nat \<Rightarrow> u8 list \<Rightarrow> bool" where
  "bits_upto f bi bits \<longleftrightarrow> length bits = 33 \<and> (\<forall>k<264. getbit bits k \<longleftrightarrow> k < bi \<and> f k)"

lemma set_word_bits_upto:
  assumes "bits_upto f bi bits" "bi + 11 \<le> 264" "\<And>k. k < 11 \<Longrightarrow> bit idx (10 - k) \<longleftrightarrow> f (bi + k)"
  shows "\<exists>bits'. set_word_bits idx (bits, bi) = (bits', bi + 11) \<and> bits_upto f (bi + 11) bits'"
proof -
  define P where "P = (\<lambda>ki (s :: u8 list \<times> nat). snd s = bi + ki \<and> bits_upto f (bi + ki) (fst s))"
  have "P 11 (set_word_bits idx (bits, bi))"
    unfolding set_word_bits_def
  proof (rule for_up_inv)
    show "P 0 (bits, bi)" using assms(1) by (simp add: P_def)
    fix ki and s :: "u8 list \<times> nat" assume k: "ki < 11" "P ki s"
    obtain bs where s: "s = (bs, bi + ki)" and bs: "bits_upto f (bi + ki) bs" using k(2) by (cases s) (auto simp: P_def)
    let ?m = "bi + ki"
    have m: "?m < 264" using k(1) assms(2) by simp
    have "idx AND push_bit (10 - ki) 1 \<noteq> 0 \<longleftrightarrow> f ?m"
      using assms(3)[OF k(1)] unfolding bit_iff_and_push_bit_not_eq_0 .
    moreover have "bits_upto f (?m + 1) (bs[?m div 8 := bs ! (?m div 8) OR push_bit (7 - ?m mod 8) 1])" if "f ?m"
      using bs m that by (auto simp: bits_upto_def getbit_or less_Suc_eq)
    moreover have "bits_upto f (?m + 1) bs" if "\<not> f ?m"
      using bs that by (auto simp: bits_upto_def less_Suc_eq)
    ultimately show "P (Suc ki) (case s of (bits, bi) \<Rightarrow>
        (if idx AND push_bit (10 - ki) 1 \<noteq> 0 then bits[bi div 8 := bits ! (bi div 8) OR push_bit (7 - bi mod 8) 1] else bits, bi + 1))"
      by (simp add: s P_def)
  qed simp
  then show ?thesis by (intro exI[of _ "fst (set_word_bits idx (bits, bi))"]) (auto simp: P_def prod_eq_iff)
qed

section \<open>The words of a phrase\<close>

fun phrase :: "string list \<Rightarrow> string" where
  "phrase [] = []"
| "phrase [w] = w"
| "phrase (w # ws) = w @ '' '' @ phrase ws"

lemma phrase_Cons: "ws \<noteq> [] \<Longrightarrow> phrase (w # ws) = w @ '' '' @ phrase ws"
  by (cases ws) simp_all

lemma phrase_snoc: "phrase (ws @ [w]) = concat (map (\<lambda>w. w @ '' '') ws) @ w"
  by (induction ws) (simp_all add: phrase_Cons)

lemma for_up_phrase:
  assumes "0 < n"
  shows "for_up 0 n (\<lambda>i p. let p = p @ w i in if i < n - 1 then p @ '' '' else p) [] = phrase (map w [0..<n])"
proof -
  obtain m where n: "n = Suc m" using assms by (cases n) auto
  have "for_up 0 k (\<lambda>i p. let p = p @ w i in if i < n - 1 then p @ '' '' else p) [] = concat (map (\<lambda>w. w @ '' '') (map w [0..<k]))" if "k \<le> m" for k
    using that by (induction k) (simp_all add: for_up_last n Let_def)
  then show ?thesis by (simp add: n for_up_last Let_def phrase_snoc)
qed

lemma count_spaces:
  assumes "ws \<noteq> []" "\<And>w. w \<in> set ws \<Longrightarrow> CHR '' '' \<notin> set w"
  shows "length (filter (\<lambda>c. c = CHR '' '') (phrase ws)) + 1 = length ws"
proof -
  have none: "filter (\<lambda>c. c = CHR '' '') w = []" if "CHR '' '' \<notin> set w" for w
    using that by (auto simp: filter_empty_conv)
  show ?thesis using assms
  proof (induction ws)
    case (Cons w ws)
    then show ?case by (cases "ws = []") (simp_all add: phrase_Cons none)
  qed simp
qed

lemma read_word_until:
  assumes "length cw + length w \<le> 9" "CHR '' '' \<notin> set w"
  shows "read_word cw w = Some (cw @ w, [])" "read_word cw (w @ CHR '' '' # rest) = Some (cw @ w, CHR '' '' # rest)"
  using assms by (induction w arbitrary: cw) auto

lemma find_word_nth: "distinct ws \<Longrightarrow> i < length ws \<Longrightarrow> find_word (ws ! i) ws k = Some (k + i)"
proof (induction ws arbitrary: i k)
  case (Cons w ws)
  then show ?case by (cases i) (auto simp: in_set_conv_nth)
qed simp

lemma entropy_loop_word:
  assumes "i < 2048"
  shows "entropy_loop (wordlist ! i) s = Some (set_word_bits i s)"
    "entropy_loop (wordlist ! i @ '' '' @ rest) s = entropy_loop rest (set_word_bits i s)"
proof -
  note w = wordlist_word[OF assms]
  have f: "find_word (wordlist ! i) wordlist 0 = Some i"
    using find_word_nth[OF distinct_wordlist, of i 0] assms by (simp add: length_wordlist)
  have "read_word [] (wordlist ! i) = Some (wordlist ! i, [])"
    "read_word [] (wordlist ! i @ '' '' @ rest) = Some (wordlist ! i, '' '' @ rest)"
    using read_word_until(1)[of "[]" "wordlist ! i"] read_word_until(2)[of "[]" "wordlist ! i" rest] w by simp_all
  with f w(2) show "entropy_loop (wordlist ! i) s = Some (set_word_bits i s)"
    "entropy_loop (wordlist ! i @ '' '' @ rest) s = entropy_loop rest (set_word_bits i s)"
    by ((subst entropy_loop.simps, simp add: entropy_loop.simps[of "[]"])+)
qed

lemma entropy_loop_phrase:
  assumes "idxs \<noteq> []" "\<And>i. i \<in> set idxs \<Longrightarrow> i < 2048" "bits_upto f bi bits" "bi + 11 * length idxs \<le> 264"
    and "\<And>t k. t < length idxs \<Longrightarrow> k < 11 \<Longrightarrow> bit (idxs ! t) (10 - k) \<longleftrightarrow> f (bi + 11 * t + k)"
  shows "\<exists>bits'. entropy_loop (phrase (map (\<lambda>i. wordlist ! i) idxs)) (bits, bi) = Some (bits', bi + 11 * length idxs)
    \<and> bits_upto f (bi + 11 * length idxs) bits'"
  using assms
proof (induction idxs arbitrary: bi bits)
  case (Cons i idxs)
  obtain bs where bs: "set_word_bits i (bits, bi) = (bs, bi + 11)" "bits_upto f (bi + 11) bs"
    using set_word_bits_upto[OF Cons.prems(3), of i] Cons.prems(4) Cons.prems(5)[of 0] by auto
  have i: "i < 2048" using Cons.prems(2) by simp
  show ?case
  proof (cases "idxs = []")
    case True
    then show ?thesis using bs entropy_loop_word(1)[OF i] by auto
  next
    case False
    have "\<exists>bits'. entropy_loop (phrase (map (\<lambda>i. wordlist ! i) idxs)) (bs, bi + 11) = Some (bits', bi + 11 + 11 * length idxs)
        \<and> bits_upto f (bi + 11 + 11 * length idxs) bits'"
    proof (rule Cons.IH[OF False _ bs(2)])
      show "bit (idxs ! t) (10 - k) \<longleftrightarrow> f (bi + 11 + 11 * t + k)" if "t < length idxs" "k < 11" for t k
        using Cons.prems(5)[of "Suc t" k] that by (simp add: algebra_simps)
    qed (use Cons.prems in auto)
    then show ?thesis using False entropy_loop_word(2)[OF i] bs(1) by (simp add: phrase_Cons algebra_simps)
  qed
qed simp

section \<open>Round trip\<close>

lemma strength_values: "strength mod 32 = 0 \<Longrightarrow> 128 \<le> strength \<Longrightarrow> strength \<le> 256 \<Longrightarrow> strength = 128 \<or> strength = 160 \<or> strength = 192 \<or> strength = 224 \<or> strength = 256"
  for strength :: int
  by presburger

text \<open>The bit array \<open>mnemonic_from_data\<close> reads.\<close>

definition data_bits :: "u8 \<Rightarrow> u8 list \<Rightarrow> u8 list" where
  "data_bits junk data =
     (let bits = sha256_Raw data @ [junk]; bits = bits[length data := bits ! 0] in memcpy_at 0 data bits)"

lemma length_sha256_Raw: "length (sha256_Raw m) = 32"
  by (simp add: sha256_Raw_fips length_sha_fips)

lemma data_bits:
  assumes "length data \<le> 32"
  shows "length (data_bits junk data) = 33" "take (length data) (data_bits junk data) = data"
    "data_bits junk data ! length data = sha256_Raw data ! 0"
  using assms length_sha256_Raw[of data]
  by (simp_all add: data_bits_def Let_def memcpy_at_def nth_append)

lemma entropy_words:
  assumes "length data mod 4 = 0" "16 \<le> length data" "length data \<le> 32"
  defines "n \<equiv> length data * 3 div 4"
  shows "\<exists>m bits'. mnemonic_from_data junk data = Some m \<and> mnemonic_to_entropy m = Some (bits', n * 11)
    \<and> bits_upto (getbit (data_bits junk data)) (n * 11) bits'"
proof -
  let ?bits = "data_bits junk data" and ?i = "mnemonic_index (data_bits junk data)"
  let ?ws = "map (\<lambda>i. wordlist ! ?i i) [0..<n]"
  have len: "length data \<in> {16, 20, 24, 28, 32}"
  proof -
    obtain q where q: "length data = 4 * q" using assms(1) by (metis dvd_def mod_0_imp_dvd)
    then have "q \<in> {4, 5, 6, 7, 8}" using assms(2,3) by auto
    then show ?thesis using q by auto
  qed
  then have n: "n \<in> {12, 15, 18, 21, 24}" by (auto simp: n_def)
  then have ne: "0 < n" "?ws \<noteq> []" by auto
  have from_data: "mnemonic_from_data junk data = Some (phrase ?ws)"
    using assms(1-3) for_up_phrase[OF ne(1), of "\<lambda>i. wordlist ! ?i i"]
    by (simp add: mnemonic_from_data_def Let_def data_bits_def n_def)
  have idx: "i < 2048" if "i \<in> set (map ?i [0..<n])" for i using that mnemonic_index_bits(1) by auto
  have "bits_upto (getbit ?bits) 0 (replicate 33 0)"
    by (auto simp: bits_upto_def getbit_def nth_replicate less_mult_imp_div_less)
  moreover have "bit (map ?i [0..<n] ! t) (10 - k) \<longleftrightarrow> getbit ?bits (0 + 11 * t + k)" if "t < n" "k < 11" for t k
    using that mnemonic_index_bits(2)[of k ?bits t] by (simp add: mult.commute)
  ultimately obtain bits' where bits': "entropy_loop (phrase (map ((!) wordlist) (map ?i [0..<n]))) (replicate 33 0, 0) = Some (bits', 0 + 11 * n)"
      "bits_upto (getbit ?bits) (0 + 11 * n) bits'"
    using entropy_loop_phrase[of "map ?i [0..<n]" "getbit ?bits" 0 "replicate 33 0"] idx n ne by auto
  have "CHR '' '' \<notin> set w" if "w \<in> set ?ws" for w using that wordlist_word(3) mnemonic_index_bits(1) by auto
  then have "length (filter (\<lambda>c. c = CHR '' '') (phrase ?ws)) + 1 = n" using count_spaces[OF ne(2)] by simp
  then have "mnemonic_to_entropy (phrase ?ws) = Some (bits', n * 11)"
    using n bits'(1) by (auto simp: mnemonic_to_entropy_def Let_def o_def mult.commute)
  then show ?thesis using from_data bits'(2) by (auto simp: mult.commute)
qed

lemma byte_eqI: "(\<And>k. k < 8 \<Longrightarrow> bit x (7 - k) \<longleftrightarrow> bit y (7 - k)) \<Longrightarrow> x = y" for x y :: u8
proof (rule bit_word_eqI)
  fix i assume eq: "\<And>k. k < 8 \<Longrightarrow> bit x (7 - k) \<longleftrightarrow> bit y (7 - k)" and "i < LENGTH(8)"
  then have "7 - i < 8" "7 - (7 - i) = i" by simp_all
  then show "bit x i = bit y i" using eq[of "7 - i"] by simp
qed

lemma recovered_data:
  assumes "bits_upto (getbit bits) m bits'" "length bits = 33" "8 * len \<le> m" "len \<le> 32"
  shows "take len bits' = take len bits"
proof (intro nth_take_lemma allI impI)
  fix i assume i: "i < len"
  have "bit (bits' ! i) (7 - k) \<longleftrightarrow> bit (bits ! i) (7 - k)" if "k < 8" for k
    using assms i that unfolding bits_upto_def by (auto simp: getbit_def dest: spec[of _ "8 * i + k"])
  then show "bits' ! i = bits ! i" by (rule byte_eqI)
qed (use assms in \<open>simp_all add: bits_upto_def\<close>)

lemma recovered_checksum:
  assumes "bits_upto (getbit bits) (8 * len + c) bits'" "len \<le> 32" "c \<le> 8"
    and masked: "\<And>k. k < 8 \<Longrightarrow> bit (msk :: u8) (7 - k) \<longleftrightarrow> k < c"
  shows "bits ! len AND msk = bits' ! len AND msk"
proof (rule byte_eqI)
  fix k :: nat assume k: "k < 8"
  have "bit (bits' ! len) (7 - k) \<longleftrightarrow> k < c \<and> bit (bits ! len) (7 - k)"
    using assms(1,2) k unfolding bits_upto_def by (auto simp: getbit_def dest: spec[of _ "8 * len + k"])
  then show "bit (bits ! len AND msk) (7 - k) \<longleftrightarrow> bit (bits' ! len AND msk) (7 - k)"
    using masked[OF k] by (auto simp: bit_and_iff)
qed

lemma data_lengths:
  assumes "mnemonic_from_data junk data = Some m"
  shows "length data mod 4 = 0" "16 \<le> length data" "length data \<le> 32" "length data \<in> {16, 20, 24, 28, 32}"
proof -
  show l: "length data mod 4 = 0" "16 \<le> length data" "length data \<le> 32"
    using assms by (auto simp: mnemonic_from_data_def Let_def split: if_splits)
  obtain q where q: "length data = 4 * q" using l(1) by (metis dvd_def mod_0_imp_dvd)
  then have "q \<in> {4, 5, 6, 7, 8}" using l(2,3) by auto
  then show "length data \<in> {16, 20, 24, 28, 32}" using q by auto
qed

lemma checksum_masks:
  "k < 8 \<Longrightarrow> bit (0xF0 :: u8) (7 - k) \<longleftrightarrow> k < 4" "k < 8 \<Longrightarrow> bit (0xF8 :: u8) (7 - k) \<longleftrightarrow> k < 5"
  "k < 8 \<Longrightarrow> bit (0xFC :: u8) (7 - k) \<longleftrightarrow> k < 6" "k < 8 \<Longrightarrow> bit (0xFE :: u8) (7 - k) \<longleftrightarrow> k < 7"
  "k < 8 \<Longrightarrow> bit (0xFF :: u8) (7 - k) \<longleftrightarrow> k < 8"
proof -
  assume "k < 8"
  then have "k \<in> {0, 1, 2, 3, 4, 5, 6, 7}" by auto
  then show "bit (0xF0 :: u8) (7 - k) \<longleftrightarrow> k < 4" "bit (0xF8 :: u8) (7 - k) \<longleftrightarrow> k < 5"
    "bit (0xFC :: u8) (7 - k) \<longleftrightarrow> k < 6" "bit (0xFE :: u8) (7 - k) \<longleftrightarrow> k < 7" "bit (0xFF :: u8) (7 - k) \<longleftrightarrow> k < 8"
    by (auto simp: bit_numeral_rec numeral_eq_Suc)
qed

lemma mnemonic_roundtrip_bits:
  assumes "mnemonic_from_data junk data = Some m"
  shows "\<exists>bits'. mnemonic_to_entropy m = Some (bits', length data * 3 div 4 * 11) \<and> take (length data) bits' = data \<and> mnemonic_check m"
proof -
  let ?len = "length data" and ?bits = "data_bits junk data"
  note l = data_lengths[OF assms]
  obtain bits' where b: "mnemonic_to_entropy m = Some (bits', ?len * 3 div 4 * 11)" "bits_upto (getbit ?bits) (?len * 3 div 4 * 11) bits'"
    using entropy_words[OF l(1-3), of junk] assms by auto
  note d = data_bits[OF l(3), of junk]
  have "?len * 3 div 4 * 11 = 8 * ?len + ?len div 4" using l(4) by auto
  then have b2: "bits_upto (getbit ?bits) (8 * ?len + ?len div 4) bits'" using b(2) by simp
  have data: "take ?len bits' = data" using recovered_data[OF b2 d(1) _ l(3)] d(2) by simp
  have "length bits' = 33" using b(2) by (simp add: bits_upto_def)
  then have hash: "memcpy_at 0 (sha256_Raw (take ?len bits')) bits' ! 0 = ?bits ! ?len"
    unfolding data d(3) using length_sha256_Raw[of data] by (simp add: memcpy_at_def nth_append)
  have chk: "?bits ! ?len AND msk = bits' ! ?len AND msk" if "\<And>k. k < 8 \<Longrightarrow> bit (msk :: u8) (7 - k) \<longleftrightarrow> k < ?len div 4" for msk
    using recovered_checksum[OF b2 l(3) _ that] l(3) by simp
  have full: "w AND 0xFF = w" for w :: u8 unfolding and_8bit using take_bit_length_eq[of w] by simp
  have "mnemonic_check m"
    using l(4) b(1) hash chk[of "0xF0"] chk[of "0xF8"] chk[of "0xFC"] chk[of "0xFE"] chk[of "0xFF", unfolded full] checksum_masks
    by (auto simp: mnemonic_check_def Let_def)
  then show ?thesis using b(1) data by blast
qed

section \<open>Normalising spaces\<close>

definition isspace :: "char \<Rightarrow> bool" where
  "isspace c \<longleftrightarrow> c = CHR '' '' \<or> c = CHR 0x09 \<or> c = CHR 0x0A \<or> c = CHR 0x0B \<or> c = CHR 0x0C \<or> c = CHR 0x0D"

text \<open>The loop over the text, from a flag \<open>boundary\<close>, and the loop that drops spaces at the end.\<close>

fun normalize_loop :: "bool \<Rightarrow> string \<Rightarrow> string \<Rightarrow> string" where
  "normalize_loop boundary normalized [] = normalized"
| "normalize_loop boundary normalized (c # mnemonic) =
     (if \<not> isspace c then normalize_loop False (normalized @ [c]) mnemonic
      else if boundary then normalize_loop boundary normalized mnemonic
      else normalize_loop True (normalized @ '' '') mnemonic)"

function strip_end :: "string \<Rightarrow> string" where
  "strip_end normalized = (if 0 < length normalized \<and> isspace (last normalized) then strip_end (butlast normalized) else normalized)"
  by pat_completeness auto

termination
  by (relation "measure length") auto

declare strip_end.simps [simp del]

definition normalize_mnemonic :: "string \<Rightarrow> string" where
  "normalize_mnemonic mnemonic = strip_end (normalize_loop True [] mnemonic)"

text \<open>The words between white space, and the text the normalisation stands for.\<close>

fun spaced_words :: "string \<Rightarrow> string \<Rightarrow> string list" where
  "spaced_words w [] = (if w = [] then [] else [w])"
| "spaced_words w (c # cs) =
     (if isspace c then (if w = [] then spaced_words [] cs else w # spaced_words [] cs) else spaced_words (w @ [c]) cs)"

lemma strip_end_snoc [simp]: "strip_end [] = []" "isspace c \<Longrightarrow> strip_end (s @ [c]) = strip_end s" "\<not> isspace c \<Longrightarrow> strip_end (s @ [c]) = s @ [c]"
  by (simp_all add: strip_end.simps[of "[]"] strip_end.simps[of "s @ [c]"])

text \<open>
  Invariant of the loop: what is written is the finished words, each followed by a space, and the
  letters of the current one; \<open>boundary\<close> says that there are none.
\<close>

lemma normalize_loop_words:
  assumes "\<And>u. u \<in> set done_words \<Longrightarrow> u \<noteq> [] \<and> (\<forall>c\<in>set u. \<not> isspace c)" "\<forall>c\<in>set w. \<not> isspace c"
  shows "strip_end (normalize_loop (w = []) (concat (map (\<lambda>w. w @ '' '') done_words) @ w) cs) = phrase (done_words @ spaced_words w cs)"
  using assms
proof (induction cs arbitrary: done_words w)
  case Nil
  show ?case
  proof (cases "w = []")
    case True
    show ?thesis
    proof (cases done_words rule: rev_cases)
      case (snoc us u)
      then obtain v c where "u = v @ [c]" "\<not> isspace c" using Nil(1)[of u] by (cases u rule: rev_cases) auto
      then have "strip_end (concat (map (\<lambda>w. w @ '' '') us) @ u) = concat (map (\<lambda>w. w @ '' '') us) @ u"
        using strip_end_snoc(3)[of c "concat (map (\<lambda>w. w @ '' '') us) @ v"] by simp
      moreover have "strip_end (concat (map (\<lambda>w. w @ '' '') us) @ u @ '' '') = strip_end (concat (map (\<lambda>w. w @ '' '') us) @ u)"
        using strip_end_snoc(2)[of "CHR '' ''" "concat (map (\<lambda>w. w @ '' '') us) @ u"] by (simp add: isspace_def)
      ultimately show ?thesis using True snoc by (simp add: phrase_snoc)
    qed (use True in simp)
  next
    case False
    then obtain v c where "w = v @ [c]" "\<not> isspace c" using Nil(2) by (cases w rule: rev_cases) auto
    then show ?thesis using strip_end_snoc(3)[of c "concat (map (\<lambda>w. w @ '' '') done_words) @ v"] by (simp add: phrase_snoc)
  qed
next
  case (Cons c cs)
  show ?case
  proof (cases "isspace c")
    case True
    show ?thesis
    proof (cases "w = []")
      case False
      have "strip_end (normalize_loop ([] = ([] :: string)) (concat (map (\<lambda>w. w @ '' '') (done_words @ [w])) @ []) cs)
          = phrase ((done_words @ [w]) @ spaced_words [] cs)"
        by (rule Cons.IH) (use Cons.prems False in auto)
      then show ?thesis using True False by simp
    next
      case True
      have "strip_end (normalize_loop ([] = ([] :: string)) (concat (map (\<lambda>w. w @ '' '') done_words) @ []) cs) = phrase (done_words @ spaced_words [] cs)"
        by (rule Cons.IH) (use Cons.prems in auto)
      then show ?thesis using True \<open>isspace c\<close> by simp
    qed
  next
    case False
    have "strip_end (normalize_loop (w @ [c] = []) (concat (map (\<lambda>w. w @ '' '') done_words) @ w @ [c]) cs)
        = phrase (done_words @ spaced_words (w @ [c]) cs)"
      by (rule Cons.IH) (use Cons.prems False in auto)
    then show ?thesis using False by simp
  qed
qed

lemma normalize_words: "normalize_mnemonic m = phrase (spaced_words [] m)"
  using normalize_loop_words[of "[]" "[]" m] by (simp add: normalize_mnemonic_def)

lemma spaced_words_good:
  "\<forall>c\<in>set w. \<not> isspace c \<Longrightarrow> u \<in> set (spaced_words w m) \<Longrightarrow> u \<noteq> [] \<and> (\<forall>c\<in>set u. \<not> isspace c)"
proof (induction m arbitrary: w)
  case Nil
  then show ?case by (cases "w = []") auto
next
  case (Cons c m)
  show ?case
  proof (cases "isspace c")
    case True
    then have "u = w \<and> w \<noteq> [] \<or> u \<in> set (spaced_words [] m)" using Cons.prems(2) by (simp split: if_splits)
    then show ?thesis using Cons.IH[of "[]"] Cons.prems(1) by fastforce
  next
    case False
    then have "\<forall>c\<in>set (w @ [c]). \<not> isspace c" "u \<in> set (spaced_words (w @ [c]) m)" using Cons.prems by simp_all
    then show ?thesis by (rule Cons.IH)
  qed
qed

lemma spaced_words_word: "\<forall>c\<in>set u. \<not> isspace c \<Longrightarrow> spaced_words w (u @ rest) = spaced_words (w @ u) rest"
  by (induction u arbitrary: w) auto

lemma spaced_words_phrase:
  "(\<And>u. u \<in> set us \<Longrightarrow> u \<noteq> [] \<and> (\<forall>c\<in>set u. \<not> isspace c)) \<Longrightarrow> spaced_words [] (phrase us) = us"
proof (induction us)
  case (Cons u us)
  have u: "u \<noteq> []" "\<forall>c\<in>set u. \<not> isspace c" using Cons.prems[of u] by auto
  have us: "spaced_words [] (phrase us) = us" by (rule Cons.IH) (rule Cons.prems, simp)
  show ?case
  proof (cases "us = []")
    case True
    then show ?thesis using spaced_words_word[OF u(2), of "[]" "[]"] u(1) by simp
  next
    case False
    have "isspace CHR '' ''" by (simp add: isspace_def)
    then show ?thesis
      using spaced_words_word[OF u(2), of "[]" "CHR '' '' # phrase us"] u(1) us False by (simp add: phrase_Cons)
  qed
qed simp

lemma normalize_idempotent: "normalize_mnemonic (normalize_mnemonic m) = normalize_mnemonic m"
  using spaced_words_phrase[of "spaced_words [] m"] spaced_words_good[of "[]" _ m] by (simp add: normalize_words)

section \<open>The seed\<close>

definition BIP39_PBKDF2_ROUNDS :: nat where
  "BIP39_PBKDF2_ROUNDS = 2048"

definition mnemonic_salt :: "string \<Rightarrow> u8 list" where
  "mnemonic_salt passphrase = str_bytes ''mnemonic'' @ take 256 (str_bytes passphrase)"

text \<open>The sixteen updates, with the arguments of the calls to the progress function.\<close>

definition mnemonic_rounds :: "u64 pbkdf2_ctx \<Rightarrow> u64 pbkdf2_ctx \<times> (nat \<times> nat) list" where
  "mnemonic_rounds pctx =
     for_up 0 16 (\<lambda>i (pctx, calls).
       (pbkdf2_hmac_sha512_Update pctx (BIP39_PBKDF2_ROUNDS div 16),
        calls @ [((i + 1) * BIP39_PBKDF2_ROUNDS div 16, BIP39_PBKDF2_ROUNDS)]))
     (pctx, [(0, BIP39_PBKDF2_ROUNDS)])"

definition mnemonic_to_seed :: "u8 list \<Rightarrow> string \<Rightarrow> string \<Rightarrow> u8 list \<times> (nat \<times> nat) list" where
  "mnemonic_to_seed junk mnemonic passphrase =
     (let normalized = normalize_mnemonic mnemonic;
          pctx = pbkdf2_hmac_sha512_Init junk (str_bytes normalized) (mnemonic_salt passphrase) 1;
          (pctx, calls) = mnemonic_rounds pctx
      in (pbkdf2_hmac_sha512_Final pctx, calls))"

text \<open>
  \<open>mnemonic_to_mini_secret\<close> lets the key derivation write its 64 bytes into a local array of
  \<open>secret_len\<close> bytes, 32 in the code: writing past it is \<open>None\<close>. \<open>Some None\<close> is the return that
  leaves the caller's buffer as it was.
\<close>

definition secret_len :: nat where
  "secret_len = 512 div 16"

definition mnemonic_to_mini_secret :: "u8 list \<Rightarrow> string \<Rightarrow> string \<Rightarrow> u8 list option option" where
  "mnemonic_to_mini_secret junk mnemonic passphrase =
     (case mnemonic_to_entropy mnemonic of
        None \<Rightarrow> Some None
      | Some (entropy, entropyBits) \<Rightarrow>
          let entropylen = entropyBits div 33 * 32;
              entropylen = entropylen div 8;
              pctx = pbkdf2_hmac_sha512_Init junk (take entropylen entropy) (mnemonic_salt passphrase) 1;
              secret = pbkdf2_hmac_sha512_Final (fst (mnemonic_rounds pctx))
          in if secret_len < length secret then None else Some (Some (take 32 secret)))"

lemma pbkdf2_Init_first: "pb_first (pbkdf2_Init alg prepare top_bit total_bits bits junk pass salt nr) = 1"
  by (simp add: pbkdf2_Init_def Let_def split_def)

lemma mnemonic_rounds_run:
  assumes "length junk = 128"
  shows "pbkdf2_hmac_sha512_Final (fst (mnemonic_rounds (pbkdf2_hmac_sha512_Init junk pass salt 1))) = pbkdf2_block (hmac_sha512 pass) salt 2048 1"
    "snd (mnemonic_rounds pctx) = map (\<lambda>i. (i * 128, 2048)) [0..<17]"
proof -
  have run: "for_up 0 n (\<lambda>i (pctx, calls). (f pctx, calls @ [((i + 1) * 2048 div 16, 2048)])) (p, [(0, 2048)])
      = ((f ^^ n) p, map (\<lambda>i. (i * 128, 2048)) [0..<Suc n])" for n p and f :: "'a \<Rightarrow> 'a"
    by (induction n) (simp_all add: for_up_last)
  let ?p = "pbkdf2_hmac_sha512_Init junk pass salt 1"
  have "fst (mnemonic_rounds ?p) = ((\<lambda>p. pbkdf2_hmac_sha512_Update p 128) ^^ Suc 15) ?p"
    unfolding mnemonic_rounds_def BIP39_PBKDF2_ROUNDS_def run by simp
  also have "\<dots> = pbkdf2_hmac_sha512_Update ?p (Suc 15 * 128)"
    unfolding pbkdf2_hmac_sha512_Update_def by (rule pbkdf2_Update_repeat) (simp add: pbkdf2_hmac_sha512_Init_def pbkdf2_Init_first)
  finally show "pbkdf2_hmac_sha512_Final (fst (mnemonic_rounds ?p)) = pbkdf2_block (hmac_sha512 pass) salt 2048 1"
    using pbkdf2_sha512_block[OF assms, of pass salt 1 2048] by simp
  show "snd (mnemonic_rounds pctx) = map (\<lambda>i. (i * 128, 2048)) [0..<17]"
    unfolding mnemonic_rounds_def BIP39_PBKDF2_ROUNDS_def run by simp
qed

lemma mnemonic_seed:
  assumes "length junk = 128"
  shows "mnemonic_to_seed junk m passphrase =
    (pbkdf2_spec (hmac_sha512 (str_bytes (normalize_mnemonic m))) 64 (mnemonic_salt passphrase) 2048 64, map (\<lambda>i. (i * 128, 2048)) [0..<17])"
proof -
  let ?b = "pbkdf2_block (hmac_sha512 (str_bytes (normalize_mnemonic m))) (mnemonic_salt passphrase) 2048 1"
  have "take 64 ?b = ?b" using pbkdf2_block_lengths(2) by simp
  then have "pbkdf2_spec (hmac_sha512 (str_bytes (normalize_mnemonic m))) 64 (mnemonic_salt passphrase) 2048 64 = ?b"
    by (simp add: pbkdf2_spec_def)
  then show ?thesis using mnemonic_rounds_run[OF assms] by (simp add: mnemonic_to_seed_def Let_def split_def)
qed

lemma mini_secret_overflow:
  assumes "length junk = 128" "mnemonic_to_entropy m = Some e"
  shows "mnemonic_to_mini_secret junk m passphrase = None"
  using assms mnemonic_rounds_run(1)[OF assms(1)] pbkdf2_block_lengths(2)
  by (simp add: mnemonic_to_mini_secret_def Let_def split_def secret_len_def)

end
