(* ===== verification/Outcome.thy ===== *)
theory Outcome
  imports Prelude
begin

text \<open>
  What a call of the SDK's C++ code comes to: a result, one of its return codes, or undefined
  behaviour (a write past a buffer, a read past a message, a reversed range, a null dereference),
  which the model keeps as a value of its own so that its absence can be proved.
\<close>

text \<open>The return codes this development meets; \<open>JUBR_OK\<close> is what a returning function gives.\<close>

datatype JUB_RV = JUBR_OK | JUBR_ERROR | JUBR_ARGUMENTS_BAD | JUBR_BUFFER_TOO_SMALL | JUBR_CONNECT_DEVICE_ERROR
  | JUBR_TRANSMIT_DEVICE_ERROR | JUBR_NOT_CONNECT_DEVICE | JUBR_ERROR_ARGS | JUBR_TRANSACT_TIMEOUT | JUBR_BT_BOND_FAILED

datatype 'a outcome = Undefined | Fail JUB_RV | Ret 'a

fun and_then :: "'a outcome \<Rightarrow> ('a \<Rightarrow> 'b outcome) \<Rightarrow> 'b outcome" where
  "and_then (Ret x) f = f x"
| "and_then (Fail e) f = Fail e"
| "and_then Undefined f = Undefined"

text \<open>\<open>memcpy\<close> of a whole vector to a buffer of \<open>cap\<close> bytes; the buffer's content is the result.\<close>

definition store :: "nat \<Rightarrow> u8 list \<Rightarrow> u8 list outcome" where
  "store cap bs = (if length bs \<le> cap then Ret bs else Undefined)"

end
