(* ===== verification/Fido.thy ===== *)
theory Fido
  imports Outcome
begin

text \<open>
  The packet layer of the wireless transports, \<open>src/device/Fido.cpp\<close> with \<open>Fido.h\<close>: a message is
  sent as a packet of 20 bytes with a three-byte header followed by packets of a sequence number and up
  to 19 bytes; the receiver collects what the driver's callback delivers. The \<open>Fido\<close> object is a
  record; a callback returns the new object and whether it woke the waiting sender. Buffers come with
  their capacity, a null pointer is \<open>None\<close>.
\<close>

unbundle bit_operations_syntax

section \<open>The object\<close>

definition CMD_KEEP_ALIVE :: u8 where "CMD_KEEP_ALIVE = 0x82"
definition CMD_MSG :: u8 where "CMD_MSG = 0x83"
definition CMD_ERROR :: u8 where "CMD_ERROR = 0xBF"
definition FIDO_HEADER_LEN :: nat where "FIDO_HEADER_LEN = 3"
definition FIDO_DATA_BLOCK_SIZE :: nat where "FIDO_DATA_BLOCK_SIZE = 19"
definition FIDO_BLOCK_SIZE :: nat where "FIDO_BLOCK_SIZE = 20"

named_theorems fido_consts

lemmas [fido_consts] = CMD_KEEP_ALIVE_def CMD_MSG_def CMD_ERROR_def FIDO_HEADER_LEN_def FIDO_DATA_BLOCK_SIZE_def FIDO_BLOCK_SIZE_def

record fido =
  mRecvMsg :: "u8 list"
  cmdHeader :: u8
  pkgSeq :: u8
  hasError :: bool

datatype ResponseStatus = Empty | Receiving | Complete | Invalid

definition fido_clear :: "fido \<Rightarrow> fido" where
  "fido_clear fido = fido\<lparr>mRecvMsg := [], cmdHeader := 0, pkgSeq := 0, hasError := False\<rparr>"

text \<open>A two-byte big-endian length.\<close>

definition CTOI :: "u8 \<Rightarrow> u8 \<Rightarrow> u32" where
  "CTOI h l = (ucast h * 0x100) OR ucast l"

text \<open>The sequence check: both operands are promoted to \<open>int\<close>, so \<open>seq + 1\<close> does not wrap.\<close>

definition CHECK_SEQ :: "u8 \<Rightarrow> u8 \<Rightarrow> bool" where
  "CHECK_SEQ x seq \<longleftrightarrow> (x = 0 \<and> x = seq) \<or> (uint x = uint seq + 1 \<and> 0 < x \<and> x \<le> 0x7F)"

section \<open>Receiving\<close>

definition checkResponse :: "fido \<Rightarrow> fido \<times> ResponseStatus" where
  "checkResponse fido =
     (if mRecvMsg fido = [] then (fido, Empty)
      else if length (mRecvMsg fido) \<le> FIDO_HEADER_LEN then (fido, Invalid)
      else if mRecvMsg fido ! 0 \<noteq> cmdHeader fido then (fido\<lparr>hasError := True\<rparr>, Invalid)
      else
        let recvLen = unat (CTOI (mRecvMsg fido ! 1) (mRecvMsg fido ! 2));
            fLen = (if 17 < recvLen
                    then let fLen = (recvLen - 17) div 19; lastLen = (recvLen - 17) mod 19 in if 0 < lastLen then fLen + 1 else fLen
                    else 0)
        in if recvLen + FIDO_HEADER_LEN + fLen \<le> length (mRecvMsg fido) then (fido, Complete) else (fido, Receiving))"

definition RecvCallBack :: "fido \<Rightarrow> u8 list \<Rightarrow> fido \<times> bool" where
  "RecvCallBack fido data =
     (if data = [] then (fido, False)
      else if hasError fido then (fido, False)
      else if data ! 0 = CMD_KEEP_ALIVE then (fido, False)
      else if data ! 0 = CMD_ERROR then (fido, True)
      else if mRecvMsg fido \<noteq> [] \<and> \<not> CHECK_SEQ (data ! 0) (pkgSeq fido) then (fido\<lparr>hasError := True\<rparr>, True)
      else
        let fido = (if mRecvMsg fido \<noteq> [] then fido\<lparr>pkgSeq := data ! 0\<rparr> else fido);
            fido = fido\<lparr>mRecvMsg := mRecvMsg fido @ data\<rparr>;
            (fido, status) = checkResponse fido
        in (fido, status = Complete \<or> status = Invalid))"

section \<open>Sending\<close>

definition basicApduAddHeadAndLength :: "nat option \<Rightarrow> u8 \<Rightarrow> u8 list \<Rightarrow> u8 list outcome" where
  "basicApduAddHeadAndLength buf header msg =
     (case buf of None \<Rightarrow> Fail JUBR_ARGUMENTS_BAD
      | Some cap \<Rightarrow>
          let ulSendMsgLen = (word_of_nat (length msg) :: u32)
          in store cap ([header, ucast (drop_bit 8 (ulSendMsgLen AND 0x0000FF00)), ucast (ulSendMsgLen AND 0x000000FF)] @ msg))"

function wrap_loop :: "u8 list \<Rightarrow> nat \<Rightarrow> nat \<Rightarrow> u8 list \<Rightarrow> u8 list" where
  "wrap_loop msg sendMsgIndex fIndex cmd =
     (let cmd = cmd @ [word_of_nat fIndex];
          capyEnd = (if length msg < sendMsgIndex + FIDO_DATA_BLOCK_SIZE then length msg else sendMsgIndex + FIDO_DATA_BLOCK_SIZE);
          cmd = cmd @ take (capyEnd - sendMsgIndex) (drop sendMsgIndex msg);
          next = sendMsgIndex + FIDO_DATA_BLOCK_SIZE
      in if length msg \<le> next then cmd else wrap_loop msg next (fIndex + 1) cmd)"
  by pat_completeness auto

termination
  by (relation "measure (\<lambda>(msg, i, _, _). length msg - i)") (auto simp: fido_consts)

definition wrapFidoApdu :: "fido \<Rightarrow> nat option \<Rightarrow> u8 \<Rightarrow> u8 list \<Rightarrow> (fido \<times> u8 list) outcome" where
  "wrapFidoApdu fido buf header msg =
     (case buf of None \<Rightarrow> Fail JUBR_ARGUMENTS_BAD
      | Some cap \<Rightarrow>
          let fido = fido\<lparr>cmdHeader := header\<rparr>
          in and_then (basicApduAddHeadAndLength buf header msg) (\<lambda>recv.
               if length recv \<le> FIDO_BLOCK_SIZE then Ret (fido, recv)
               else and_then (store cap (wrap_loop msg 17 0 (take FIDO_BLOCK_SIZE recv))) (\<lambda>recv. Ret (fido, recv))))"

section \<open>Parsing\<close>

text \<open>The loop that drops the sequence numbers; \<open>None\<close> when a range is reversed.\<close>

function remove_loop :: "u8 list \<Rightarrow> nat \<Rightarrow> u8 list \<Rightarrow> u8 list option" where
  "remove_loop pkt removeIndex temp =
     (let removeIndex = removeIndex + 1;
          endIndex = (if length pkt < removeIndex + FIDO_DATA_BLOCK_SIZE then length pkt else removeIndex + FIDO_DATA_BLOCK_SIZE)
      in if endIndex < removeIndex then None
         else
           let temp = temp @ take (endIndex - removeIndex) (drop removeIndex pkt)
           in if endIndex = length pkt then Some temp else remove_loop pkt endIndex temp)"
  by pat_completeness auto

termination
  by (relation "measure (\<lambda>(pkt, i, _). length pkt - i)") (auto simp: fido_consts split: if_splits)

declare wrap_loop.simps [simp del] remove_loop.simps [simp del]

definition removePkgIndex :: "nat option \<Rightarrow> u8 list \<Rightarrow> u8 list outcome" where
  "removePkgIndex buf pkt =
     (case buf of None \<Rightarrow> Fail JUBR_ARGUMENTS_BAD
      | Some cap \<Rightarrow>
          if length pkt < FIDO_HEADER_LEN then Undefined
          else
            let recvLen = unat (CTOI (pkt ! 1) (pkt ! 2)) + FIDO_HEADER_LEN
            in if recvLen \<le> FIDO_BLOCK_SIZE then store cap pkt
               else if length pkt < FIDO_BLOCK_SIZE then Undefined
               else (case remove_loop pkt FIDO_BLOCK_SIZE (take FIDO_BLOCK_SIZE pkt) of
                       None \<Rightarrow> Undefined
                     | Some temp \<Rightarrow> if recvLen \<noteq> length temp then Fail JUBR_ARGUMENTS_BAD else store cap temp))"

text \<open>The address of the first element of an empty vector is not defined.\<close>

definition removeCmdHeadAndStateCode :: "nat option \<Rightarrow> u8 list \<Rightarrow> u8 list outcome" where
  "removeCmdHeadAndStateCode buf pkt =
     (case buf of None \<Rightarrow> Fail JUBR_ARGUMENTS_BAD
      | Some cap \<Rightarrow> if length pkt \<le> FIDO_HEADER_LEN then Undefined else store cap (drop FIDO_HEADER_LEN pkt))"

definition parseFidoApdu :: "nat option \<Rightarrow> u8 list \<Rightarrow> u8 list outcome" where
  "parseFidoApdu buf pkt =
     (case buf of None \<Rightarrow> Fail JUBR_ARGUMENTS_BAD
      | Some cap \<Rightarrow> and_then (removePkgIndex (Some 512) pkt) (removeCmdHeadAndStateCode buf))"

section \<open>The frames of a message\<close>

text \<open>
  The protocol the code implements: the continuation frames of a byte string, numbered from \<open>i\<close>, and
  the packets of a message.
\<close>

function frames :: "nat \<Rightarrow> u8 list \<Rightarrow> u8 list list" where
  "frames i bs = (if bs = [] then [] else (word_of_nat i # take 19 bs) # frames (i + 1) (drop 19 bs))"
  by pat_completeness auto

termination
  by (relation "measure (\<lambda>(i, bs). length bs)") (auto simp: neq_Nil_conv)

declare frames.simps [simp del]

lemma frames_Nil [simp]: "frames i [] = []"
  by (simp add: frames.simps)

lemma frames_step: "bs \<noteq> [] \<Longrightarrow> frames i bs = (word_of_nat i # take 19 bs) # frames (i + 1) (drop 19 bs)"
  by (subst frames.simps) simp

lemma frames_empty [simp]: "frames i bs = [] \<longleftrightarrow> bs = []"
  by (subst frames.simps) simp

definition fido_header :: "u8 \<Rightarrow> nat \<Rightarrow> u8 list" where
  "fido_header header n = [header, word_of_nat (n div 256), word_of_nat n]"

lemma length_fido_header [simp]: "length (fido_header header n) = 3" "fido_header header n \<noteq> []"
  by (simp_all add: fido_header_def)

definition fido_packets :: "u8 \<Rightarrow> u8 list \<Rightarrow> u8 list list" where
  "fido_packets header msg = (fido_header header (length msg) @ take 17 msg) # frames 0 (drop 17 msg)"

lemma length_frames: "length (frames i bs) = (length bs + 18) div 19"
proof (induction i bs rule: frames.induct)
  case (1 i bs)
  show ?case
  proof (cases "bs = []")
    case False
    then have "length (frames i bs) = Suc ((length (drop 19 bs) + 18) div 19)"
      using 1 by (simp add: frames_step)
    also have "\<dots> = (length bs + 18) div 19"
    proof (cases "length bs \<le> 19")
      case True
      then have "(length bs + 18) div 19 = 1" using False by (intro div_nat_eqI) (auto simp: Suc_le_eq)
      then show ?thesis using True by simp
    qed simp
    finally show ?thesis .
  qed simp
qed

lemma length_concat_frames: "length (concat (frames i bs)) = length bs + (length bs + 18) div 19"
proof -
  have "length (concat (frames i bs)) = length bs + length (frames i bs)"
  proof (induction i bs rule: frames.induct)
    case (1 i bs)
    then show ?case by (cases "bs = []") (simp_all add: frames_step)
  qed
  then show ?thesis by (simp add: length_frames)
qed

lemma header_bytes:
  fixes n :: nat
  defines "w \<equiv> word_of_nat n :: u32"
  assumes "n < 65536"
  shows "ucast (drop_bit 8 (w AND 0x0000FF00)) = (word_of_nat (n div 256) :: u8)" "ucast (w AND 0x000000FF) = (word_of_nat n :: u8)"
proof -
  have n: "unat w = n" unfolding w_def using assms(2) by (simp add: unsigned_of_nat take_bit_nat_eq_self)
  have *: "ucast (w AND 0x000000FF) = (ucast w :: u8)" "ucast (drop_bit 8 (w AND 0x0000FF00)) = (ucast (drop_bit 8 w) :: u8)"
    by (rule bit_word_eqI; auto simp: bit_simps bit_numeral_rec(1) numeral_eq_Suc less_Suc_eq)+
  show "ucast (w AND 0x000000FF) = (word_of_nat n :: u8)"
    unfolding *(1) using n by (metis of_nat_unat)
  have "unat (drop_bit 8 w) = drop_bit 8 (unat w)" by (rule unat_drop_bit_eq)
  also have "\<dots> = n div 256" unfolding n by (simp add: drop_bit_eq_div)
  finally show "ucast (drop_bit 8 (w AND 0x0000FF00)) = (word_of_nat (n div 256) :: u8)"
    unfolding *(2) by (metis of_nat_unat)
qed

lemma CTOI_header: "n < 65536 \<Longrightarrow> unat (CTOI (word_of_nat (n div 256)) (word_of_nat n)) = n"
proof -
  assume n: "n < 65536"
  let ?h = "word_of_nat (n div 256) :: u8" and ?l = "word_of_nat n :: u8"
  have h: "uint ?h = int (n div 256)" using n by (simp add: unsigned_of_nat take_bit_nat_eq_self)
  have l: "uint ?l = int (n mod 256)" by (simp add: unsigned_of_nat take_bit_eq_mod)
  have uh: "uint (ucast ?h * 0x100 :: u32) = uint ?h * 256" using h n
    by (subst uint_mult_nowrap) (simp_all add: uint_ucast_up)
  have "uint (CTOI ?h ?l) = uint (ucast ?l :: u32) + uint (ucast ?h * 0x100 :: u32)"
    unfolding CTOI_def by (subst or.commute, rule uint_or_add[where n = 8])
      (simp_all add: uint_ucast_up uh l uint_lt_u8)
  moreover have "int (n mod 256) + int (n div 256) * 256 = int n"
    using mod_div_mult_eq[of n 256] by (metis of_nat_add of_nat_mult of_nat_numeral)
  ultimately have "uint (CTOI ?h ?l) = int n" using uh h l by (simp add: uint_ucast_up)
  then show ?thesis by (metis nat_int unat_eq_nat_uint)
qed

lemma wrap_loop_frames: "i < length msg \<Longrightarrow> wrap_loop msg i k cmd = cmd @ concat (frames k (drop i msg))"
proof (induction msg i k cmd rule: wrap_loop.induct)
  case (1 msg i k cmd)
  let ?c = "cmd @ word_of_nat k # take 19 (drop i msg)"
  have frame: "wrap_loop msg i k cmd = (if length msg \<le> i + 19 then ?c else wrap_loop msg (i + 19) (k + 1) ?c)"
    by (subst wrap_loop.simps) (simp add: Let_def fido_consts)
  have "frames k (drop i msg) = (word_of_nat k # take 19 (drop i msg)) # frames (k + 1) (drop (i + 19) msg)"
    using 1(2) by (simp add: frames_step add.commute)
  then show ?case
    using 1 unfolding frame by (simp add: fido_consts Let_def)
qed

lemma remove_loop_frames:
  "bs \<noteq> [] \<Longrightarrow> remove_loop (pre @ concat (frames k bs)) (length pre) temp = Some (temp @ bs)"
proof (induction k bs arbitrary: pre temp rule: frames.induct)
  case (1 k bs)
  let ?p = "pre @ concat (frames k bs)" and ?f = "word_of_nat k # take 19 bs"
  have p: "?p = (pre @ ?f) @ concat (frames (k + 1) (drop 19 bs))" using 1(2) by (simp add: frames_step)
  show ?case
  proof (cases "length bs \<le> 19")
    case True
    then have "?p = pre @ ?f" using p by simp
    then show ?thesis using True 1(2)
      by (subst remove_loop.simps) (auto simp: Let_def fido_consts)
  next
    case False
    then have len: "length pre + 20 < length ?p" unfolding p by (simp add: length_concat_frames)
    have "remove_loop ?p (length pre) temp = remove_loop ?p (length (pre @ ?f)) (temp @ take 19 bs)"
      using False len by (subst remove_loop.simps) (auto simp: Let_def fido_consts p add.commute[of 20])
    also have "\<dots> = Some (temp @ bs)"
      unfolding p using 1(1)[of "pre @ ?f" "temp @ take 19 bs"] 1(2) False by (simp add: add.commute[of 20])
    finally show ?thesis .
  qed
qed

section \<open>Sending and parsing\<close>

lemma wrap_packets:
  assumes "length msg < 65536" "length (concat (fido_packets header msg)) \<le> cap"
  shows "wrapFidoApdu fido (Some cap) header msg = Ret (fido\<lparr>cmdHeader := header\<rparr>, concat (fido_packets header msg))"
proof -
  let ?n = "length msg"
  let ?h = "fido_header header ?n"
  have cap: "?n + 3 \<le> cap" using assms(2) by (simp add: fido_packets_def fido_header_def length_concat_frames)
  have add: "basicApduAddHeadAndLength (Some cap) header msg = Ret (?h @ msg)"
    using cap header_bytes[OF assms(1)] by (simp add: basicApduAddHeadAndLength_def Let_def store_def fido_header_def)
  show ?thesis
  proof (cases "?n \<le> 17")
    case True
    then show ?thesis
      by (simp add: wrapFidoApdu_def Let_def add fido_consts fido_packets_def)
  next
    case False
    then have "wrap_loop msg 17 0 (take 20 (?h @ msg)) = concat (fido_packets header msg)"
      by (simp add: wrap_loop_frames fido_packets_def)
    then show ?thesis
      using False assms(2) by (simp add: wrapFidoApdu_def Let_def add fido_consts store_def)
  qed
qed

lemma wrap_overflow:
  assumes "length msg < 65536 \<or> cap < length msg" "cap < length (concat (fido_packets header msg))" "20 \<le> cap"
  shows "wrapFidoApdu fido (Some cap) header msg = Undefined"
proof (cases "length msg + 3 \<le> cap")
  case False
  then show ?thesis by (simp add: wrapFidoApdu_def basicApduAddHeadAndLength_def Let_def store_def)
next
  case True
  then have n: "length msg < 65536" using assms(1) by simp
  have big: "\<not> length msg \<le> 17"
  proof
    assume "length msg \<le> 17"
    then have "length (concat (fido_packets header msg)) = length msg + 3" by (simp add: fido_packets_def)
    then show False using True assms(2) by simp
  qed
  have add: "basicApduAddHeadAndLength (Some cap) header msg = Ret (fido_header header (length msg) @ msg)"
    using True header_bytes[OF n] by (simp add: basicApduAddHeadAndLength_def Let_def store_def fido_header_def)
  have "wrap_loop msg 17 0 (take 20 (fido_header header (length msg) @ msg)) = concat (fido_packets header msg)"
    using big by (simp add: wrap_loop_frames fido_packets_def)
  then show ?thesis using big assms(2) by (simp add: wrapFidoApdu_def Let_def add fido_consts store_def)
qed

lemma packets_nth:
  "concat (fido_packets header msg) ! 0 = header"
  "concat (fido_packets header msg) ! 1 = word_of_nat (length msg div 256)"
  "concat (fido_packets header msg) ! 2 = word_of_nat (length msg)"
  by (simp_all add: fido_packets_def fido_header_def)

lemma length_packets: "length (concat (fido_packets header msg)) = length msg + 3 + (length msg - 17 + 18) div 19"
  by (simp add: fido_packets_def fido_header_def length_concat_frames)

lemma remove_packets:
  assumes "length msg < 65536"
  shows "removePkgIndex (Some cap) (concat (fido_packets header msg)) = store cap (fido_header header (length msg) @ msg)"
proof -
  let ?p = "concat (fido_packets header msg)" and ?h = "fido_header header (length msg)"
  have recv: "unat (CTOI (?p ! 1) (?p ! 2)) = length msg"
    unfolding packets_nth by (rule CTOI_header[OF assms])
  have h: "length ?h = 3" by (simp add: fido_header_def)
  show ?thesis
  proof (cases "length msg \<le> 17")
    case True
    then have "?p = ?h @ msg" by (simp add: fido_packets_def)
    then show ?thesis using True recv by (simp add: removePkgIndex_def fido_consts h)
  next
    case False
    then have p: "?p = (?h @ take 17 msg) @ concat (frames 0 (drop 17 msg))" "length (?h @ take 17 msg) = 20" "drop 17 msg \<noteq> []"
      using h by (simp_all add: fido_packets_def)
    have "remove_loop ?p 20 (take 20 ?p) = Some (take 20 ?p @ drop 17 msg)"
      using remove_loop_frames[OF p(3), of "?h @ take 17 msg" 0] p(2) unfolding p(1) by simp
    moreover have "take 20 ?p @ drop 17 msg = ?h @ msg" unfolding p(1) using p(2) h by simp
    moreover have "20 \<le> length ?p" using p(2) unfolding p(1) by simp
    ultimately show ?thesis using False recv h by (simp add: removePkgIndex_def fido_consts)
  qed
qed

lemma parse_packets:
  assumes "length msg < 65536" "msg \<noteq> []"
  shows "parseFidoApdu (Some cap) (concat (fido_packets header msg))
    = (if length msg \<le> 509 \<and> length msg \<le> cap then Ret msg else Undefined)"
  using assms by (simp add: parseFidoApdu_def remove_packets store_def removeCmdHeadAndStateCode_def fido_consts fido_header_def)

text \<open>Parsing what was accepted as complete stays within the message and, up to 512 bytes, within the buffer.\<close>

lemma remove_loop_defined: "i < length pkt \<Longrightarrow> \<exists>t. remove_loop pkt i temp = Some t \<and> length t \<le> length temp + (length pkt - i)"
proof (induction pkt i temp rule: remove_loop.induct)
  case (1 pkt i temp)
  show ?case
  proof (cases "length pkt \<le> i + 20")
    case True
    then show ?thesis using 1(2) by (subst remove_loop.simps) (auto simp: Let_def fido_consts)
  next
    case False
    then show ?thesis using 1 by (subst remove_loop.simps) (fastforce simp: Let_def fido_consts)
  qed
qed

lemma complete_parse_bounds:
  assumes "snd (checkResponse fido) = Complete"
  shows "3 < length (mRecvMsg fido)"
    and "\<exists>e. removePkgIndex (Some c) (mRecvMsg fido) = Fail e
       \<or> (\<exists>t. removePkgIndex (Some c) (mRecvMsg fido) = store c t \<and> 3 < length t \<and> length t \<le> length (mRecvMsg fido))"
proof -
  let ?p = "mRecvMsg fido" and ?r = "unat (CTOI (mRecvMsg fido ! 1) (mRecvMsg fido ! 2))"
  have c: "3 < length ?p" "?r + 3 + (if 17 < ?r then 1 else 0) \<le> length ?p"
    using assms by (auto simp: checkResponse_def fido_consts Let_def split: if_splits)
  then show "3 < length ?p" by simp
  show "\<exists>e. removePkgIndex (Some c) ?p = Fail e
       \<or> (\<exists>t. removePkgIndex (Some c) ?p = store c t \<and> 3 < length t \<and> length t \<le> length ?p)"
  proof (cases "?r + 3 \<le> 20")
    case True
    then show ?thesis using c by (auto simp: removePkgIndex_def fido_consts)
  next
    case False
    then have "20 < length ?p" using c(2) by simp
    moreover obtain t where "remove_loop ?p 20 (take 20 ?p) = Some t" "length t \<le> length ?p"
      using remove_loop_defined[of 20 ?p "take 20 ?p"] \<open>20 < length ?p\<close> by auto
    ultimately show ?thesis using False by (auto simp: removePkgIndex_def fido_consts Let_def)
  qed
qed

text \<open>Both stages with buffers of \<open>c\<close> and \<open>cap\<close> bytes.\<close>

lemma complete_stages_defined:
  assumes "snd (checkResponse fido) = Complete" "length (mRecvMsg fido) \<le> c" "c \<le> cap + 3"
  shows "and_then (removePkgIndex (Some c) (mRecvMsg fido)) (removeCmdHeadAndStateCode (Some cap)) \<noteq> Undefined"
  using complete_parse_bounds(2)[OF assms(1), of c] assms(2,3)
  by (auto simp: store_def removeCmdHeadAndStateCode_def fido_consts split: if_splits)

lemma complete_parse_defined:
  assumes "snd (checkResponse fido) = Complete" "length (mRecvMsg fido) \<le> 512" "509 \<le> cap"
  shows "parseFidoApdu (Some cap) (mRecvMsg fido) \<noteq> Undefined"
  using complete_stages_defined[OF assms(1,2)] assms(3) by (simp add: parseFidoApdu_def)

section \<open>Receiving the packets of a message\<close>

text \<open>The callback on a sequence of packets: the object afterwards, and which packets woke the sender.\<close>

fun receive :: "fido \<Rightarrow> u8 list list \<Rightarrow> fido \<times> bool list" where
  "receive fido [] = (fido, [])"
| "receive fido (p # ps) = (let (fido, w) = RecvCallBack fido p; (fido, ws) = receive fido ps in (fido, w # ws))"

lemma receive_Cons: "RecvCallBack fido p = (f, w) \<Longrightarrow> receive f ps = (g, ws) \<Longrightarrow> receive fido (p # ps) = (g, w # ws)"
  by simp

lemma replicate_woke: "0 < n \<Longrightarrow> False # replicate (n - 1) False @ [True] = replicate n False @ [True]"
  by (cases n) simp_all

definition data_packet :: "u8 list \<Rightarrow> bool" where
  "data_packet p \<longleftrightarrow> p \<noteq> [] \<and> p ! 0 \<noteq> CMD_KEEP_ALIVE"

lemma length_receive [simp]: "length (snd (receive fido ps)) = length ps"
  by (induction ps arbitrary: fido) (simp_all add: split_def Let_def)

lemma not_data_ignored: "\<not> data_packet p \<Longrightarrow> RecvCallBack fido p = (fido, False)"
  by (auto simp: RecvCallBack_def data_packet_def)

lemma receive_data:
  "fst (receive fido ps) = fst (receive fido (filter data_packet ps))"
  "map snd (filter (data_packet \<circ> fst) (zip ps (snd (receive fido ps)))) = snd (receive fido (filter data_packet ps))"
  by (induction ps arbitrary: fido) (simp_all add: split_def Let_def not_data_ignored)

lemma receive_append:
  "snd (receive fido (ps @ qs)) = snd (receive fido ps) @ snd (receive (fst (receive fido ps)) qs)"
  "fst (receive fido (ps @ qs)) = fst (receive (fst (receive fido ps)) qs)"
  by (induction ps arbitrary: fido) (simp_all add: split_def Let_def)

lemma receive_others: "filter data_packet ps = [] \<Longrightarrow> receive fido ps = (fido, replicate (length ps) False)"
  by (induction ps) (simp_all add: not_data_ignored split: if_splits)

lemma receive_silent:
  "set (snd (receive fido (filter data_packet ps))) \<subseteq> {False} \<Longrightarrow> set (snd (receive fido ps)) \<subseteq> {False}"
  by (induction ps arbitrary: fido) (simp_all add: split_def Let_def not_data_ignored split: if_splits)

text \<open>If of the data packets exactly the last wakes the sender, then nothing else does.\<close>

lemma receive_wakes:
  assumes "snd (receive fido (filter data_packet ps)) = replicate n False @ [True]"
  shows "\<exists>us p vs. ps = us @ p # vs \<and> data_packet p \<and> filter data_packet vs = []
    \<and> snd (receive fido ps) = replicate (length us) False @ True # replicate (length vs) False"
proof -
  have "\<exists>p\<in>set ps. data_packet p" using assms by (cases "filter data_packet ps = []") (auto simp: filter_empty_conv)
  then obtain us p vs where ps: "ps = us @ p # vs" "data_packet p" "\<forall>q\<in>set vs. \<not> data_packet q"
    by (rule split_list_last_propE)
  then have vs: "filter data_packet vs = []" by (simp add: filter_empty_conv)
  let ?f = "fst (receive fido (filter data_packet us))"
  have "snd (receive fido (filter data_packet us)) @ [snd (RecvCallBack ?f p)] = replicate n False @ [True]"
    using assms ps(2) vs by (simp add: ps(1) receive_append split_def Let_def)
  then have us: "snd (receive fido (filter data_packet us)) = replicate n False" and p: "snd (RecvCallBack ?f p)" by simp_all
  have "set (snd (receive fido us)) \<subseteq> {False}" by (rule receive_silent) (simp add: us set_replicate_conv_if)
  then have "snd (receive fido us) = replicate (length us) False" by (intro replicate_eqI) auto
  moreover have "snd (RecvCallBack (fst (receive fido us)) p)" using p by (simp only: receive_data(1)[of fido us])
  ultimately have "snd (receive fido ps) = replicate (length us) False @ True # replicate (length vs) False"
    by (simp add: ps(1) receive_append receive_others[OF vs] split_def Let_def)
  then show ?thesis using ps(1,2) vs by blast
qed

text \<open>The bytes of all packets of a message whose first bytes are \<open>m\<close>.\<close>

definition needed :: "u8 list \<Rightarrow> nat" where
  "needed m = (let n = unat (CTOI (m ! 1) (m ! 2)) in n + 3 + (n - 17 + 18) div 19)"

lemma ceil_19: "(if 0 < k mod 19 then k div 19 + 1 else k div 19) = (k + 18) div (19 :: nat)"
proof -
  obtain q r where k: "k = 19 * q + r" "r < 19" using mod_less_divisor[of 19 k] by (metis mult_div_mod_eq zero_less_numeral)
  have "(k + 18) div 19 = (if 0 < r then q + 1 else q)"
    using k by (intro div_nat_eqI) auto
  then show ?thesis using k by simp
qed

lemma checkResponse_needed:
  assumes "3 < length (mRecvMsg fido)" "mRecvMsg fido ! 0 = cmdHeader fido"
  shows "checkResponse fido = (fido, if needed (mRecvMsg fido) \<le> length (mRecvMsg fido) then Complete else Receiving)"
proof -
  have fLen: "(if 17 < n then if 0 < (n - 17) mod 19 then (n - 17) div 19 + 1 else (n - 17) div 19 else 0) = (n - 17 + 18) div 19" for n :: nat
  proof (cases "17 < n")
    case True
    show ?thesis unfolding if_P[OF True] by (rule ceil_19)
  next
    case False
    then have "n - 17 = 0" by simp
    then show ?thesis using False by simp
  qed
  moreover have "mRecvMsg fido \<noteq> []" using assms(1) by auto
  ultimately show ?thesis
    using assms unfolding checkResponse_def needed_def Let_def fLen by (simp add: fido_consts)
qed

lemma RecvCallBack_next:
  assumes "data_packet p" "p ! 0 \<noteq> CMD_ERROR" "CHECK_SEQ (p ! 0) (pkgSeq fido)"
    and "\<not> hasError fido" "3 < length (mRecvMsg fido)" "mRecvMsg fido ! 0 = cmdHeader fido"
  shows "RecvCallBack fido p = (fido\<lparr>pkgSeq := p ! 0, mRecvMsg := mRecvMsg fido @ p\<rparr>, needed (mRecvMsg fido) \<le> length (mRecvMsg fido) + length p)"
proof -
  let ?f = "fido\<lparr>pkgSeq := p ! 0, mRecvMsg := mRecvMsg fido @ p\<rparr>"
  have ne: "mRecvMsg fido \<noteq> []" using assms(5) by auto
  have "needed (mRecvMsg ?f) = needed (mRecvMsg fido)" using assms(5) by (simp add: needed_def nth_append)
  moreover have "3 < length (mRecvMsg ?f)" "mRecvMsg ?f ! 0 = cmdHeader ?f" using assms(5,6) ne by (simp_all add: nth_append)
  ultimately have "checkResponse ?f = (?f, if needed (mRecvMsg fido) \<le> length (mRecvMsg fido) + length p then Complete else Receiving)"
    by (subst checkResponse_needed) simp_all
  then show ?thesis using assms(1-4) ne by (simp add: RecvCallBack_def data_packet_def Let_def)
qed

lemma frame_number:
  assumes "i \<le> 127"
  shows "CHECK_SEQ (word_of_nat i) (word_of_nat (i - 1))" "word_of_nat i \<noteq> CMD_KEEP_ALIVE" "word_of_nat i \<noteq> CMD_ERROR"
proof -
  let ?w = "word_of_nat i :: u8"
  have u: "unat ?w = i" "uint ?w = int i" "uint (word_of_nat (i - 1) :: u8) = int (i - 1)"
    using assms by (simp_all add: unsigned_of_nat take_bit_nat_eq_self)
  have le: "?w \<le> 0x7F" using u(1) assms by (simp add: word_le_nat_alt)
  then show "?w \<noteq> CMD_KEEP_ALIVE" "?w \<noteq> CMD_ERROR" by (auto simp: fido_consts)
  show "CHECK_SEQ ?w (word_of_nat (i - 1))"
  proof (cases "i = 0")
    case False
    then have "0 < ?w" using u(1) by (metis unat_0 word_gt_0)
    then show ?thesis using u(2,3) False le by (simp add: CHECK_SEQ_def of_nat_diff)
  qed (simp add: CHECK_SEQ_def)
qed

lemma receive_frames:
  assumes "bs \<noteq> []" "\<not> hasError fido" "3 < length (mRecvMsg fido)" "mRecvMsg fido ! 0 = cmdHeader fido"
    and "pkgSeq fido = word_of_nat (i - 1)" "i + length (frames i bs) \<le> 128"
    and "needed (mRecvMsg fido) = length (mRecvMsg fido) + length (concat (frames i bs))"
  shows "receive fido (frames i bs)
    = (fido\<lparr>pkgSeq := word_of_nat (i + length (frames i bs) - 1), mRecvMsg := mRecvMsg fido @ concat (frames i bs)\<rparr>,
       replicate (length (frames i bs) - 1) False @ [True])"
  using assms
proof (induction i bs arbitrary: fido rule: frames.induct)
  case (1 i bs)
  let ?p = "word_of_nat i # take 19 bs" and ?r = "drop 19 bs"
  have fr: "frames i bs = ?p # frames (i + 1) ?r" using 1(2) by (simp add: frames_step)
  have i: "i \<le> 127" using 1(7) fr by simp
  note num = frame_number[OF i]
  let ?f = "fido\<lparr>pkgSeq := word_of_nat i, mRecvMsg := mRecvMsg fido @ ?p\<rparr>"
  have "length (concat (frames (i + 1) ?r)) = 0 \<longleftrightarrow> ?r = []" unfolding length_concat_frames by auto
  moreover have "needed (mRecvMsg fido) = length (mRecvMsg fido) + length ?p + length (concat (frames (i + 1) ?r))"
    using 1(8) fr by simp
  ultimately have last: "needed (mRecvMsg fido) \<le> length (mRecvMsg fido) + length ?p \<longleftrightarrow> ?r = []" by linarith
  have cb: "RecvCallBack fido ?p = (?f, ?r = [])"
    using RecvCallBack_next[of ?p fido] num 1(3-6) unfolding last by (simp add: data_packet_def)
  show ?case
  proof (cases "?r = []")
    case True
    then show ?thesis unfolding fr using cb by simp
  next
    case False
    have "needed (mRecvMsg ?f) = needed (mRecvMsg fido)" using 1(4) by (simp add: needed_def nth_append)
    then have n: "needed (mRecvMsg ?f) = length (mRecvMsg ?f) + length (concat (frames (i + 1) ?r))" using 1(8) fr by simp
    have rec: "receive ?f (frames (i + 1) ?r)
      = (?f\<lparr>pkgSeq := word_of_nat (i + 1 + length (frames (i + 1) ?r) - 1), mRecvMsg := mRecvMsg ?f @ concat (frames (i + 1) ?r)\<rparr>,
         replicate (length (frames (i + 1) ?r) - 1) False @ [True])"
      by (rule 1(1)) (use 1 False fr n in \<open>auto simp: nth_append\<close>)
    have "0 < length (frames (i + 1) ?r)" using False by simp
    from replicate_woke[OF this] show ?thesis
      unfolding fr using receive_Cons[OF cb rec] False by simp
  qed
qed

lemma receive_packets:
  assumes "msg \<noteq> []" "length msg \<le> 17 + 19 * 128"
  shows "receive (fido_clear fido\<lparr>cmdHeader := CMD_MSG\<rparr>) (fido_packets CMD_MSG msg)
    = (fido_clear fido\<lparr>cmdHeader := CMD_MSG, pkgSeq := word_of_nat ((length msg - 17 + 18) div 19 - 1),
         mRecvMsg := concat (fido_packets CMD_MSG msg)\<rparr>,
       replicate (length (fido_packets CMD_MSG msg) - 1) False @ [True])"
proof -
  let ?f = "fido_clear fido\<lparr>cmdHeader := CMD_MSG\<rparr>" and ?h = "fido_header CMD_MSG (length msg)"
  let ?p = "?h @ take 17 msg"
  let ?g = "?f\<lparr>mRecvMsg := ?p\<rparr>"
  have h: "?h ! 0 = CMD_MSG" "length ?h = 3" by (simp_all add: fido_header_def)
  have p: "?p ! 0 = CMD_MSG" "3 < length ?p" "?p \<noteq> []" using h assms(1) by (auto simp: nth_append)
  have R: "unat (CTOI (?p ! 1) (?p ! 2)) = length msg"
    using CTOI_header[of "length msg"] assms(2) by (simp add: fido_header_def)
  have need: "needed ?p = length msg + 3 + (length msg - 17 + 18) div 19" by (simp only: needed_def R Let_def)
  have chk: "checkResponse ?g = (?g, if needed ?p \<le> length ?p then Complete else Receiving)"
    using checkResponse_needed[of ?g] p by simp
  have first: "RecvCallBack ?f ?p = (?g, needed ?p \<le> length ?p)"
    using p chk by (simp add: RecvCallBack_def fido_clear_def Let_def) (simp add: fido_consts)
  show ?thesis
  proof (cases "length msg \<le> 17")
    case True
    then show ?thesis using first need h by (simp add: fido_packets_def fido_clear_def)
  next
    case False
    have len: "length (frames 0 (drop 17 msg)) = (length msg - 17 + 18) div 19" by (simp add: length_frames)
    have rec: "receive ?g (frames 0 (drop 17 msg))
      = (?g\<lparr>pkgSeq := word_of_nat (0 + length (frames 0 (drop 17 msg)) - 1), mRecvMsg := mRecvMsg ?g @ concat (frames 0 (drop 17 msg))\<rparr>,
         replicate (length (frames 0 (drop 17 msg)) - 1) False @ [True])"
      by (rule receive_frames) (use False p need h assms len in \<open>auto simp: length_concat_frames fido_clear_def\<close>)
    have "\<not> needed ?p \<le> length ?p" using False need h by simp
    moreover have "0 < length (frames 0 (drop 17 msg))" using False by simp
    ultimately show ?thesis
      using receive_Cons[OF first rec] replicate_woke[of "length (frames 0 (drop 17 msg))"] len
      by (simp add: fido_packets_def fido_clear_def)
  qed
qed

lemma packets_complete:
  assumes "msg \<noteq> []" "length msg < 65536" "mRecvMsg fido = concat (fido_packets header msg)" "cmdHeader fido = header"
  shows "checkResponse fido = (fido, Complete)"
proof -
  have "unat (CTOI (mRecvMsg fido ! 1) (mRecvMsg fido ! 2)) = length msg"
    unfolding assms(3) packets_nth by (rule CTOI_header[OF assms(2)])
  then have "needed (mRecvMsg fido) = length (mRecvMsg fido)" by (simp only: needed_def Let_def assms(3) length_packets)
  moreover have "3 < length (mRecvMsg fido)" "mRecvMsg fido ! 0 = cmdHeader fido"
    using assms by (simp_all add: length_packets packets_nth)
  ultimately show ?thesis by (simp add: checkResponse_needed)
qed

lemma frames_data: "i + length (frames i bs) \<le> 128 \<Longrightarrow> p \<in> set (frames i bs) \<Longrightarrow> data_packet p"
proof (induction i bs rule: frames.induct)
  case (1 i bs)
  show ?case
  proof (cases "bs = []")
    case False
    then have "data_packet (word_of_nat i # take 19 bs)" using 1(2) frame_number[of i] by (simp add: frames_step data_packet_def)
    then show ?thesis using 1 False by (auto simp: frames_step[OF False])
  qed (use 1 in simp)
qed

lemma packets_data:
  assumes "length msg \<le> 17 + 19 * 128" "p \<in> set (fido_packets CMD_MSG msg)"
  shows "data_packet p"
proof -
  have "length (frames 0 (drop 17 msg)) \<le> 128" using assms(1) by (simp add: length_frames less_Suc_eq_le[symmetric] less_mult_imp_div_less)
  then show ?thesis using assms(2) frames_data[of 0 "drop 17 msg" p]
    by (auto simp: fido_packets_def data_packet_def fido_header_def fido_consts)
qed

section \<open>What any sender can make the receiver accept\<close>

text \<open>
  The states reachable from a cleared object with the packets appended so far, under arbitrary
  deliveries.
\<close>

inductive accepted :: "u8 \<Rightarrow> fido \<Rightarrow> u8 list list \<Rightarrow> bool" for header where
  start: "accepted header (fido_clear fido\<lparr>cmdHeader := header\<rparr>) []"
| ignored: "accepted header fido ps \<Longrightarrow> RecvCallBack fido p = (fido', w) \<Longrightarrow> mRecvMsg fido' = mRecvMsg fido \<Longrightarrow> accepted header fido' ps"
| appended: "accepted header fido ps \<Longrightarrow> RecvCallBack fido p = (fido', w) \<Longrightarrow> mRecvMsg fido' \<noteq> mRecvMsg fido \<Longrightarrow> accepted header fido' (ps @ [p])"

text \<open>The numbers of the packets after the first: zeros, then one by one.\<close>

definition in_sequence :: "u8 list \<Rightarrow> u8 \<Rightarrow> bool" where
  "in_sequence xs seq \<longleftrightarrow> (\<exists>k n. xs = replicate k 0 @ map word_of_nat [1..<Suc n] \<and> n \<le> 127 \<and> seq = word_of_nat n)"

lemma in_sequence_start: "in_sequence [] 0"
  unfolding in_sequence_def by (intro exI[of _ 0]) simp

lemma CHECK_SEQ_in_sequence:
  assumes "in_sequence xs seq" "CHECK_SEQ x seq"
  shows "in_sequence (xs @ [x]) x"
proof -
  obtain k n where xs: "xs = replicate k 0 @ map word_of_nat [1..<Suc n]" "n \<le> 127" "seq = word_of_nat n"
    using assms(1) by (auto simp: in_sequence_def)
  have u: "uint seq = int n" using xs(2,3) by (simp add: unsigned_of_nat take_bit_nat_eq_self)
  show ?thesis
  proof (cases "x = 0 \<and> x = seq")
    case True
    then have "seq = 0" by auto
    then have "n = 0" using u by simp
    then have "xs @ [x] = replicate (Suc k) 0 @ map word_of_nat [1..<Suc 0]" using True xs by (simp add: replicate_append_same)
    then show ?thesis unfolding in_sequence_def using True by (intro exI[of _ "Suc k"] exI[of _ 0]) simp
  next
    case False
    then have x: "uint x = int (Suc n)" "x \<le> 0x7F" using assms(2) u by (auto simp: CHECK_SEQ_def)
    then have "x = word_of_nat (Suc n)" by (metis of_int_of_nat_eq word_of_int_uint)
    moreover have "uint x \<le> 127" using x(2) by (simp add: word_le_def)
    ultimately show ?thesis unfolding in_sequence_def using x xs by (intro exI[of _ k] exI[of _ "Suc n"]) simp
  qed
qed

lemma checkResponse_fields:
  "mRecvMsg (fst (checkResponse fido)) = mRecvMsg fido" "pkgSeq (fst (checkResponse fido)) = pkgSeq fido"
  by (simp_all add: checkResponse_def Let_def)

text \<open>Every callback either keeps the message or appends a packet that passed the checks.\<close>

lemma RecvCallBack_cases:
  assumes "RecvCallBack fido p = (fido', w)"
  obtains "mRecvMsg fido' = mRecvMsg fido" "pkgSeq fido' = pkgSeq fido"
  | "mRecvMsg fido = []" "p \<noteq> []" "mRecvMsg fido' = p" "pkgSeq fido' = pkgSeq fido"
  | "mRecvMsg fido \<noteq> []" "p \<noteq> []" "CHECK_SEQ (p ! 0) (pkgSeq fido)" "mRecvMsg fido' = mRecvMsg fido @ p" "pkgSeq fido' = p ! 0"
proof -
  consider (skip) "p = [] \<or> hasError fido \<or> p ! 0 = CMD_KEEP_ALIVE \<or> p ! 0 = CMD_ERROR"
    | (bad) "\<not> (p = [] \<or> hasError fido \<or> p ! 0 = CMD_KEEP_ALIVE \<or> p ! 0 = CMD_ERROR)" "mRecvMsg fido \<noteq> [] \<and> \<not> CHECK_SEQ (p ! 0) (pkgSeq fido)"
    | (first) "\<not> (p = [] \<or> hasError fido \<or> p ! 0 = CMD_KEEP_ALIVE \<or> p ! 0 = CMD_ERROR)" "mRecvMsg fido = []"
    | (next_one) "\<not> (p = [] \<or> hasError fido \<or> p ! 0 = CMD_KEEP_ALIVE \<or> p ! 0 = CMD_ERROR)" "mRecvMsg fido \<noteq> []" "CHECK_SEQ (p ! 0) (pkgSeq fido)"
    by blast
  then show ?thesis
  proof cases
    case skip
    have "fido' = fido" using assms skip unfolding RecvCallBack_def by (auto split: if_splits)
    then show ?thesis using that(1) by simp
  next
    case bad
    then have "fido' = fido\<lparr>hasError := True\<rparr>" using assms by (simp add: RecvCallBack_def)
    then show ?thesis using that(1) by simp
  next
    case first
    then have "fido' = fst (checkResponse (fido\<lparr>mRecvMsg := p\<rparr>))" using assms by (auto simp: RecvCallBack_def split_def Let_def)
    then show ?thesis using that(2) first by (simp add: checkResponse_fields)
  next
    case next_one
    then have "fido' = fst (checkResponse (fido\<lparr>pkgSeq := p ! 0, mRecvMsg := mRecvMsg fido @ p\<rparr>))"
      using assms by (auto simp: RecvCallBack_def split_def Let_def)
    then show ?thesis using that(3) next_one by (simp add: checkResponse_fields)
  qed
qed

lemma accepted_invariant:
  "accepted header fido ps \<Longrightarrow> mRecvMsg fido = concat ps \<and> [] \<notin> set ps
     \<and> (ps = [] \<longrightarrow> pkgSeq fido = 0) \<and> in_sequence (map (\<lambda>p. p ! 0) (tl ps)) (pkgSeq fido)"
proof (induction rule: accepted.induct)
  case (start fido)
  then show ?case using in_sequence_start by (simp add: fido_clear_def)
next
  case (ignored fido ps p fido' w)
  from ignored.hyps(2) show ?case
    by (cases rule: RecvCallBack_cases) (use ignored in auto)
next
  case (appended fido ps p fido' w)
  have empty: "mRecvMsg fido = [] \<longleftrightarrow> ps = []" using appended.IH by (cases ps) auto
  from appended.hyps(2) show ?case
  proof (cases rule: RecvCallBack_cases)
    case 3
    then have "in_sequence (map (\<lambda>p. p ! 0) (tl ps) @ [p ! 0]) (p ! 0)"
      using appended.IH empty CHECK_SEQ_in_sequence by metis
    then show ?thesis using 3 appended.IH empty by (cases ps) auto
  qed (use appended in_sequence_start empty in auto)
qed

section \<open>Exactly these sequences are collected\<close>

fun checked :: "u8 \<Rightarrow> u8 list \<Rightarrow> bool" where
  "checked seq [] \<longleftrightarrow> True"
| "checked seq (x # xs) \<longleftrightarrow> CHECK_SEQ x seq \<and> checked x xs"

lemma receive_error: "hasError fido \<Longrightarrow> fst (receive fido ps) = fido"
  by (induction ps) (simp_all add: RecvCallBack_def split_def)

lemma receive_checked:
  assumes "\<not> hasError fido" "3 < length (mRecvMsg fido)" "mRecvMsg fido ! 0 = cmdHeader fido"
    and "\<forall>q\<in>set qs. data_packet q \<and> q ! 0 \<noteq> CMD_ERROR"
  shows "if checked (pkgSeq fido) (map (\<lambda>q. q ! 0) qs)
    then \<not> hasError (fst (receive fido qs)) \<and> mRecvMsg (fst (receive fido qs)) = mRecvMsg fido @ concat qs
    else hasError (fst (receive fido qs))"
  using assms
proof (induction qs arbitrary: fido)
  case (Cons q qs)
  have q: "data_packet q" "q ! 0 \<noteq> CMD_ERROR" and ne: "mRecvMsg fido \<noteq> []" using Cons.prems by auto
  show ?case
  proof (cases "CHECK_SEQ (q ! 0) (pkgSeq fido)")
    case True
    let ?f = "fido\<lparr>pkgSeq := q ! 0, mRecvMsg := mRecvMsg fido @ q\<rparr>"
    have "if checked (pkgSeq ?f) (map (\<lambda>q. q ! 0) qs)
      then \<not> hasError (fst (receive ?f qs)) \<and> mRecvMsg (fst (receive ?f qs)) = mRecvMsg ?f @ concat qs
      else hasError (fst (receive ?f qs))"
      by (rule Cons.IH) (use Cons.prems ne in \<open>simp_all add: nth_append\<close>)
    then show ?thesis
      using True by (simp add: RecvCallBack_next[OF q True Cons.prems(1-3)] split_def Let_def split: if_splits)
  next
    case False
    have "RecvCallBack fido q = (fido\<lparr>hasError := True\<rparr>, True)"
      using q ne False Cons.prems(1) by (simp add: RecvCallBack_def data_packet_def)
    then show ?thesis using False by (simp add: receive_error split_def Let_def)
  qed
qed simp

lemma checked_append: "checked seq (xs @ ys) \<longleftrightarrow> checked seq xs \<and> checked (last (seq # xs)) ys"
  by (induction xs arbitrary: seq) auto

lemma in_sequence_checked: "in_sequence xs seq \<Longrightarrow> checked seq ys \<Longrightarrow> \<exists>s. in_sequence (xs @ ys) s"
proof (induction ys arbitrary: xs seq)
  case (Cons y ys)
  then have "in_sequence (xs @ [y]) y" by (intro CHECK_SEQ_in_sequence[of xs seq]) simp_all
  from Cons.IH[OF this] Cons.prems(2) show ?case by simp
qed auto

lemma checked_numbers: "n \<le> 127 \<Longrightarrow> checked 0 (map word_of_nat [1..<Suc n]) \<and> last (0 # map word_of_nat [1..<Suc n]) = (word_of_nat n :: u8)"
proof (induction n)
  case (Suc n)
  then show ?case using frame_number(1)[of "Suc n"] by (simp add: checked_append)
qed simp

lemma checked_iff_sequence:
  "checked 0 xs \<longleftrightarrow> (\<exists>k n. n \<le> 127 \<and> xs = replicate k 0 @ map word_of_nat [1..<Suc n])"
proof
  assume "checked 0 xs"
  from in_sequence_checked[OF in_sequence_start this] show "\<exists>k n. n \<le> 127 \<and> xs = replicate k 0 @ map word_of_nat [1..<Suc n]"
    unfolding in_sequence_def append_Nil by blast
next
  assume "\<exists>k n. n \<le> 127 \<and> xs = replicate k 0 @ map word_of_nat [1..<Suc n]"
  then obtain k n where xs: "n \<le> 127" "xs = replicate k 0 @ map word_of_nat [1..<Suc n]" by blast
  have "checked 0 (replicate k 0) \<and> last (0 # replicate k (0 :: u8)) = 0" by (induction k) (simp_all add: CHECK_SEQ_def)
  then show "checked 0 xs" unfolding xs(2) checked_append using checked_numbers[OF xs(1)] by simp
qed

lemma receive_sequence:
  fixes fido :: fido
  assumes "header \<notin> {CMD_KEEP_ALIVE, CMD_ERROR}" "3 < length p" "p ! 0 = header"
    and "\<forall>q\<in>set qs. data_packet q \<and> q ! 0 \<noteq> CMD_ERROR"
  defines "f \<equiv> fst (receive (fido_clear fido\<lparr>cmdHeader := header\<rparr>) (p # qs))"
  shows "(\<not> hasError f \<and> mRecvMsg f = concat (p # qs))
    \<longleftrightarrow> (\<exists>k n. n \<le> 127 \<and> map (\<lambda>q. q ! 0) qs = replicate k 0 @ map word_of_nat [1..<Suc n])"
    "\<not> hasError f \<longrightarrow> mRecvMsg f = concat (p # qs)"
proof -
  let ?f = "fido_clear fido\<lparr>cmdHeader := header\<rparr>" and ?g = "fido_clear fido\<lparr>cmdHeader := header, mRecvMsg := p\<rparr>"
  have ne: "p \<noteq> []" using assms(2) by auto
  have "fst (checkResponse ?g) = ?g"
    using checkResponse_needed[of ?g] assms(2,3) by simp
  then have "fst (RecvCallBack ?f p) = ?g"
    using assms(1,3) ne by (simp add: RecvCallBack_def fido_clear_def split_def Let_def)
  then have f: "f = fst (receive ?g qs)" unfolding f_def by (simp add: split_def Let_def)
  have "if checked (pkgSeq ?g) (map (\<lambda>q. q ! 0) qs)
    then \<not> hasError (fst (receive ?g qs)) \<and> mRecvMsg (fst (receive ?g qs)) = mRecvMsg ?g @ concat qs
    else hasError (fst (receive ?g qs))"
    by (rule receive_checked) (use assms(2-4) in \<open>simp_all add: fido_clear_def\<close>)
  moreover have "pkgSeq ?g = 0" "mRecvMsg ?g = p" by (simp_all add: fido_clear_def)
  ultimately show "(\<not> hasError f \<and> mRecvMsg f = concat (p # qs))
    \<longleftrightarrow> (\<exists>k n. n \<le> 127 \<and> map (\<lambda>q. q ! 0) qs = replicate k 0 @ map word_of_nat [1..<Suc n])"
    "\<not> hasError f \<longrightarrow> mRecvMsg f = concat (p # qs)"
    unfolding f checked_iff_sequence[symmetric] by (simp_all split: if_splits)
qed

end
