(* ===== verification/Ble.thy ===== *)
theory Ble
  imports Fido
begin

text \<open>
  One exchange over Bluetooth, \<open>SendData\<close> of \<open>src/device/JubiterBLEDevice.cpp\<close>. The vendor's
  transport library and the scheduler are arguments: whether the device is connected before and after
  the wait, the result of sending, the packets the library hands to the callback while the sender
  waits, and whether the wait timed out.
\<close>

text \<open>The library's codes arrive as an \<open>int\<close> and are compared as an \<open>unsigned long\<close> of 64 bits.\<close>

definition MatchErrorCode :: "u64 \<Rightarrow> JUB_RV" where
  "MatchErrorCode error =
     (if error = 0 then JUBR_OK
      else if error = 0x81000004 then JUBR_BT_BOND_FAILED
      else if error = 0x81000003 then JUBR_CONNECT_DEVICE_ERROR
      else JUBR_TRANSMIT_DEVICE_ERROR)"

text \<open>The values of the return codes: those of the devices, and the common ones.\<close>

definition JUB_RV_dev_code :: "JUB_RV \<Rightarrow> int" where
  "JUB_RV_dev_code rv = (case rv of JUBR_CONNECT_DEVICE_ERROR \<Rightarrow> 0x61 | JUBR_TRANSMIT_DEVICE_ERROR \<Rightarrow> 0x62
     | JUBR_NOT_CONNECT_DEVICE \<Rightarrow> 0x63 | JUBR_ERROR_ARGS \<Rightarrow> 0x66 | JUBR_TRANSACT_TIMEOUT \<Rightarrow> 0x1002 | JUBR_BT_BOND_FAILED \<Rightarrow> 0x1005)"

definition JUB_RV_code :: "JUB_RV \<Rightarrow> int" where
  "JUB_RV_code rv = (case rv of JUBR_OK \<Rightarrow> 0 | JUBR_ERROR \<Rightarrow> 1 | JUBR_ARGUMENTS_BAD \<Rightarrow> 3 | JUBR_BUFFER_TOO_SMALL \<Rightarrow> 0xA
     | _ \<Rightarrow> JUB_RV_dev_code rv)"

record ble_driver =
  connected :: bool
  send_apdu :: "u8 list \<Rightarrow> int"
  delivered :: "u8 list list"
  still_connected :: bool
  timed_out :: bool

text \<open>The result is the response, \<open>None\<close> when the caller passed no buffer for it.\<close>

definition SendData :: "ble_driver \<Rightarrow> fido \<Rightarrow> u8 list \<Rightarrow> nat option \<Rightarrow> fido \<times> u8 list option outcome" where
  "SendData drv fido sendData buf =
     (if \<not> connected drv then (fido, Fail JUBR_NOT_CONNECT_DEVICE)
      else
        let fido = fido_clear fido
        in case wrapFidoApdu fido (Some 2048) CMD_MSG sendData of
             Undefined \<Rightarrow> (fido, Undefined)
           | Fail e \<Rightarrow> (fido, Fail e)
           | Ret (fido, sendMsg) \<Rightarrow>
               let ret = send_apdu drv sendMsg
               in if ret \<noteq> 0 then (fido, Fail (MatchErrorCode (word_of_int ret)))
                  else
                    let fido = fst (receive fido (delivered drv))
                    in if \<not> still_connected drv then (fido, Fail JUBR_NOT_CONNECT_DEVICE)
                       else if timed_out drv then (fido, Fail JUBR_TRANSACT_TIMEOUT)
                       else
                         let (fido, respStatus) = checkResponse fido
                         in (fido, case respStatus of
                              Empty \<Rightarrow> Fail JUBR_TRANSMIT_DEVICE_ERROR
                            | Invalid \<Rightarrow> Fail JUBR_TRANSMIT_DEVICE_ERROR
                            | Receiving \<Rightarrow> Fail JUBR_TRANSACT_TIMEOUT
                            | Complete \<Rightarrow>
                                case buf of None \<Rightarrow> Ret None
                                | Some cap \<Rightarrow>
                                    case parseFidoApdu buf (mRecvMsg fido) of
                                      Undefined \<Rightarrow> Undefined
                                    | Fail e \<Rightarrow> Fail (MatchErrorCode (word_of_int (JUB_RV_code e)))
                                    | Ret data \<Rightarrow> Ret (Some data)))"

lemma send_wrapped:
  "wrapFidoApdu fido (Some 2048) CMD_MSG sendData =
     (if length sendData \<le> 1943 then Ret (fido\<lparr>cmdHeader := CMD_MSG\<rparr>, concat (fido_packets CMD_MSG sendData)) else Undefined)"
proof (cases "length sendData \<le> 1943")
  case True
  then have "(length sendData - 17 + 18) div 19 \<le> 102" by (simp add: less_Suc_eq_le[symmetric] less_mult_imp_div_less)
  then have "length (concat (fido_packets CMD_MSG sendData)) \<le> 2048" unfolding length_packets using True by linarith
  then show ?thesis using True by (simp add: wrap_packets)
next
  case False
  then have "(102 :: nat) \<le> (length sendData - 17 + 18) div 19" by (intro div_le_mono[of "1938" _ 19, simplified]) simp
  then have "2048 < length (concat (fido_packets CMD_MSG sendData))" unfolding length_packets using False by linarith
  then show ?thesis using False by (subst wrap_overflow) auto
qed

text \<open>
  A device that answers with the packets of a message, keep-alives between them: the caller gets the
  message, unless one of the buffers is too short for what is written to it.
\<close>

lemma SendData_response:
  assumes drv: "connected drv" "still_connected drv" "\<not> timed_out drv" "send_apdu drv (concat (fido_packets CMD_MSG sendData)) = 0"
    and events: "filter data_packet (delivered drv) = fido_packets CMD_MSG resp"
    and len: "resp \<noteq> []" "length resp \<le> 17 + 19 * 128"
  shows "snd (SendData drv fido sendData (Some cap))
    = (if length sendData \<le> 1943 \<and> length resp \<le> 509 \<and> length resp \<le> cap then Ret (Some resp) else Undefined)"
proof -
  let ?f = "fido_clear fido\<lparr>cmdHeader := CMD_MSG\<rparr>"
  let ?g = "fst (receive ?f (delivered drv))"
  have g: "?g = ?f\<lparr>pkgSeq := word_of_nat ((length resp - 17 + 18) div 19 - 1), mRecvMsg := concat (fido_packets CMD_MSG resp)\<rparr>"
    unfolding receive_data(1)[of ?f] events receive_packets[OF len] by (simp add: fido_clear_def)
  then have m: "mRecvMsg ?g = concat (fido_packets CMD_MSG resp)" by simp
  have chk: "checkResponse ?g = (?g, Complete)"
    using packets_complete[of resp ?g CMD_MSG] m len by (simp add: g)
  have parse: "parseFidoApdu (Some cap) (mRecvMsg ?g) = (if length resp \<le> 509 \<and> length resp \<le> cap then Ret resp else Undefined)"
    unfolding m using parse_packets[of resp cap CMD_MSG] len by simp
  show ?thesis
    unfolding SendData_def using drv chk parse by (simp add: Let_def send_wrapped fido_clear_def)
qed

end
