(* ===== verification/Cmac.thy ===== *)
theory Cmac
  imports HashStream
begin

text \<open>
  AES-128 and AES-CMAC of \<open>trezor-crypto/src/cmac.c\<close>. Arrays are byte lists; a function that fills
  an output array returns it. The reference is FIPS 197, with the key expansion over words and
  multiplication by two in the field, and RFC 4493 over 128-bit numbers.
\<close>

unbundle bit_operations_syntax

section \<open>AES-128\<close>

definition sbox_table :: "u8 list" where
  "sbox_table = concat [
    [0x63, 0x7c, 0x77, 0x7b, 0xf2, 0x6b, 0x6f, 0xc5],
    [0x30, 0x01, 0x67, 0x2b, 0xfe, 0xd7, 0xab, 0x76],
    [0xca, 0x82, 0xc9, 0x7d, 0xfa, 0x59, 0x47, 0xf0],
    [0xad, 0xd4, 0xa2, 0xaf, 0x9c, 0xa4, 0x72, 0xc0],
    [0xb7, 0xfd, 0x93, 0x26, 0x36, 0x3f, 0xf7, 0xcc],
    [0x34, 0xa5, 0xe5, 0xf1, 0x71, 0xd8, 0x31, 0x15],
    [0x04, 0xc7, 0x23, 0xc3, 0x18, 0x96, 0x05, 0x9a],
    [0x07, 0x12, 0x80, 0xe2, 0xeb, 0x27, 0xb2, 0x75],
    [0x09, 0x83, 0x2c, 0x1a, 0x1b, 0x6e, 0x5a, 0xa0],
    [0x52, 0x3b, 0xd6, 0xb3, 0x29, 0xe3, 0x2f, 0x84],
    [0x53, 0xd1, 0x00, 0xed, 0x20, 0xfc, 0xb1, 0x5b],
    [0x6a, 0xcb, 0xbe, 0x39, 0x4a, 0x4c, 0x58, 0xcf],
    [0xd0, 0xef, 0xaa, 0xfb, 0x43, 0x4d, 0x33, 0x85],
    [0x45, 0xf9, 0x02, 0x7f, 0x50, 0x3c, 0x9f, 0xa8],
    [0x51, 0xa3, 0x40, 0x8f, 0x92, 0x9d, 0x38, 0xf5],
    [0xbc, 0xb6, 0xda, 0x21, 0x10, 0xff, 0xf3, 0xd2],
    [0xcd, 0x0c, 0x13, 0xec, 0x5f, 0x97, 0x44, 0x17],
    [0xc4, 0xa7, 0x7e, 0x3d, 0x64, 0x5d, 0x19, 0x73],
    [0x60, 0x81, 0x4f, 0xdc, 0x22, 0x2a, 0x90, 0x88],
    [0x46, 0xee, 0xb8, 0x14, 0xde, 0x5e, 0x0b, 0xdb],
    [0xe0, 0x32, 0x3a, 0x0a, 0x49, 0x06, 0x24, 0x5c],
    [0xc2, 0xd3, 0xac, 0x62, 0x91, 0x95, 0xe4, 0x79],
    [0xe7, 0xc8, 0x37, 0x6d, 0x8d, 0xd5, 0x4e, 0xa9],
    [0x6c, 0x56, 0xf4, 0xea, 0x65, 0x7a, 0xae, 0x08],
    [0xba, 0x78, 0x25, 0x2e, 0x1c, 0xa6, 0xb4, 0xc6],
    [0xe8, 0xdd, 0x74, 0x1f, 0x4b, 0xbd, 0x8b, 0x8a],
    [0x70, 0x3e, 0xb5, 0x66, 0x48, 0x03, 0xf6, 0x0e],
    [0x61, 0x35, 0x57, 0xb9, 0x86, 0xc1, 0x1d, 0x9e],
    [0xe1, 0xf8, 0x98, 0x11, 0x69, 0xd9, 0x8e, 0x94],
    [0x9b, 0x1e, 0x87, 0xe9, 0xce, 0x55, 0x28, 0xdf],
    [0x8c, 0xa1, 0x89, 0x0d, 0xbf, 0xe6, 0x42, 0x68],
    [0x41, 0x99, 0x2d, 0x0f, 0xb0, 0x54, 0xbb, 0x16]]"

definition xor_128 :: "u8 list \<Rightarrow> u8 list \<Rightarrow> u8 list" where
  "xor_128 a b = map (\<lambda>i. a ! i XOR b ! i) [0..<16]"

definition xor_32 :: "u8 list \<Rightarrow> u8 list \<Rightarrow> u8 list" where
  "xor_32 a b = map (\<lambda>i. a ! i XOR b ! i) [0..<4]"

definition sbox :: "u8 \<Rightarrow> u8" where
  "sbox a = sbox_table ! unat a"

definition rcon_table :: "u8 list" where
  "rcon_table = [0x01, 0x02, 0x04, 0x08, 0x10, 0x20, 0x40, 0x80, 0x1b, 0x36, 0x36, 0x36]"

definition next_key :: "u8 list \<Rightarrow> nat \<Rightarrow> u8 list" where
  "next_key key round =
     (let sbox_key = [sbox (key ! 13), sbox (key ! 14), sbox (key ! 15), sbox (key ! 12)];
          rcon = rcon_table ! round;
          k0 = xor_32 (take 4 key) sbox_key;
          k0 = k0[0 := k0 ! 0 XOR rcon];
          k4 = xor_32 (take 4 (drop 4 key)) k0;
          k8 = xor_32 (take 4 (drop 8 key)) k4;
          k12 = xor_32 (take 4 (drop 12 key)) k8
      in k0 @ k4 @ k8 @ k12)"

definition byte_sub :: "u8 list \<Rightarrow> u8 list" where
  "byte_sub inp = map (\<lambda>i. sbox (inp ! i)) [0..<16]"

definition shift_row :: "u8 list \<Rightarrow> u8 list" where
  "shift_row inp =
     [inp ! 0, inp ! 5, inp ! 10, inp ! 15, inp ! 4, inp ! 9, inp ! 14, inp ! 3,
      inp ! 8, inp ! 13, inp ! 2, inp ! 7, inp ! 12, inp ! 1, inp ! 6, inp ! 11]"

definition mix_shift :: "nat \<Rightarrow> u8 list \<Rightarrow> u8 list" where
  "mix_shift i andf7 =
     (let andf7 = andf7[i := push_bit 1 (andf7 ! i)]
      in if andf7 ! (i - 1) AND 0x80 = 0x80 then andf7[i := andf7 ! i OR 0x01] else andf7)"

definition mix_column :: "u8 list \<Rightarrow> u8 list" where
  "mix_column inp =
     (let add1b = map (\<lambda>i. if inp ! i AND 0x80 = 0x80 then 0x1b else 0) [0..<4];
          swap_halfs = [inp ! 2, inp ! 3, inp ! 0, inp ! 1];
          rotl = [inp ! 3, inp ! 0, inp ! 1, inp ! 2];
          andf7 = [inp ! 0 AND 0x7f, inp ! 1 AND 0x7f, inp ! 2 AND 0x7f, inp ! 3 AND 0x7f];
          andf7 = for_down 4 1 mix_shift andf7;
          andf7 = andf7[0 := push_bit 1 (andf7 ! 0)];
          andf7 = andf7[0 := andf7 ! 0 AND 0xfe];
          add1bf7 = xor_32 add1b andf7;
          rotr = xor_32 inp add1bf7;
          rotr = [rotr ! 1, rotr ! 2, rotr ! 3, rotr ! 0];
          temp = xor_32 add1bf7 rotr;
          tempb = xor_32 swap_halfs rotl
      in xor_32 temp tempb)"

text \<open>A pass of the loop over the rounds; its state is the ciphertext and the round key.\<close>

definition AES_round :: "u8 list \<Rightarrow> nat \<Rightarrow> u8 list \<times> u8 list \<Rightarrow> u8 list \<times> u8 list" where
  "AES_round data round = (\<lambda>(ciphertext, round_key).
     if round = 0 then (xor_128 round_key data, next_key round_key round)
     else if round = 10 then
       let intermediatea = byte_sub ciphertext;
           intermediateb = shift_row intermediatea
       in (xor_128 intermediateb round_key, round_key)
     else
       let intermediatea = byte_sub ciphertext;
           intermediateb = shift_row intermediatea;
           intermediatea = mix_column (take 4 intermediateb) @ mix_column (take 4 (drop 4 intermediateb))
             @ mix_column (take 4 (drop 8 intermediateb)) @ mix_column (take 4 (drop 12 intermediateb))
       in (xor_128 intermediatea round_key, next_key round_key round))"

definition AES__128 :: "u8 list \<Rightarrow> u8 list \<Rightarrow> u8 list" where
  "AES__128 key data = fst (for_up 0 11 (AES_round data) ([], take 16 key))"

section \<open>CMAC\<close>

definition const_Rb :: "u8 list" where
  "const_Rb = [0, 0, 0, 0, 0, 0, 0, 0, 0, 0, 0, 0, 0, 0, 0, 0x87]"

definition leftshift_onebit :: "u8 list \<Rightarrow> u8 list" where
  "leftshift_onebit inp =
     fst (for_down 16 0 (\<lambda>i (out, overflow).
       (out[i := push_bit 1 (inp ! i) OR overflow], if inp ! i AND 0x80 \<noteq> 0 then 1 else 0)) (replicate 16 0, 0))"

definition generate_subkey :: "u8 list \<Rightarrow> u8 list \<times> u8 list" where
  "generate_subkey key =
     (let L = AES__128 key (replicate 16 0);
          K1 = (if L ! 0 AND 0x80 = 0 then leftshift_onebit L else xor_128 (leftshift_onebit L) const_Rb);
          K2 = (if K1 ! 0 AND 0x80 = 0 then leftshift_onebit K1 else xor_128 (leftshift_onebit K1) const_Rb)
      in (K1, K2))"

definition padding :: "u8 list \<Rightarrow> nat \<Rightarrow> u8 list" where
  "padding lastb len = map (\<lambda>j. if j < len then lastb ! j else if j = len then 0x80 else 0) [0..<16]"

definition AES_CMAC :: "u8 list \<Rightarrow> u8 list \<Rightarrow> u8 list" where
  "AES_CMAC key inp =
     (let (K1, K2) = generate_subkey key;
          len = length inp;
          n = (len + 15) div 16;
          (n, flag) = (if n = 0 then (1, False) else (n, len mod 16 = 0));
          M_last = (if flag then xor_128 (drop (16 * (n - 1)) inp) K1
                    else xor_128 (padding (drop (16 * (n - 1)) inp) (len mod 16)) K2);
          X = for_up 0 (n - 1) (\<lambda>i X. AES__128 key (xor_128 X (drop (16 * i) inp))) (replicate 16 0)
      in AES__128 key (xor_128 X M_last))"

section \<open>The standards\<close>

text \<open>Multiplication by two in the field with 256 elements.\<close>

definition xtime :: "u8 \<Rightarrow> u8" where
  "xtime b = push_bit 1 b XOR (if bit b 7 then 0x1b else 0)"

definition MixColumn :: "u8 list \<Rightarrow> u8 list" where
  "MixColumn c = map (\<lambda>i. xtime (c ! i) XOR (xtime (c ! ((i + 1) mod 4)) XOR c ! ((i + 1) mod 4)) XOR c ! ((i + 2) mod 4) XOR c ! ((i + 3) mod 4)) [0..<4]"

text \<open>The key expansion: word \<open>i\<close> of the schedule.\<close>

fun rcon :: "nat \<Rightarrow> u8" where
  "rcon 0 = 1"
| "rcon (Suc n) = xtime (rcon n)"

fun key_word :: "u8 list \<Rightarrow> nat \<Rightarrow> u8 list" where
  "key_word key i =
     (if i < 4 then take 4 (drop (4 * i) key)
      else
        let temp = key_word key (i - 1);
            temp = (if i mod 4 = 0 then map2 (\<lambda>x y. x XOR y) (map sbox (rotate1 temp)) [rcon (i div 4 - 1), 0, 0, 0] else temp)
        in map2 (\<lambda>x y. x XOR y) (key_word key (i - 4)) temp)"

definition round_key :: "u8 list \<Rightarrow> nat \<Rightarrow> u8 list" where
  "round_key key r = key_word key (4 * r) @ key_word key (4 * r + 1) @ key_word key (4 * r + 2) @ key_word key (4 * r + 3)"

text \<open>The state is held column by column: row \<open>r\<close> of column \<open>c\<close> is byte \<open>4c + r\<close>.\<close>

definition ShiftRows :: "u8 list \<Rightarrow> u8 list" where
  "ShiftRows s = map (\<lambda>k. s ! (4 * ((k div 4 + k mod 4) mod 4) + k mod 4)) [0..<16]"

definition MixColumns :: "u8 list \<Rightarrow> u8 list" where
  "MixColumns s = concat (map (\<lambda>c. MixColumn (take 4 (drop (4 * c) s))) [0..<4])"

definition AddRoundKey :: "u8 list \<Rightarrow> u8 list \<Rightarrow> u8 list" where
  "AddRoundKey = map2 (\<lambda>x y. x XOR y)"

definition aes_cipher :: "u8 list \<Rightarrow> u8 list \<Rightarrow> u8 list" where
  "aes_cipher key data =
     (let s = AddRoundKey data (round_key key 0);
          s = foldl (\<lambda>s r. AddRoundKey (MixColumns (ShiftRows (map sbox s))) (round_key key r)) s [1..<10]
      in AddRoundKey (ShiftRows (map sbox s)) (round_key key 10))"

text \<open>CMAC over 128-bit numbers, from a block cipher \<open>E\<close>: subkeys by doubling, chaining, and the masked last block.\<close>

definition dbl :: "128 word \<Rightarrow> 128 word" where
  "dbl w = push_bit 1 w XOR (if bit w 127 then 0x87 else 0)"

definition cmac_spec :: "(128 word \<Rightarrow> 128 word) \<Rightarrow> u8 list \<Rightarrow> 128 word" where
  "cmac_spec E msg =
     (let ms = be_words 16 msg; rest = drop (16 * length ms) msg; K1 = dbl (E 0); K2 = dbl K1
      in if ms \<noteq> [] \<and> rest = [] then E (foldl (\<lambda>X M. E (X XOR M)) 0 (butlast ms) XOR last ms XOR K1)
         else E (foldl (\<lambda>X M. E (X XOR M)) 0 ms XOR be_word (rest @ 0x80 # replicate (15 - length rest) 0) XOR K2))"

section \<open>Columns and rows\<close>

declare push_bit_Suc [simp del]

lemma u8_eq_iff: "a = b \<longleftrightarrow> (\<forall>n<8. bit a n = bit b n)" for a b :: u8
  by (auto intro: bit_word_eqI)

lemma msb_test: "a AND 0x80 = 0x80 \<longleftrightarrow> bit a 7" "a AND 0x80 = 0 \<longleftrightarrow> \<not> bit a 7" for a :: u8
proof -
  have "bit (0x80 :: u8) n \<longleftrightarrow> n = 7" if "n < 8" for n
    using that by (auto simp: bit_numeral_rec numeral_eq_Suc less_Suc_eq)
  then show "a AND 0x80 = 0x80 \<longleftrightarrow> bit a 7" "a AND 0x80 = 0 \<longleftrightarrow> \<not> bit a 7"
    by (auto simp: u8_eq_iff bit_and_iff dest: spec[of _ 7])
qed

lemma and_7f_80: "(a AND 0x7f) AND 0x80 = 0" for a :: u8
  by (simp add: and.assoc)

lemma shift_7f: "push_bit 1 (a AND 0x7f) = push_bit 1 a" "push_bit 1 (a AND 0x7f) AND 0xfe = push_bit 1 a" for a :: u8
proof -
  have bits: "bit (0x7f :: u8) n \<longleftrightarrow> n \<noteq> 7" "bit (0xfe :: u8) n \<longleftrightarrow> n \<noteq> 0" if "n < 8" for n
    using that by (auto simp: bit_numeral_rec numeral_eq_Suc less_Suc_eq)
  show "push_bit 1 (a AND 0x7f) = push_bit 1 a" "push_bit 1 (a AND 0x7f) AND 0xfe = push_bit 1 a"
    unfolding u8_eq_iff bit_and_iff bit_push_bit_iff using bits by auto
qed

lemma list4: "length c = 4 \<Longrightarrow> \<exists>w x y z. c = [w, x, y, z]"
  by (auto simp: numeral_eq_Suc length_Suc_conv)

lemma mix_column_spec:
  assumes "length c = 4"
  shows "mix_column c = MixColumn c"
proof -
  obtain w x y z where c: "c = [w, x, y, z]" using list4[OF assms] by blast
  have r: "[0..<4] = [0, 1, 2, 3 :: nat]" "rev [1..<4] = [3, 2, 1 :: nat]" by code_simp+
  have and7: "(a AND 0x7f) AND 0x80 \<noteq> 0x80" for a :: u8 unfolding and_7f_80 by simp
  have two: "(if a AND 0x80 = 0x80 then 0x1b else 0) XOR push_bit 1 (a AND 0x7f) = xtime a"
    "(if a AND 0x80 = 0x80 then 0x1b else 0) XOR (push_bit 1 (a AND 0x7f) AND 0xfe) = xtime a" for a :: u8
    unfolding xtime_def shift_7f(2) unfolding shift_7f(1) msb_test by (rule xor.commute)+
  have shifted: "for_down 4 1 mix_shift [w AND 0x7f, x AND 0x7f, y AND 0x7f, z AND 0x7f]
     = [w AND 0x7f, push_bit 1 (x AND 0x7f), push_bit 1 (y AND 0x7f), push_bit 1 (z AND 0x7f)]"
    unfolding for_down_def r mix_shift_def using and7 by (simp add: Let_def)
  show ?thesis
    unfolding mix_column_def MixColumn_def c Let_def
    by (simp add: shifted[simplified] r xor_32_def two[simplified]) (simp add: ac_simps)
qed

lemma upt16: "[0..<16] = [0, 1, 2, 3, 4, 5, 6, 7, 8, 9, 10, 11, 12, 13, 14, 15 :: nat]"
  by code_simp

lemma nth_map2_xor:
  "length a = 16 \<Longrightarrow> length b = 16 \<Longrightarrow> map2 (\<lambda>x y. x XOR y) a b = map (\<lambda>i. a ! i XOR b ! i) [0..<16]"
  by (rule nth_equalityI) simp_all

lemma xor_128_map2: "length a = 16 \<Longrightarrow> length b = 16 \<Longrightarrow> xor_128 a b = AddRoundKey a b"
  by (simp add: xor_128_def AddRoundKey_def nth_map2_xor)

lemma shift_row_spec: "shift_row s = ShiftRows s"
proof -
  have "map (\<lambda>k. 4 * ((k div 4 + k mod 4) mod 4) + k mod 4) [0..<16] = [0, 5, 10, 15, 4, 9, 14, 3, 8, 13, 2, 7, 12, 1, 6, 11 :: nat]"
    by code_simp
  moreover have "ShiftRows s = map ((!) s) (map (\<lambda>k. 4 * ((k div 4 + k mod 4) mod 4) + k mod 4) [0..<16])"
    by (simp only: ShiftRows_def map_map o_def)
  ultimately show ?thesis by (simp only: shift_row_def list.map)
qed

lemma byte_sub_map: "length s = 16 \<Longrightarrow> byte_sub s = map sbox s"
  unfolding byte_sub_def by (rule nth_equalityI) simp_all

lemma length_MixColumn [simp]: "length (MixColumn c) = 4"
  by (simp add: MixColumn_def)

lemma mix_columns_spec:
  assumes "length s = 16"
  shows "mix_column (take 4 s) @ mix_column (take 4 (drop 4 s)) @ mix_column (take 4 (drop 8 s)) @ mix_column (take 4 (drop 12 s)) = MixColumns s"
proof -
  have "[0..<4] = [0, 1, 2, 3 :: nat]" by code_simp
  then show ?thesis using assms by (simp add: MixColumns_def mix_column_spec)
qed

section \<open>The key schedule\<close>

declare key_word.simps [simp del]

lemma length_key_word: "length key = 16 \<Longrightarrow> length (key_word key i) = 4"
proof (induction key i rule: key_word.induct)
  case (1 key i)
  show ?case
  proof (cases "i < 4")
    case True
    then show ?thesis using 1(3) by (simp add: key_word.simps[of key i])
  next
    case False
    then have "length (key_word key (i - 1)) = 4" "length (key_word key (i - 4)) = 4" using 1 by auto
    then show ?thesis using False by (simp add: key_word.simps[of key i] Let_def)
  qed
qed

lemma xor_32_map2: "length a = 4 \<Longrightarrow> length b = 4 \<Longrightarrow> xor_32 a b = map2 (\<lambda>x y. x XOR y) a b"
  unfolding xor_32_def by (rule nth_equalityI) simp_all

lemma rcon_values: "r \<le> 9 \<Longrightarrow> rcon_table ! r = rcon r"
proof -
  have "\<forall>r\<in>set [0..<10]. rcon_table ! r = rcon r" by code_simp
  then show "r \<le> 9 \<Longrightarrow> rcon_table ! r = rcon r" by simp
qed

lemma key_word_step:
  "key_word key (4 * r + 4) = map2 (\<lambda>x y. x XOR y) (key_word key (4 * r)) (map2 (\<lambda>x y. x XOR y) (map sbox (rotate1 (key_word key (4 * r + 3)))) [rcon r, 0, 0, 0])"
  "0 < j \<Longrightarrow> j < 4 \<Longrightarrow> key_word key (4 * r + 4 + j) = map2 (\<lambda>x y. x XOR y) (key_word key (4 * r + j)) (key_word key (4 * r + 4 + j - 1))"
proof -
  have "(4 * r + 4) mod 4 = 0" "(4 * r + 4) div 4 = r + 1" by simp_all
  then show "key_word key (4 * r + 4) = map2 (\<lambda>x y. x XOR y) (key_word key (4 * r)) (map2 (\<lambda>x y. x XOR y) (map sbox (rotate1 (key_word key (4 * r + 3)))) [rcon r, 0, 0, 0])"
    by (subst key_word.simps) (simp add: Let_def add.commute)
  assume j: "0 < j" "j < 4"
  then have "(4 * r + 4 + j) mod 4 \<noteq> 0" by presburger
  then show "key_word key (4 * r + 4 + j) = map2 (\<lambda>x y. x XOR y) (key_word key (4 * r + j)) (key_word key (4 * r + 4 + j - 1))"
    using j by (subst key_word.simps) (simp add: Let_def)
qed

lemma next_round_key:
  assumes "length key = 16" "r \<le> 9"
  shows "next_key (round_key key r) r = round_key key (Suc r)"
proof -
  define w where "w = key_word key"
  have len: "length (w i) = 4" for i unfolding w_def by (rule length_key_word[OF assms(1)])
  obtain a b c d where last: "w (4 * r + 3) = [a, b, c, d]" using list4[OF len] by blast
  obtain e f g h where first: "w (4 * r) = [e, f, g, h]" using list4[OF len] by blast
  let ?K = "round_key key r"
  have K: "?K = w (4 * r) @ w (4 * r + 1) @ w (4 * r + 2) @ w (4 * r + 3)" by (simp add: round_key_def w_def)
  have parts: "take 4 ?K = w (4 * r)" "take 4 (drop 4 ?K) = w (4 * r + 1)" "take 4 (drop 8 ?K) = w (4 * r + 2)" "take 4 (drop 12 ?K) = w (4 * r + 3)"
    unfolding K by (simp_all add: len)
  have bytes: "?K ! 13 = b" "?K ! 14 = c" "?K ! 15 = d" "?K ! 12 = a"
    unfolding K last by (simp_all add: nth_append len)
  have w0: "w (4 * r + 4) = (xor_32 (w (4 * r)) [sbox b, sbox c, sbox d, sbox a])[0 := xor_32 (w (4 * r)) [sbox b, sbox c, sbox d, sbox a] ! 0 XOR rcon_table ! r]"
    using key_word_step(1)[of key r] last first
    by (simp add: w_def[symmetric] xor_32_map2 rcon_values[OF assms(2)] xor.assoc)
  have "w (4 * r + 4 + j) = xor_32 (w (4 * r + j)) (w (4 * r + 4 + j - 1))" if "0 < j" "j < 4" for j
    using key_word_step(2)[OF that, of key r] by (simp add: w_def[symmetric] xor_32_map2 len)
  from this[of 1] this[of 2] this[of 3]
  have w1: "w (4 * r + 5) = xor_32 (w (4 * r + 1)) (w (4 * r + 4))" "w (4 * r + 6) = xor_32 (w (4 * r + 2)) (w (4 * r + 5))"
    "w (4 * r + 7) = xor_32 (w (4 * r + 3)) (w (4 * r + 6))"
    by (simp_all add: numeral_eq_Suc)
  have "next_key ?K r = w (4 * r + 4) @ w (4 * r + 5) @ w (4 * r + 6) @ w (4 * r + 7)"
    unfolding next_key_def Let_def parts bytes w1 w0 ..
  then show ?thesis by (simp add: round_key_def w_def numeral_eq_Suc)
qed

section \<open>The cipher\<close>

lemma length_round_key: "length key = 16 \<Longrightarrow> length (round_key key r) = 16"
  by (simp add: round_key_def length_key_word)

lemma length_cipher_parts [simp]: "length (ShiftRows s) = 16" "length (MixColumns s) = 16" "length (xor_128 a b) = 16"
proof -
  have "[0..<4] = [0, 1, 2, 3 :: nat]" by code_simp
  then show "length (MixColumns s) = 16" by (simp add: MixColumns_def)
qed (simp_all add: ShiftRows_def xor_128_def)

lemma length_AddRoundKey [simp]: "length (AddRoundKey a b) = min (length a) (length b)"
  by (simp add: AddRoundKey_def)

lemma round_key_0: "length key = 16 \<Longrightarrow> round_key key 0 = key"
proof -
  assume "length key = 16"
  moreover have "take 4 (drop k key) @ drop (k + 4) key = drop k key" for k
    using append_take_drop_id[of 4 "drop k key"] by (simp add: add.commute)
  from this[of 0] this[of 4] this[of 8]
  have "take 4 key @ take 4 (drop 4 key) @ take 4 (drop 8 key) @ drop 12 key = key" by simp
  ultimately show ?thesis by (simp add: round_key_def key_word.simps)
qed

abbreviation middle :: "u8 list \<Rightarrow> u8 list \<Rightarrow> nat \<Rightarrow> u8 list" where
  "middle key s r \<equiv> AddRoundKey (MixColumns (ShiftRows (map sbox s))) (round_key key r)"

lemma AES_round_first:
  assumes key: "length key = 16" and data: "length data = 16"
  shows "AES_round data 0 ([], key) = (AddRoundKey data (round_key key 0), round_key key (Suc 0))"
proof -
  have "xor_128 key data = AddRoundKey data key"
    using key data by (simp add: xor_128_def AddRoundKey_def nth_map2_xor xor.commute)
  then show ?thesis using next_round_key[OF key, of 0] by (simp add: AES_round_def round_key_0[OF key])
qed

lemma AES_round_middle:
  assumes key: "length key = 16"
  shows "length s = 16 \<Longrightarrow> 0 < r \<Longrightarrow> r \<le> 9 \<Longrightarrow> AES_round data r (s, round_key key r) = (middle key s r, round_key key (Suc r))"
  using next_round_key[OF key, of r] mix_columns_spec[of "ShiftRows (map sbox s)"]
  by (simp add: AES_round_def Let_def byte_sub_map shift_row_spec xor_128_map2 length_round_key[OF key])

lemma AES_round_last:
  assumes key: "length key = 16"
  shows "length s = 16 \<Longrightarrow> fst (AES_round data 10 (s, round_key key 10)) = AddRoundKey (ShiftRows (map sbox s)) (round_key key 10)"
  by (simp add: AES_round_def Let_def byte_sub_map shift_row_spec xor_128_map2 length_round_key[OF key])

lemma length_middle:
  assumes key: "length key = 16" and data: "length data = 16"
  shows "length (foldl (middle key) (AddRoundKey data (round_key key 0)) [1..<n]) = 16"
  by (induction n) (simp_all add: data length_round_key[OF key])

lemma AES_rounds:
  assumes key: "length key = 16" and data: "length data = 16"
  shows "n \<le> 9 \<Longrightarrow> for_up 0 (Suc n) (AES_round data) ([], key) = (foldl (middle key) (AddRoundKey data (round_key key 0)) [1..<Suc n], round_key key (Suc n))"
proof (induction n)
  case 0
  then show ?case by (simp add: for_up_last AES_round_first[OF key data])
next
  case (Suc n)
  let ?s = "foldl (middle key) (AddRoundKey data (round_key key 0)) [1..<Suc n]"
  have "for_up 0 (Suc (Suc n)) (AES_round data) ([], key) = AES_round data (Suc n) (for_up 0 (Suc n) (AES_round data) ([], key))"
    by (rule for_up_last) simp
  also have "\<dots> = AES_round data (Suc n) (?s, round_key key (Suc n))" using Suc by simp
  also have "\<dots> = (middle key ?s (Suc n), round_key key (Suc (Suc n)))"
    by (rule AES_round_middle[OF key]) (use Suc.prems length_middle[OF key data, of "Suc n"] in simp_all)
  finally show ?case by simp
qed

lemma AES_spec:
  assumes key: "length key = 16" and data: "length data = 16"
  shows "AES__128 key data = aes_cipher key data"
proof -
  let ?s = "foldl (middle key) (AddRoundKey data (round_key key 0)) [1..<10]"
  have "for_up 0 11 (AES_round data) ([], key) = AES_round data 10 (for_up 0 10 (AES_round data) ([], key))"
    using for_up_last[of 0 10 "AES_round data" "([], key)"] by simp
  also have "\<dots> = AES_round data 10 (?s, round_key key 10)" using AES_rounds[OF key data, of 9] by simp
  finally show ?thesis
    unfolding AES__128_def aes_cipher_def Let_def using key AES_round_last[OF key length_middle[OF key data]] by simp
qed

section \<open>Blocks as numbers\<close>

lemma bit_block: "length b = 16 \<Longrightarrow> bit (be_word b :: 128 word) n \<longleftrightarrow> n < 128 \<and> bit (b ! (15 - n div 8)) (n mod 8)"
proof -
  assume len: "length b = 16"
  have "rev b ! (n div 8) = b ! (15 - n div 8)" if "n < 128"
    using that len by (simp add: rev_nth less_mult_imp_div_less)
  then show ?thesis using len by (auto simp: bit_be_word)
qed

lemma block_eqI: "length a = 16 \<Longrightarrow> length b = 16 \<Longrightarrow> (be_word a :: 128 word) = be_word b \<Longrightarrow> a = b"
  using word_le_be_word[of a, where 'a = 128] word_le_be_word[of b, where 'a = 128] by simp

lemma block_word_be: "length b = 16 \<Longrightarrow> word_be 16 (be_word b :: 128 word) = b"
  using word_le_be_word[of b, where 'a = 128] by (simp add: word_be_def)

lemma be_word_xor_128:
  assumes "16 \<le> length a" "16 \<le> length b"
  shows "be_word (xor_128 a b) = (be_word (take 16 a) XOR be_word (take 16 b) :: 128 word)"
proof (rule bit_word_eqI)
  fix n assume "n < LENGTH(128)"
  then have n: "n < 128" "15 - n div 8 < 16" by simp_all
  then have "xor_128 a b ! (15 - n div 8) = a ! (15 - n div 8) XOR b ! (15 - n div 8)" by (simp add: xor_128_def del: upt_Suc)
  then show "bit (be_word (xor_128 a b) :: 128 word) n = bit (be_word (take 16 a) XOR be_word (take 16 b) :: 128 word) n"
    using n assms by (simp add: bit_block bit_xor_iff)
qed

lemma be_word_zero: "be_word (replicate k 0) = 0"
  by (rule bit_word_eqI) (simp add: bit_be_word rev_replicate nth_replicate less_mult_imp_div_less mult.commute)

lemma leftshift_nth:
  "leftshift_onebit inp = map (\<lambda>i. push_bit 1 (inp ! i) OR (if i < 15 \<and> bit (inp ! (i + 1)) 7 then 1 else 0)) [0..<16]"
proof -
  let ?o = "\<lambda>i. push_bit 1 (inp ! i) OR (if i < 15 \<and> bit (inp ! (i + 1)) 7 then 1 else 0 :: u8)"
  define P where "P = (\<lambda>i (s :: u8 list \<times> u8). length (fst s) = 16 \<and> (\<forall>k<16. i \<le> k \<longrightarrow> fst s ! k = ?o k)
    \<and> snd s = (if i < 16 \<and> bit (inp ! i) 7 then 1 else 0))"
  have "P 0 (for_down 16 0 (\<lambda>i (out, overflow).
       (out[i := push_bit 1 (inp ! i) OR overflow], if inp ! i AND 0x80 \<noteq> 0 then 1 else 0)) (replicate 16 0, 0))"
  proof (rule for_down_inv)
    show "P 16 (replicate 16 0, 0)" by (simp add: P_def)
    fix i and s :: "u8 list \<times> u8" assume i: "i < 16" "P (Suc i) s"
    then show "P i (case s of (out, overflow) \<Rightarrow>
        (out[i := push_bit 1 (inp ! i) OR overflow], if inp ! i AND 0x80 \<noteq> 0 then 1 else 0))"
      by (cases s) (auto simp: P_def msb_test nth_list_update)
  qed simp
  then show ?thesis
    unfolding leftshift_onebit_def by (intro nth_equalityI) (auto simp: P_def simp del: upt_Suc)
qed

lemma leftshift_shift:
  assumes "length b = 16"
  shows "be_word (leftshift_onebit b) = (push_bit 1 (be_word b) :: 128 word)"
proof (rule bit_word_eqI)
  fix n assume "n < LENGTH(128)"
  then have n: "n < 128" "15 - n div 8 < 16" by simp_all
  have one: "bit (1 :: u8) k \<longleftrightarrow> k = 0" for k by (simp add: bit_1_iff)
  have len: "length (leftshift_onebit b) = 16" by (simp add: leftshift_nth)
  have "leftshift_onebit b ! (15 - n div 8) = push_bit 1 (b ! (15 - n div 8)) OR (if 15 - n div 8 < 15 \<and> bit (b ! (15 - n div 8 + 1)) 7 then 1 else 0)"
    using n(2) by (simp add: leftshift_nth del: upt_Suc)
  moreover have "n div 8 \<le> 15" "15 - n div 8 + 1 = 16 - n div 8" using n(1) by simp_all
  ultimately have "bit (be_word (leftshift_onebit b) :: 128 word) n
      \<longleftrightarrow> (if n mod 8 = 0 then 0 < n div 8 \<and> bit (b ! (16 - n div 8)) 7 else bit (b ! (15 - n div 8)) (n mod 8 - 1))"
    using n len by (auto simp: bit_block bit_or_iff bit_push_bit_iff one)
  also have "\<dots> \<longleftrightarrow> 0 < n \<and> bit (be_word b :: 128 word) (n - 1)"
  proof (cases "n mod 8 = 0")
    case True
    then obtain q where q: "n = 8 * q" by (metis dvd_def mod_0_imp_dvd)
    show ?thesis
    proof (cases q)
      case (Suc r)
      then have "n - 1 = 8 * r + 7" "n div 8 = Suc r" using q by simp_all
      then show ?thesis using q n Suc assms by (simp add: bit_block)
    qed (simp add: q)
  next
    case False
    then obtain r where r: "n mod 8 = Suc r" by (cases "n mod 8") auto
    then have "n = 8 * (n div 8) + Suc r" "Suc r < 8" using mult_div_mod_eq[of 8 n] mod_less_divisor[of 8 n] by linarith+
    then obtain q where q: "n = 8 * q + Suc r" "r < 7" by auto
    then have "(n - 1) div 8 = n div 8" "(n - 1) mod 8 = n mod 8 - 1" "0 < n" "n - 1 < 128" using n(1) by simp_all
    then show ?thesis using False n assms by (simp add: bit_block)
  qed
  also have "\<dots> \<longleftrightarrow> bit (push_bit 1 (be_word b) :: 128 word) n" using n by (auto simp: bit_push_bit_iff Suc_le_eq)
  finally show "bit (be_word (leftshift_onebit b) :: 128 word) n = bit (push_bit 1 (be_word b) :: 128 word) n" .
qed

lemma double_block:
  assumes "length b = 16"
  shows "be_word (if b ! 0 AND 0x80 = 0 then leftshift_onebit b else xor_128 (leftshift_onebit b) const_Rb) = dbl (be_word b)"
    "length (if b ! 0 AND 0x80 = 0 then leftshift_onebit b else xor_128 (leftshift_onebit b) const_Rb) = 16"
proof -
  have len: "length (leftshift_onebit b) = 16" by (simp add: leftshift_nth)
  then show "length (if b ! 0 AND 0x80 = 0 then leftshift_onebit b else xor_128 (leftshift_onebit b) const_Rb) = 16" by simp
  have rb: "be_word const_Rb = (0x87 :: 128 word)" by (simp add: const_Rb_def be_word_def)
  have "length const_Rb = 16" by (simp add: const_Rb_def)
  then have "be_word (xor_128 (leftshift_onebit b) const_Rb) = (push_bit 1 (be_word b) XOR 0x87 :: 128 word)"
    using len leftshift_shift[OF assms] rb by (simp add: be_word_xor_128)
  moreover have "bit (be_word b :: 128 word) 127 \<longleftrightarrow> bit (b ! 0) 7" using assms by (simp add: bit_block)
  ultimately show "be_word (if b ! 0 AND 0x80 = 0 then leftshift_onebit b else xor_128 (leftshift_onebit b) const_Rb) = dbl (be_word b)"
    using leftshift_shift[OF assms] by (simp add: dbl_def msb_test)
qed

section \<open>CMAC against its standard\<close>

definition aes_word :: "u8 list \<Rightarrow> 128 word \<Rightarrow> 128 word" where
  "aes_word key w = be_word (aes_cipher key (word_be 16 w))"

lemma length_aes_cipher: "length key = 16 \<Longrightarrow> length (aes_cipher key data) = 16"
  by (simp add: aes_cipher_def Let_def length_round_key)

lemma be_word_AES: "length key = 16 \<Longrightarrow> length b = 16 \<Longrightarrow> be_word (AES__128 key b) = aes_word key (be_word b)"
  by (simp add: AES_spec aes_word_def block_word_be)

lemma length_AES: "length key = 16 \<Longrightarrow> length b = 16 \<Longrightarrow> length (AES__128 key b) = 16"
  by (simp add: AES_spec length_aes_cipher)

lemma subkeys:
  assumes "length key = 16"
  shows "be_word (fst (generate_subkey key)) = dbl (aes_word key 0)" "length (fst (generate_subkey key)) = 16"
    "be_word (snd (generate_subkey key)) = dbl (dbl (aes_word key 0))" "length (snd (generate_subkey key)) = 16"
proof -
  let ?L = "AES__128 key (replicate 16 0)"
  let ?d = "\<lambda>b. if b ! 0 AND 0x80 = 0 then leftshift_onebit b else xor_128 (leftshift_onebit b) const_Rb"
  have L: "be_word ?L = aes_word key 0" "length ?L = 16"
    using be_word_AES[OF assms, of "replicate 16 0"] assms by (simp_all add: be_word_zero length_AES)
  have gen: "generate_subkey key = (?d ?L, ?d (?d ?L))" by (simp only: generate_subkey_def Let_def)
  note K1 = double_block[OF L(2)] and K2 = double_block[OF double_block(2)[OF L(2)]]
  show "be_word (fst (generate_subkey key)) = dbl (aes_word key 0)" unfolding gen fst_conv K1(1) L(1) ..
  show "length (fst (generate_subkey key)) = 16" unfolding gen fst_conv by (rule K1(2))
  show "be_word (snd (generate_subkey key)) = dbl (dbl (aes_word key 0))" unfolding gen snd_conv K2(1) K1(1) L(1) ..
  show "length (snd (generate_subkey key)) = 16" unfolding gen snd_conv by (rule K2(2))
qed

lemma chain_blocks:
  assumes "length key = 16" "16 * n \<le> length inp"
  defines "X \<equiv> for_up 0 n (\<lambda>i X. AES__128 key (xor_128 X (drop (16 * i) inp))) (replicate 16 0)"
  shows "length X = 16" "be_word X = foldl (\<lambda>X M. aes_word key (X XOR M)) 0 (take n (be_words 16 inp))"
proof -
  have "length X = 16 \<and> be_word X = foldl (\<lambda>X M. aes_word key (X XOR M)) 0 (take n (be_words 16 inp))"
    unfolding X_def using assms(2)
  proof (induction n)
    case (Suc n)
    let ?X = "for_up 0 n (\<lambda>i X. AES__128 key (xor_128 X (drop (16 * i) inp))) (replicate 16 0)"
    have X: "length ?X = 16" "be_word ?X = foldl (\<lambda>X M. aes_word key (X XOR M)) 0 (take n (be_words 16 inp))" using Suc by simp_all
    have lt: "n < length inp div 16" using Suc.prems by (simp add: less_eq_div_iff_mult_less_eq Suc_le_eq[symmetric] mult.commute)
    then have "take (Suc n) (be_words 16 inp) = take n (be_words 16 inp) @ [be_word (take 16 (drop (16 * n) inp)) :: 128 word]"
      by (simp add: take_Suc_conv_app_nth) (simp add: be_words_def chunk_list_def)
    moreover have "be_word (AES__128 key (xor_128 ?X (drop (16 * n) inp))) = aes_word key (be_word ?X XOR be_word (take 16 (drop (16 * n) inp)))"
      using Suc.prems X(1) by (simp add: be_word_AES[OF assms(1)] be_word_xor_128)
    moreover have "length (AES__128 key (xor_128 ?X (drop (16 * n) inp))) = 16"
      using assms(1) by (simp add: length_AES)
    ultimately show ?case using X(2) by (simp add: for_up_last)
  qed (simp add: be_word_zero)
  then show "length X = 16" "be_word X = foldl (\<lambda>X M. aes_word key (X XOR M)) 0 (take n (be_words 16 inp))" by simp_all
qed

lemma padding_block:
  assumes "length b < 16"
  shows "padding b (length b) = b @ 0x80 # replicate (15 - length b) 0"
  unfolding padding_def by (rule nth_equalityI) (use assms in \<open>auto simp: nth_append nth_Cons' simp del: upt_Suc\<close>)

lemma ceil_16:
  assumes "n mod 16 \<noteq> 0"
  shows "(n + 15) div 16 = Suc (n div (16 :: nat))"
proof -
  obtain r where r: "n mod 16 = Suc r" using assms by (cases "n mod 16") auto
  then have "n = 16 * (n div 16) + Suc r" "Suc r < 16" using mult_div_mod_eq[of 16 n] mod_less_divisor[of 16 n] by linarith+
  then obtain q where n: "n = 16 * q + Suc r" "r < 15" by auto
  then have "(n + 15) div 16 = Suc q" "n div 16 = q" by (intro div_nat_eqI; simp)+
  then show ?thesis by simp
qed

lemma CMAC_spec:
  assumes key: "length key = 16"
  shows "length (AES_CMAC key inp) = 16" "be_word (AES_CMAC key inp) = cmac_spec (aes_word key) inp"
proof -
  obtain K1 K2 where K: "generate_subkey key = (K1, K2)" "length K1 = 16" "length K2 = 16"
      "be_word K1 = dbl (aes_word key 0)" "be_word K2 = dbl (dbl (aes_word key 0))"
    using subkeys[OF key] by (cases "generate_subkey key") auto
  let ?n = "length inp div 16" and ?ms = "be_words 16 inp :: 128 word list" and ?f = "\<lambda>X M. aes_word key (X XOR M)"
  let ?rest = "drop (16 * ?n) inp"
  have rest: "length ?rest = length inp mod 16" by (simp add: minus_mult_div_eq_mod)
  have "length (AES_CMAC key inp) = 16 \<and> be_word (AES_CMAC key inp) = cmac_spec (aes_word key) inp"
  proof (cases "inp \<noteq> [] \<and> length inp mod 16 = 0")
    case True
    then obtain k where k: "length inp = 16 * k" by (auto elim: dvdE)
    then have "0 < k" using True by (cases k) auto
    then have q: "(length inp + 15) div 16 = ?n" "0 < ?n" "16 * ?n = length inp" using k by simp_all
    let ?X = "for_up 0 (?n - 1) (\<lambda>i X. AES__128 key (xor_128 X (drop (16 * i) inp))) (replicate 16 0)"
    let ?b = "drop (16 * (?n - 1)) inp"
    have len: "length ?b = 16" using q by (simp add: algebra_simps)
    have X: "length ?X = 16" "be_word ?X = foldl ?f 0 (take (?n - 1) ?ms)"
      using chain_blocks[OF key, of "?n - 1" inp] q by (simp_all add: algebra_simps)
    have "last ?ms = be_word ?b"
    proof -
      have "?ms \<noteq> []" using q(2) by (metis length_be_words length_greater_0_conv)
      then have "last ?ms = ?ms ! (?n - 1)" by (simp add: last_conv_nth)
      also have "\<dots> = be_word (take 16 ?b)" using q(2) by (simp add: be_words_def chunk_list_def)
      finally show ?thesis using len by simp
    qed
    moreover have "take (?n - 1) ?ms = butlast ?ms" by (simp add: butlast_conv_take)
    moreover have "AES_CMAC key inp = AES__128 key (xor_128 ?X (xor_128 ?b K1))"
      using True q by (simp add: AES_CMAC_def Let_def K)
    moreover have "?ms \<noteq> []" using q(2) by (metis length_be_words length_greater_0_conv)
    ultimately show ?thesis
      using X K len q(3) rest True key
      by (simp add: cmac_spec_def Let_def be_word_AES be_word_xor_128 xor.assoc length_AES)
  next
    case False
    let ?X = "for_up 0 ?n (\<lambda>i X. AES__128 key (xor_128 X (drop (16 * i) inp))) (replicate 16 0)"
    have X: "length ?X = 16" "be_word ?X = foldl ?f 0 ?ms"
      using chain_blocks[OF key, of ?n inp] by simp_all
    have pad: "padding ?rest (length inp mod 16) = ?rest @ 0x80 # replicate (15 - length ?rest) 0"
      using padding_block[of ?rest] rest by simp
    then have len: "length (padding ?rest (length inp mod 16)) = 16" by (simp add: padding_def)
    have cmac: "AES_CMAC key inp = AES__128 key (xor_128 ?X (xor_128 (padding ?rest (length inp mod 16)) K2))"
    proof (cases "inp = []")
      case True
      then show ?thesis by (simp add: AES_CMAC_def Let_def K)
    next
      case False
      then have "length inp mod 16 \<noteq> 0" using \<open>\<not> (inp \<noteq> [] \<and> length inp mod 16 = 0)\<close> by simp
      from ceil_16[OF this] show ?thesis using \<open>length inp mod 16 \<noteq> 0\<close> by (simp add: AES_CMAC_def Let_def K)
    qed
    have "?ms \<noteq> [] \<and> ?rest = [] \<longleftrightarrow> False"
      using False rest by (metis drop_Nil div_0 length_0_conv length_be_words list.size(3))
    then have "cmac_spec (aes_word key) inp
        = aes_word key (foldl ?f 0 ?ms XOR be_word (?rest @ 0x80 # replicate (15 - length ?rest) 0) XOR dbl (dbl (aes_word key 0)))"
      by (simp only: cmac_spec_def Let_def length_be_words if_False)
    then show ?thesis
      unfolding cmac pad[symmetric] using X K len key
      by (simp add: be_word_AES be_word_xor_128 xor.assoc length_AES)
  qed
  then show "length (AES_CMAC key inp) = 16" "be_word (AES_CMAC key inp) = cmac_spec (aes_word key) inp" by simp_all
qed

end
