(* ===== verification/Scp03.thy ===== *)
theory Scp03
  imports Cmac Outcome
begin

text \<open>
  The secure channel of \<open>gpc/src/scp03.cpp\<close>: padding, the chaining vector from the message counter,
  encryption and the MAC. A function that returns \<open>false\<close> is \<open>Fail JUBR_ERROR\<close>, the code every
  caller makes of it. The AES block functions (\<open>trezor-crypto/src/aes\<close>, table-driven third-party
  code) are an argument; the CBC loops over them, of \<open>aes_modes.c\<close>, are modelled.
\<close>

unbundle bit_operations_syntax

section \<open>CBC\<close>

text \<open>Setting a key may fail; the context it makes is the block function.\<close>

record aes_lib =
  aes_encrypt_key :: "u8 list \<Rightarrow> (u8 list \<Rightarrow> u8 list) option"
  aes_decrypt_key :: "u8 list \<Rightarrow> (u8 list \<Rightarrow> u8 list) option"

definition xor_block :: "u8 list \<Rightarrow> u8 list \<Rightarrow> u8 list" where
  "xor_block = map2 (\<lambda>x y. x XOR y)"

fun cbc_encrypt_loop :: "(u8 list \<Rightarrow> u8 list) \<Rightarrow> nat \<Rightarrow> u8 list \<Rightarrow> u8 list \<Rightarrow> u8 list" where
  "cbc_encrypt_loop ctx 0 ibuf iv = []"
| "cbc_encrypt_loop ctx (Suc nb) ibuf iv =
     (let iv = ctx (xor_block iv (take 16 ibuf)) in iv @ cbc_encrypt_loop ctx nb (drop 16 ibuf) iv)"

fun cbc_decrypt_loop :: "(u8 list \<Rightarrow> u8 list) \<Rightarrow> nat \<Rightarrow> u8 list \<Rightarrow> u8 list \<Rightarrow> u8 list" where
  "cbc_decrypt_loop ctx 0 ibuf iv = []"
| "cbc_decrypt_loop ctx (Suc nb) ibuf iv =
     (let tmp = take 16 ibuf; obuf = xor_block (ctx (take 16 ibuf)) iv in obuf @ cbc_decrypt_loop ctx nb (drop 16 ibuf) tmp)"

definition aes_cbc_encrypt :: "(u8 list \<Rightarrow> u8 list) \<Rightarrow> u8 list \<Rightarrow> u8 list \<Rightarrow> u8 list option" where
  "aes_cbc_encrypt ctx ibuf iv =
     (if length ibuf mod 16 \<noteq> 0 then None else Some (cbc_encrypt_loop ctx (length ibuf div 16) ibuf iv))"

definition aes_cbc_decrypt :: "(u8 list \<Rightarrow> u8 list) \<Rightarrow> u8 list \<Rightarrow> u8 list \<Rightarrow> u8 list option" where
  "aes_cbc_decrypt ctx ibuf iv =
     (if length ibuf mod 16 \<noteq> 0 then None else Some (cbc_decrypt_loop ctx (length ibuf div 16) ibuf iv))"

section \<open>The channel\<close>

text \<open>The static message counter and the MAC chaining value.\<close>

record scp03 =
  scp_counter :: int
  mac_chain :: "u8 list"

definition incCounter :: "scp03 \<Rightarrow> scp03" where
  "incCounter scp = scp\<lparr>scp_counter := scp_counter scp + 1\<rparr>"

definition macChaining :: "u8 list \<Rightarrow> scp03 \<Rightarrow> scp03" where
  "macChaining chain scp = scp\<lparr>mac_chain := chain\<rparr>"

text \<open>The loop of \<open>pad80\<close> looks for the next multiple of the block size.\<close>

function pad_loop :: "nat \<Rightarrow> nat \<Rightarrow> nat" where
  "pad_loop blocksize totalLength =
     (if blocksize = 0 \<or> totalLength mod blocksize = 0 then totalLength else pad_loop blocksize (totalLength + 1))"
  by pat_completeness auto

termination
proof (relation "measure (\<lambda>(b, n). (b - n mod b) mod b)")
  fix b n :: nat assume a: "\<not> (b = 0 \<or> n mod b = 0)"
  then have "n mod b < b" by simp
  then have "(b - (n + 1) mod b) mod b < b - n mod b"
    using a by (cases "Suc (n mod b) = b") (simp_all add: mod_Suc)
  then show "((b, n + 1), b, n) \<in> measure (\<lambda>(b, n). (b - n mod b) mod b)" using a by simp
qed simp

declare pad_loop.simps [simp del]

definition pad80 :: "u8 list \<Rightarrow> nat \<Rightarrow> u8 list" where
  "pad80 text blocksize =
     (let padlength = pad_loop blocksize (length text + 1) - length text in text @ 0x80 # replicate (padlength - 1) 0)"

text \<open>\<open>unpad80\<close> looks back over zeros; with no bytes at all it reads before the array.\<close>

function unpad_loop :: "u8 list \<Rightarrow> nat \<Rightarrow> nat" where
  "unpad_loop pad offset = (if 0 < offset \<and> pad ! offset = 0 then unpad_loop pad (offset - 1) else offset)"
  by pat_completeness auto

termination
  by (relation "measure snd") auto

declare unpad_loop.simps [simp del]

definition unpad80 :: "u8 list \<Rightarrow> u8 list outcome" where
  "unpad80 pad =
     (if pad = [] then Undefined
      else
        let offset = unpad_loop pad (length pad - 1)
        in if pad ! offset \<noteq> 0x80 then Fail JUBR_ERROR else Ret (take offset pad))"

definition scp03_icv :: "aes_lib \<Rightarrow> scp03 \<Rightarrow> u8 list \<Rightarrow> bool \<Rightarrow> scp03 \<times> u8 list outcome" where
  "scp03_icv lib scp key forWrap =
     (case aes_encrypt_key lib key of
        None \<Rightarrow> (scp, Fail JUBR_ERROR)
      | Some encCtx \<Rightarrow>
          let scp = (if forWrap then scp else incCounter scp);
              counter = rev (word_of_int (scp_counter scp) # replicate 15 0);
              counter = (if forWrap then counter else counter[0 := 0x80])
          in (scp, case aes_cbc_encrypt encCtx counter (replicate 16 0) of None \<Rightarrow> Fail JUBR_ERROR | Some icv \<Rightarrow> Ret icv))"

definition scp03_encrypt :: "aes_lib \<Rightarrow> u8 list \<Rightarrow> u8 list \<Rightarrow> u8 list \<Rightarrow> u8 list outcome" where
  "scp03_encrypt lib key icv cmd =
     (case aes_encrypt_key lib key of
        None \<Rightarrow> Fail JUBR_ERROR
      | Some ctx \<Rightarrow> (case aes_cbc_encrypt ctx (pad80 cmd 16) icv of None \<Rightarrow> Fail JUBR_ERROR | Some enc \<Rightarrow> Ret enc))"

definition scp03_decrypt :: "aes_lib \<Rightarrow> u8 list \<Rightarrow> u8 list \<Rightarrow> u8 list \<Rightarrow> u8 list outcome" where
  "scp03_decrypt lib key icv enc =
     (case aes_decrypt_key lib key of
        None \<Rightarrow> Fail JUBR_ERROR
      | Some ctx \<Rightarrow> (case aes_cbc_decrypt ctx enc icv of None \<Rightarrow> Fail JUBR_ERROR | Some padded \<Rightarrow> unpad80 padded))"

text \<open>\<open>AES_CMAC\<close> reads 16 bytes of key and writes 16 bytes into an array of the key's length plus one.\<close>

definition scp03_cmac :: "u8 list \<Rightarrow> u8 list \<Rightarrow> u8 list outcome" where
  "scp03_cmac key data = (if length key < 16 then Undefined else Ret (AES_CMAC (take 16 key) data))"

section \<open>Padding and CBC are inverse\<close>

lemma pad_loop_mult: "0 < b \<Longrightarrow> \<exists>k < b. pad_loop b n = n + k \<and> (n + k) mod b = 0"
proof (induction b n rule: pad_loop.induct)
  case (1 b n)
  show ?case
  proof (cases "n mod b = 0")
    case True
    then show ?thesis using 1(2) by (intro exI[of _ 0]) (simp add: pad_loop.simps)
  next
    case False
    then obtain k where k: "k < b" "pad_loop b (n + 1) = n + 1 + k" "(n + 1 + k) mod b = 0" using 1 by auto
    have "Suc k < b"
    proof (rule ccontr)
      assume "\<not> Suc k < b"
      then have "Suc k = b" using k(1) by simp
      then have "n + 1 + k = n + b" by simp
      then have "(n + b) mod b = 0" using k(3) by metis
      then have "n mod b = 0" by simp
      then show False using False by simp
    qed
    then show ?thesis using k False 1(2) by (intro exI[of _ "Suc k"]) (simp add: pad_loop.simps[of b n])
  qed
qed

lemma pad80_shape:
  assumes "0 < b"
  obtains k where "pad80 text b = text @ 0x80 # replicate k 0" "length (pad80 text b) mod b = 0" "k < b"
proof -
  obtain k where k: "k < b" "pad_loop b (length text + 1) = length text + 1 + k" "(length text + 1 + k) mod b = 0"
    using pad_loop_mult[OF assms, of "length text + 1"] by (elim exE conjE) (rule that)
  have "pad_loop b (length text + 1) - length text - 1 = k" unfolding k(2) by simp
  then have pad: "pad80 text b = text @ 0x80 # replicate k 0" by (simp only: pad80_def Let_def)
  have "length (pad80 text b) = length text + 1 + k" unfolding pad by simp
  then show ?thesis by (intro that[OF pad _ k(1)]) (simp only: k(3))
qed

lemma unpad_loop_zeros: "length text \<le> n \<Longrightarrow> n \<le> length text + k \<Longrightarrow> unpad_loop (text @ 0x80 # replicate k 0) n = length text"
proof (induction "n - length text" arbitrary: n)
  case 0
  then have "n = length text" by simp
  then show ?case by (subst unpad_loop.simps) simp
next
  case (Suc d)
  then have "(text @ 0x80 # replicate k 0) ! n = 0" by (simp add: nth_append nth_Cons')
  moreover have "0 < n" "length text \<le> n - 1" "d = n - 1 - length text" using Suc by auto
  ultimately show ?case using Suc.hyps(1)[of "n - 1"] Suc.prems by (subst unpad_loop.simps) simp
qed

lemma unpad80_pad80:
  assumes "0 < b"
  shows "unpad80 (pad80 text b) = Ret text"
  by (rule pad80_shape[OF assms, of "text"]) (simp add: unpad80_def Let_def unpad_loop_zeros)

lemma xor_block_xor: "length a = length b \<Longrightarrow> xor_block (xor_block a b) b = a"
  unfolding xor_block_def by (rule nth_equalityI) (simp_all add: xor.assoc)

lemma xor_block_commute: "xor_block a b = xor_block b a"
  by (cases "length a \<le> length b"; rule nth_equalityI) (simp_all add: xor_block_def xor.commute min.commute)

lemma length_xor_block [simp]: "length (xor_block a b) = min (length a) (length b)"
  by (simp add: xor_block_def)

definition block_ciphers :: "(u8 list \<Rightarrow> u8 list) \<Rightarrow> (u8 list \<Rightarrow> u8 list) \<Rightarrow> bool" where
  "block_ciphers E D \<longleftrightarrow> (\<forall>b. length b = 16 \<longrightarrow> length (E b) = 16 \<and> length (D b) = 16 \<and> D (E b) = b)"

lemma cbc_loops:
  assumes "block_ciphers E D" "length iv = 16" "length p = 16 * n"
  shows "length (cbc_encrypt_loop E n p iv) = 16 * n" "cbc_decrypt_loop D n (cbc_encrypt_loop E n p iv) iv = p"
proof -
  have "length (cbc_encrypt_loop E n p iv) = 16 * n \<and> cbc_decrypt_loop D n (cbc_encrypt_loop E n p iv) iv = p"
    using assms(2,3)
  proof (induction n arbitrary: p iv)
    case (Suc n)
    let ?b = "xor_block iv (take 16 p)"
    have b: "length ?b = 16" using Suc.prems by simp
    then have c: "length (E ?b) = 16" "D (E ?b) = ?b" using assms(1) by (simp_all add: block_ciphers_def)
    have "xor_block ?b iv = take 16 p"
      using xor_block_xor[of "take 16 p" iv] Suc.prems by (simp add: xor_block_commute[of iv])
    then show ?case using Suc.IH[of "E ?b" "drop 16 p"] Suc.prems c by (simp add: Let_def)
  qed simp
  then show "length (cbc_encrypt_loop E n p iv) = 16 * n" "cbc_decrypt_loop D n (cbc_encrypt_loop E n p iv) iv = p" by simp_all
qed

lemma length_cbc_decrypt:
  assumes "block_ciphers E D" "length iv = 16" "length p = 16 * n"
  shows "length (cbc_decrypt_loop D n p iv) = 16 * n"
  using assms(2,3) by (induction n arbitrary: p iv) (use assms(1) in \<open>simp_all add: block_ciphers_def Let_def\<close>)

text \<open>Decryption runs into undefined behaviour exactly on the empty message.\<close>

lemma decrypt_undefined:
  assumes "aes_decrypt_key lib key = Some D" "block_ciphers E D" "length icv = 16"
  shows "scp03_decrypt lib key icv enc = Undefined \<longleftrightarrow> enc = []"
proof (cases "length enc mod 16 = 0")
  case True
  then obtain n where n: "length enc = 16 * n" by (auto elim: dvdE)
  have "length (cbc_decrypt_loop D n enc icv) = 16 * n" by (rule length_cbc_decrypt[OF assms(2,3) n])
  then have "cbc_decrypt_loop D n enc icv = [] \<longleftrightarrow> enc = []" using n by (metis length_0_conv)
  then show ?thesis using n assms(1) by (simp add: scp03_decrypt_def aes_cbc_decrypt_def unpad80_def Let_def)
next
  case False
  then have "enc \<noteq> []" by auto
  with False assms(1) show ?thesis by (simp add: scp03_decrypt_def aes_cbc_decrypt_def)
qed

lemma decrypt_encrypt:
  assumes "aes_encrypt_key lib key = Some E" "aes_decrypt_key lib key = Some D" "block_ciphers E D" "length icv = 16"
  shows "\<exists>enc. scp03_encrypt lib key icv cmd = Ret enc \<and> scp03_decrypt lib key icv enc = Ret cmd \<and> enc \<noteq> [] \<and> length enc \<le> length cmd + 16"
proof -
  obtain k where pad: "pad80 cmd 16 = cmd @ 0x80 # replicate k 0" "length (pad80 cmd 16) mod 16 = 0" "k < 16" by (rule pad80_shape[of 16 cmd]) simp
  then obtain n where n: "length (pad80 cmd 16) = 16 * n" by (auto elim: dvdE)
  have "0 < n" using n pad(1) by (cases n) auto
  moreover have "16 * n \<le> length cmd + 16" using n pad(1,3) by simp
  ultimately show ?thesis
    using cbc_loops[OF assms(3,4) n] n assms(1,2) unpad80_pad80[of 16 cmd]
    by (auto simp: scp03_encrypt_def scp03_decrypt_def aes_cbc_encrypt_def aes_cbc_decrypt_def)
qed

end
