(* ===== verification/Apdu.thy ===== *)
theory Apdu
  imports Scp03
begin

text \<open>
  Command and response APDUs (\<open>include/utility/Apdu.hpp\<close>) and the builder that sends them through
  the secure channel (\<open>src/device/ApduBuilder.cpp\<close>). The builder's two pointers may be null;
  calling through a null one is undefined.
\<close>

unbundle bit_operations_syntax

section \<open>APDUs\<close>

record apdu =
  cla :: u64
  ins :: u64
  p1 :: u64
  p2 :: u64
  lc :: u64
  le :: u64
  apdu_data :: "u8 list"

text \<open>Without a data pointer the data stay empty, whatever \<open>lc\<close> says.\<close>

definition SetApdu :: "u64 \<Rightarrow> u64 \<Rightarrow> u64 \<Rightarrow> u64 \<Rightarrow> u64 \<Rightarrow> u8 list option \<Rightarrow> u64 \<Rightarrow> apdu" where
  "SetApdu ncla nins np1 np2 nlc pData nle =
     \<lparr>cla = ncla, ins = nins, p1 = np1, p2 = np2, lc = nlc, le = nle,
      apdu_data = (case pData of None \<Rightarrow> [] | Some d \<Rightarrow> if nlc \<noteq> 0 then take (unat nlc) d else [])\<rparr>"

record resp_apdu =
  resp_data :: "u8 list"
  resp_cmac :: "u8 list"
  SW1 :: u8
  SW2 :: u8

text \<open>
  \<open>ResponseAPDU::decode\<close>: \<open>Ret None\<close> is the result \<open>false\<close>. The iterators it computes from the
  size are ahead of the message's start when 8 or 9 bytes came.
\<close>

definition resp_decode :: "u8 list \<Rightarrow> resp_apdu option outcome" where
  "resp_decode raw =
     (if raw = [] then Ret None
      else if length raw < 8 \<and> length raw \<noteq> 2 then Ret None
      else
        let swIndex1 = length raw - 2; swIndex2 = length raw - 1; sw1 = raw ! swIndex1; sw2 = raw ! swIndex2
        in if length raw = 2 then Ret (Some \<lparr>resp_data = [], resp_cmac = [], SW1 = sw1, SW2 = sw2\<rparr>)
           else if length raw < 10 then Undefined
           else
             let cmacIndex = length raw - 2 - 8
             in Ret (Some \<lparr>resp_data = take cmacIndex raw, resp_cmac = take (swIndex1 - cmacIndex) (drop cmacIndex raw), SW1 = sw1, SW2 = sw2\<rparr>))"

text \<open>A length field of one byte, or of three from 256 on.\<close>

definition length_field :: "u64 \<Rightarrow> u8 list" where
  "length_field l = (if 0xFF < l then [ucast (l div 0x10000), ucast (l div 0x100 mod 0x100), ucast (l mod 0x100)] else [ucast l])"

definition BuildApdu :: "apdu \<Rightarrow> u8 list outcome" where
  "BuildApdu a =
     (let v = [ucast (cla a), ucast (ins a), ucast (p1 a), ucast (p2 a)];
          v = (if lc a \<noteq> 0 then v @ length_field (lc a) else v)
      in if lc a \<noteq> 0 \<and> length (apdu_data a) < unat (lc a) then Undefined
         else
           let v = (if lc a \<noteq> 0 then v @ take (unat (lc a)) (apdu_data a) else v)
           in Ret (if le a \<noteq> 0 then v @ length_field (le a) else v))"

section \<open>The builder\<close>

record session_key =
  s_enc :: "u8 list"
  s_mac :: "u8 list"
  s_rmac :: "u8 list"

record builder =
  scp03Ptr :: "scp03 option"
  scp11Ptr :: "session_key option"

definition SetSCP03 :: "scp03 option \<Rightarrow> builder \<Rightarrow> builder" where
  "SetSCP03 ptr b = b\<lparr>scp03Ptr := ptr\<rparr>"

text \<open>\<open>is_empty\<close> is what \<open>scp11::empty\<close> answers for the object behind the pointer.\<close>

definition SetSCP11 :: "session_key option \<Rightarrow> bool \<Rightarrow> builder \<Rightarrow> builder \<times> unit outcome" where
  "SetSCP11 ptr is_empty b =
     (case ptr of
        None \<Rightarrow> (b, Undefined)
      | Some sk \<Rightarrow> if is_empty then (b, Fail JUBR_ARGUMENTS_BAD) else (b\<lparr>scp11Ptr := Some sk\<rparr>, Ret ()))"

definition IncCounter :: "builder \<Rightarrow> builder \<times> unit outcome" where
  "IncCounter b = (case scp03Ptr b of None \<Rightarrow> (b, Fail JUBR_ERROR_ARGS) | Some scp \<Rightarrow> (b\<lparr>scp03Ptr := Some (incCounter scp)\<rparr>, Ret ()))"

definition PackData :: "aes_lib \<Rightarrow> builder \<Rightarrow> u8 list \<Rightarrow> builder \<times> u8 list outcome" where
  "PackData lib b vSrc =
     (case (scp03Ptr b, scp11Ptr b) of
        (Some scp, Some sk) \<Rightarrow>
          let (scp, icv) = scp03_icv lib scp (s_enc sk) True
          in (b\<lparr>scp03Ptr := Some scp\<rparr>, and_then icv (\<lambda>icv. scp03_encrypt lib (s_enc sk) icv vSrc))
      | _ \<Rightarrow> (b, Undefined))"

definition UnPackData :: "aes_lib \<Rightarrow> builder \<Rightarrow> u8 list \<Rightarrow> builder \<times> u8 list outcome" where
  "UnPackData lib b vSrc =
     (case (scp03Ptr b, scp11Ptr b) of
        (Some scp, Some sk) \<Rightarrow>
          let (scp, icv) = scp03_icv lib scp (s_enc sk) False
          in (b\<lparr>scp03Ptr := Some scp\<rparr>, and_then icv (\<lambda>icv. scp03_decrypt lib (s_enc sk) icv vSrc))
      | _ \<Rightarrow> (b, Undefined))"

text \<open>The bytes under the MAC of a command: the chaining value, the header with the low byte of the length, the data.\<close>

definition PlusCMAC :: "builder \<Rightarrow> apdu \<Rightarrow> builder \<times> apdu outcome" where
  "PlusCMAC b a =
     (case (scp03Ptr b, scp11Ptr b) of
        (Some scp, Some sk) \<Rightarrow>
          let vEnc = apdu_data a;
              safeApdu = SetApdu (cla a) (ins a) (p1 a) (p2 a) (lc a + 8) None 0;
              safeApdu = safeApdu\<lparr>cla := cla safeApdu OR 0x04\<rparr>;
              calMAC = mac_chain scp @ [ucast (cla safeApdu), ucast (ins safeApdu), ucast (p1 safeApdu), ucast (p2 safeApdu), ucast (lc safeApdu)] @ vEnc
          in (case scp03_cmac (s_mac sk) calMAC of
                Ret outmac \<Rightarrow> (b\<lparr>scp03Ptr := Some (macChaining outmac scp)\<rparr>, Ret (safeApdu\<lparr>apdu_data := vEnc @ take 8 outmac\<rparr>))
              | Fail e \<Rightarrow> (b, Fail e)
              | Undefined \<Rightarrow> (b, Undefined))
      | _ \<Rightarrow> (b, Undefined))"

definition CheckCMAC :: "builder \<Rightarrow> resp_apdu \<Rightarrow> unit outcome" where
  "CheckCMAC b resp =
     (case (scp03Ptr b, scp11Ptr b) of
        (None, None) \<Rightarrow> Ret ()
      | (Some scp, Some sk) \<Rightarrow>
          and_then (scp03_cmac (s_rmac sk) (mac_chain scp @ resp_data resp @ [SW1 resp, SW2 resp])) (\<lambda>outmac.
            if resp_cmac resp = take 8 outmac then Ret () else Fail JUBR_ERROR)
      | _ \<Rightarrow> Undefined)"

definition BuildSafeApdu :: "aes_lib \<Rightarrow> builder \<Rightarrow> apdu \<Rightarrow> builder \<times> u8 list outcome" where
  "BuildSafeApdu lib b a =
     (case PackData lib b (apdu_data a) of
        (b, Ret vEnc) \<Rightarrow>
          let encApdu = SetApdu (cla a) (ins a) (p1 a) (p2 a) (word_of_nat (length vEnc)) (Some vEnc) 0
          in (case PlusCMAC b encApdu of
                (b, Ret safeApdu) \<Rightarrow> (b, BuildApdu safeApdu)
              | (b, Fail e) \<Rightarrow> (b, Fail e)
              | (b, Undefined) \<Rightarrow> (b, Undefined))
      | (b, Fail e) \<Rightarrow> (b, Fail e)
      | (b, Undefined) \<Rightarrow> (b, Undefined))"

text \<open>
  The result is the status word and, when the caller passed a buffer of \<open>cap\<close> bytes and the status
  is 9000, the decrypted data.
\<close>

definition ParseSafeApduResp :: "aes_lib \<Rightarrow> builder \<Rightarrow> u8 list \<Rightarrow> nat option \<Rightarrow> builder \<times> (nat \<times> u8 list option) outcome" where
  "ParseSafeApduResp lib b resp cap =
     (case resp_decode resp of
        Undefined \<Rightarrow> (b, Undefined)
      | Fail e \<Rightarrow> (b, Fail e)
      | Ret None \<Rightarrow> (b, Fail JUBR_ARGUMENTS_BAD)
      | Ret (Some respApdu) \<Rightarrow>
          let wRet = unat (SW1 respApdu) * 0x100 + unat (SW2 respApdu)
          in if wRet \<noteq> 0x9000 then (fst (IncCounter b), Ret (wRet, None))
             else (case CheckCMAC b respApdu of
                     Undefined \<Rightarrow> (b, Undefined)
                   | Fail e \<Rightarrow> (b, Fail e)
                   | Ret _ \<Rightarrow>
                       (case UnPackData lib b (resp_data respApdu) of
                          (b, Ret vDec) \<Rightarrow>
                            (b, case cap of None \<Rightarrow> Ret (wRet, None)
                                | Some n \<Rightarrow> if n < length (resp_data respApdu) then Fail JUBR_BUFFER_TOO_SMALL else Ret (wRet, Some vDec))
                        | (b, Fail e) \<Rightarrow> (b, Fail e)
                        | (b, Undefined) \<Rightarrow> (b, Undefined))))"

section \<open>What the card has to do\<close>

text \<open>
  The other end of the channel, as GlobalPlatform SCP03 has it: the chaining vectors of command and
  response \<open>c\<close>, and the MACs. \<open>builder_for\<close> is a builder with a key whose block cipher is known.
\<close>

definition command_icv :: "(u8 list \<Rightarrow> u8 list) \<Rightarrow> int \<Rightarrow> u8 list" where
  "command_icv E c = E (replicate 15 0 @ [word_of_int c])"

definition response_icv :: "(u8 list \<Rightarrow> u8 list) \<Rightarrow> int \<Rightarrow> u8 list" where
  "response_icv E c = E (0x80 # replicate 14 0 @ [word_of_int c])"

definition command_head :: "apdu \<Rightarrow> u8 list" where
  "command_head a = [ucast (cla a OR 4), ucast (ins a), ucast (p1 a), ucast (p2 a)]"

definition command_mac :: "session_key \<Rightarrow> u8 list \<Rightarrow> apdu \<Rightarrow> u8 list \<Rightarrow> u8 list" where
  "command_mac sk chain a enc = AES_CMAC (take 16 (s_mac sk)) (chain @ command_head a @ [word_of_nat (length enc + 8)] @ enc)"

definition response_mac :: "session_key \<Rightarrow> u8 list \<Rightarrow> u8 list \<Rightarrow> u8 list" where
  "response_mac sk chain enc = AES_CMAC (take 16 (s_rmac sk)) (chain @ enc @ [0x90, 0])"

definition keys_ok :: "aes_lib \<Rightarrow> session_key \<Rightarrow> (u8 list \<Rightarrow> u8 list) \<Rightarrow> (u8 list \<Rightarrow> u8 list) \<Rightarrow> bool" where
  "keys_ok lib sk E D \<longleftrightarrow> aes_encrypt_key lib (s_enc sk) = Some E \<and> aes_decrypt_key lib (s_enc sk) = Some D
     \<and> block_ciphers E D \<and> 16 \<le> length (s_mac sk) \<and> 16 \<le> length (s_rmac sk)"

lemma keys_okD:
  assumes "keys_ok lib sk E D"
  shows "aes_encrypt_key lib (s_enc sk) = Some E" "aes_decrypt_key lib (s_enc sk) = Some D" "block_ciphers E D"
    "16 \<le> length (s_mac sk)" "16 \<le> length (s_rmac sk)"
  using assms by (simp_all add: keys_ok_def)

lemma xor_block_zero: "length b = n \<Longrightarrow> xor_block (replicate n 0) b = b"
  unfolding xor_block_def by (rule nth_equalityI) simp_all

lemma icv_values:
  assumes "aes_encrypt_key lib key = Some E"
  shows "scp03_icv lib scp key True = (scp, Ret (command_icv E (scp_counter scp)))"
    "scp03_icv lib scp key False = (incCounter scp, Ret (response_icv E (scp_counter scp + 1)))"
proof -
  have "cbc_encrypt_loop E 1 b (replicate 16 0) = E b" if "length b = 16" for b
    using that xor_block_zero[OF that] by (simp add: Let_def)
  then have cbc: "aes_cbc_encrypt E b (replicate 16 0) = Some (E b)" if "length b = 16" for b
    using that by (simp add: aes_cbc_encrypt_def)
  have "rev (c # replicate 15 0) = replicate 15 0 @ [c]" for c :: u8 by simp
  moreover have "(replicate 15 0 @ [c])[0 := 0x80] = 0x80 # replicate 14 0 @ [c]" for c :: u8 by (simp add: numeral_nat)
  ultimately show "scp03_icv lib scp key True = (scp, Ret (command_icv E (scp_counter scp)))"
    "scp03_icv lib scp key False = (incCounter scp, Ret (response_icv E (scp_counter scp + 1)))"
    by (simp_all only: scp03_icv_def Let_def assms option.case if_True if_False command_icv_def response_icv_def)
      (simp_all add: cbc incCounter_def)
qed

lemma length_icv:
  assumes "block_ciphers E D"
  shows "length (command_icv E c) = 16" "length (response_icv E c) = 16"
  using assms by (simp_all add: block_ciphers_def command_icv_def response_icv_def)

lemma length_mac:
  "16 \<le> length (s_mac sk) \<Longrightarrow> length (command_mac sk chain a enc) = 16"
  "16 \<le> length (s_rmac sk) \<Longrightarrow> length (response_mac sk chain enc) = 16"
  by (simp_all add: command_mac_def response_mac_def CMAC_spec)

section \<open>Commands\<close>

lemma PackData_encrypts:
  assumes "scp03Ptr b = Some scp" "scp11Ptr b = Some sk" "keys_ok lib sk E D"
  shows "PackData lib b data = (b, scp03_encrypt lib (s_enc sk) (command_icv E (scp_counter scp)) data)"
  using assms icv_values(1)[OF keys_okD(1)[OF assms(3)], of scp]
  by (simp add: PackData_def Let_def)

lemma ucast_word_of_nat: "ucast (word_of_nat n :: u64) = (word_of_nat n :: u8)"
  by (rule bit_word_eqI) (auto simp: bit_simps)

lemma low_length: "ucast (word_of_nat n + 8 :: u64) = (word_of_nat n + 8 :: u8)"
  using ucast_word_of_nat[of "n + 8"] by simp

lemma PlusCMAC_adds:
  assumes "scp03Ptr b = Some scp" "scp11Ptr b = Some sk" "16 \<le> length (s_mac sk)"
    and "a = SetApdu (cla c) (ins c) (p1 c) (p2 c) (word_of_nat (length enc)) (Some enc) 0" and "length enc + 8 < 2 ^ 64" and "enc \<noteq> []"
  defines "mac \<equiv> command_mac sk (mac_chain scp) c enc"
  shows "PlusCMAC b a = (b\<lparr>scp03Ptr := Some (macChaining mac scp)\<rparr>,
    Ret \<lparr>cla = cla c OR 4, ins = ins c, p1 = p1 c, p2 = p2 c, lc = word_of_nat (length enc + 8), le = 0, apdu_data = enc @ take 8 mac\<rparr>)"
proof -
  have u: "unat (word_of_nat (length enc) :: u64) = length enc" using assms(5) by (simp add: unat_of_nat)
  have "word_of_nat (length enc) \<noteq> (0 :: u64)"
  proof
    assume "word_of_nat (length enc) = (0 :: u64)"
    with u have "length enc = 0" by simp
    then show False using assms(6) by simp
  qed
  with u have data: "apdu_data a = enc" by (simp add: assms(4) SetApdu_def)
  show ?thesis
    using assms(1-3) data
    by (simp add: PlusCMAC_def Let_def scp03_cmac_def mac_def command_mac_def command_head_def assms(4) SetApdu_def low_length)
qed

lemma BuildApdu_fits:
  assumes "unat (lc a) = length (apdu_data a)" "apdu_data a \<noteq> []" "le a = 0"
  shows "BuildApdu a = Ret ([ucast (cla a), ucast (ins a), ucast (p1 a), ucast (p2 a)] @ length_field (lc a) @ apdu_data a)"
proof -
  have "lc a \<noteq> 0" using assms(1,2) by auto
  then show ?thesis using assms by (simp add: BuildApdu_def Let_def)
qed

text \<open>The command that leaves the builder, and the chaining value it keeps.\<close>

lemma BuildSafeApdu_sends:
  assumes b: "scp03Ptr b = Some scp" "scp11Ptr b = Some sk" and keys: "keys_ok lib sk E D" and "length (apdu_data a) < 2 ^ 32"
  shows "\<exists>enc. scp03_encrypt lib (s_enc sk) (command_icv E (scp_counter scp)) (apdu_data a) = Ret enc
    \<and> scp03_decrypt lib (s_enc sk) (command_icv E (scp_counter scp)) enc = Ret (apdu_data a)
    \<and> BuildSafeApdu lib b a = (b\<lparr>scp03Ptr := Some (macChaining (command_mac sk (mac_chain scp) a enc) scp)\<rparr>,
        Ret (command_head a @ length_field (word_of_nat (length enc + 8)) @ enc @ take 8 (command_mac sk (mac_chain scp) a enc)))"
proof -
  note k = keys_okD[OF keys]
  obtain enc where enc: "scp03_encrypt lib (s_enc sk) (command_icv E (scp_counter scp)) (apdu_data a) = Ret enc"
    "scp03_decrypt lib (s_enc sk) (command_icv E (scp_counter scp)) enc = Ret (apdu_data a)" "enc \<noteq> []"
    "length enc \<le> length (apdu_data a) + 16"
    using decrypt_encrypt[OF k(1-3) length_icv(1)[OF k(3), of "scp_counter scp"], of "apdu_data a"] by (elim exE conjE) (rule that)
  let ?mac = "command_mac sk (mac_chain scp) a enc"
  have len: "length enc + 8 < 2 ^ 64" using enc(4) assms(4) by simp
  have u: "unat (word_of_nat (length enc + 8) :: u64) = length enc + 8" using len by (subst unat_of_nat) simp
  have "length ?mac = 16" by (rule length_mac(1)) (rule k(4))
  then have "BuildApdu \<lparr>cla = cla a OR 4, ins = ins a, p1 = p1 a, p2 = p2 a, lc = word_of_nat (length enc + 8), le = 0, apdu_data = enc @ take 8 ?mac\<rparr>
    = Ret (command_head a @ length_field (word_of_nat (length enc + 8)) @ enc @ take 8 ?mac)"
    using u enc(3) by (subst BuildApdu_fits) (simp_all only: apdu.simps command_head_def length_append length_take, simp_all)
  then have "BuildSafeApdu lib b a = (b\<lparr>scp03Ptr := Some (macChaining ?mac scp)\<rparr>,
        Ret (command_head a @ length_field (word_of_nat (length enc + 8)) @ enc @ take 8 ?mac))"
    unfolding BuildSafeApdu_def PackData_encrypts[OF b keys] enc(1) Let_def
    by (simp only: prod.case outcome.case PlusCMAC_adds[OF b k(4) refl len enc(3)])
  with enc(1,2) show ?thesis by blast
qed

section \<open>Responses\<close>

lemma resp_decode_parts:
  assumes "length mac = 8"
  shows "resp_decode (enc @ mac @ [s1, s2]) = Ret (Some \<lparr>resp_data = enc, resp_cmac = mac, SW1 = s1, SW2 = s2\<rparr>)"
  using assms by (simp add: resp_decode_def Let_def nth_append)

lemma CheckCMAC_iff:
  assumes "scp03Ptr b = Some scp" "scp11Ptr b = Some sk" "16 \<le> length (s_rmac sk)"
  shows "CheckCMAC b \<lparr>resp_data = enc, resp_cmac = mac, SW1 = 0x90, SW2 = 0\<rparr>
    = (if mac = take 8 (response_mac sk (mac_chain scp) enc) then Ret () else Fail JUBR_ERROR)"
  using assms by (simp add: CheckCMAC_def scp03_cmac_def response_mac_def)

lemma UnPackData_decrypts:
  assumes "scp03Ptr b = Some scp" "scp11Ptr b = Some sk" "keys_ok lib sk E D"
  shows "UnPackData lib b enc = (b\<lparr>scp03Ptr := Some (incCounter scp)\<rparr>,
    scp03_decrypt lib (s_enc sk) (response_icv E (scp_counter scp + 1)) enc)"
  using assms icv_values(2)[OF keys_okD(1)[OF assms(3)], of scp]
  by (simp add: UnPackData_def Let_def)

lemma ParseSafeApduResp_ok:
  assumes b: "scp03Ptr b = Some scp" "scp11Ptr b = Some sk" and keys: "keys_ok lib sk E D" and "length mac = 8"
  shows "ParseSafeApduResp lib b (enc @ mac @ [0x90, 0]) cap =
    (if mac \<noteq> take 8 (response_mac sk (mac_chain scp) enc) then (b, Fail JUBR_ERROR)
     else (b\<lparr>scp03Ptr := Some (incCounter scp)\<rparr>,
       and_then (scp03_decrypt lib (s_enc sk) (response_icv E (scp_counter scp + 1)) enc) (\<lambda>dec.
         case cap of None \<Rightarrow> Ret (0x9000, None)
         | Some n \<Rightarrow> if n < length enc then Fail JUBR_BUFFER_TOO_SMALL else Ret (0x9000, Some dec))))"
  unfolding ParseSafeApduResp_def resp_decode_parts[OF assms(4)]
  by (cases "scp03_decrypt lib (s_enc sk) (response_icv E (scp_counter scp + 1)) enc")
    (simp_all add: Let_def CheckCMAC_iff[OF b keys_okD(5)[OF keys]] UnPackData_decrypts[OF b keys] split: option.split)

lemma decode_defined:
  "resp_decode raw = Undefined \<longleftrightarrow> length raw \<in> {8, 9}"
  by (cases "raw = []") (auto simp: resp_decode_def Let_def)

text \<open>What \<open>decode\<close> makes of a message that has room for a MAC, and of every other one.\<close>

lemma resp_decode_cases:
  assumes "resp_decode raw = Ret (Some r)"
  shows "(\<exists>s1 s2. raw = [s1, s2] \<and> r = \<lparr>resp_data = [], resp_cmac = [], SW1 = s1, SW2 = s2\<rparr>) \<or>
    (\<exists>enc mac s1 s2. raw = enc @ mac @ [s1, s2] \<and> length mac = 8 \<and> r = \<lparr>resp_data = enc, resp_cmac = mac, SW1 = s1, SW2 = s2\<rparr>)"
proof (cases "length raw = 2")
  case True
  then obtain s1 s2 where raw: "raw = [s1, s2]" by (auto simp: numeral_2_eq_2 length_Suc_conv)
  then show ?thesis using assms by (simp add: resp_decode_def)
next
  case False
  then have l: "10 \<le> length raw"
    using assms by (simp add: resp_decode_def Let_def split: if_splits)
  define enc where "enc = take (length raw - 10) raw"
  define mac where "mac = take 8 (drop (length raw - 10) raw)"
  have two: "length (drop (length raw - 2) raw) = 2" using l by simp
  then obtain s1 s2 where s: "drop (length raw - 2) raw = [s1, s2]"
    by (auto simp: numeral_2_eq_2 length_Suc_conv simp del: length_drop)
  have "drop 8 (drop (length raw - 10) raw) = drop (length raw - 2) raw" using l by (simp add: drop_drop)
  then have raw: "raw = enc @ mac @ [s1, s2]" unfolding enc_def mac_def by (metis append_take_drop_id s)
  have m: "length mac = 8" unfolding mac_def using l by simp
  show ?thesis using assms raw m resp_decode_parts[OF m, of enc s1 s2] by auto
qed

lemma status_9000: "unat (s1 :: u8) * 0x100 + unat (s2 :: u8) = 0x9000 \<longleftrightarrow> s1 = 0x90 \<and> s2 = 0"
proof
  assume a: "unat s1 * 0x100 + unat s2 = 0x9000"
  moreover have "unat s2 < 0x100" using unsigned_less[of s2] by simp
  ultimately have "unat s1 = 0x90" "unat s2 = 0" by presburger+
  then show "s1 = 0x90 \<and> s2 = 0" by (simp add: word_unat_eq_iff)
qed simp

text \<open>A response that the caller gets to see was counted, and a status of 9000 comes with a valid MAC.\<close>

lemma ParseSafeApduResp_authentic:
  assumes b: "scp03Ptr b = Some scp" "scp11Ptr b = Some sk" and keys: "keys_ok lib sk E D"
    and ret: "ParseSafeApduResp lib b raw cap = (b', Ret (sw, r))"
  shows "b' = b\<lparr>scp03Ptr := Some (incCounter scp)\<rparr> \<and>
    (if sw \<noteq> 0x9000 then r = None
     else \<exists>enc dec. raw = enc @ take 8 (response_mac sk (mac_chain scp) enc) @ [0x90, 0]
       \<and> scp03_decrypt lib (s_enc sk) (response_icv E (scp_counter scp + 1)) enc = Ret dec
       \<and> r = map_option (\<lambda>_. dec) cap)"
proof -
  obtain rapdu where d: "resp_decode raw = Ret (Some rapdu)"
    using ret by (auto simp: ParseSafeApduResp_def split: outcome.splits option.splits)
  show ?thesis
  proof (cases "unat (SW1 rapdu) * 0x100 + unat (SW2 rapdu) = 0x9000")
    case False
    then show ?thesis using ret d b by (auto simp: ParseSafeApduResp_def Let_def IncCounter_def)
  next
    case True
    then have s: "SW1 rapdu = 0x90" "SW2 rapdu = 0" by (simp_all add: status_9000)
    from resp_decode_cases[OF d] show ?thesis
    proof (elim disjE exE conjE)
      fix s1 s2 assume r: "rapdu = \<lparr>resp_data = [], resp_cmac = [], SW1 = s1, SW2 = s2\<rparr>"
      then have "s1 = 0x90" "s2 = 0" using s by simp_all
      then have "CheckCMAC b rapdu = Fail JUBR_ERROR"
        using r CheckCMAC_iff[OF b keys_okD(5)[OF keys], of "[]" "[]"] length_mac(2)[OF keys_okD(5)[OF keys], of "mac_chain scp" "[]"] by auto
      then show ?thesis using ret d True by (simp add: ParseSafeApduResp_def Let_def)
    next
      fix enc mac s1 s2 assume r: "raw = enc @ mac @ [s1, s2]" "length mac = 8" "rapdu = \<lparr>resp_data = enc, resp_cmac = mac, SW1 = s1, SW2 = s2\<rparr>"
      then have raw: "raw = enc @ mac @ [0x90, 0]" using s by simp
      note p = ret[unfolded raw ParseSafeApduResp_ok[OF b keys r(2)]]
      from p have m: "mac = take 8 (response_mac sk (mac_chain scp) enc)" by (simp split: if_splits)
      from p m obtain dec where dec: "scp03_decrypt lib (s_enc sk) (response_icv E (scp_counter scp + 1)) enc = Ret dec"
        by (cases "scp03_decrypt lib (s_enc sk) (response_icv E (scp_counter scp + 1)) enc") simp_all
      have "b' = b\<lparr>scp03Ptr := Some (incCounter scp)\<rparr>" "sw = 0x9000" "r = map_option (\<lambda>_. dec) cap"
        using p m dec by (auto split: option.splits if_splits)
      with raw m dec show ?thesis by auto
    qed
  qed
qed

lemma ParseSafeApduResp_undefined:
  assumes b: "scp03Ptr b = Some scp" "scp11Ptr b = Some sk" and keys: "keys_ok lib sk E D"
  shows "snd (ParseSafeApduResp lib b raw cap) = Undefined \<longleftrightarrow>
    length raw \<in> {8, 9} \<or> raw = take 8 (response_mac sk (mac_chain scp) []) @ [0x90, 0]"
proof (cases "\<exists>rapdu. resp_decode raw = Ret (Some rapdu)")
  case False
  have "length (take 8 (response_mac sk (mac_chain scp) [])) = 8"
    using length_mac(2)[OF keys_okD(5)[OF keys]] by simp
  then have "raw \<noteq> take 8 (response_mac sk (mac_chain scp) []) @ [0x90, 0]"
    using False resp_decode_parts[of "take 8 (response_mac sk (mac_chain scp) [])" "[]" "0x90" 0] by auto
  then show ?thesis using False decode_defined[of raw]
    by (auto simp: ParseSafeApduResp_def split: outcome.splits option.splits)
next
  case True
  then obtain rapdu where d: "resp_decode raw = Ret (Some rapdu)" by blast
  then have nd: "length raw \<notin> {8, 9}" using decode_defined[of raw] by auto
  have l8: "length (take 8 (response_mac sk (mac_chain scp) [])) = 8"
    using length_mac(2)[OF keys_okD(5)[OF keys]] by simp
  from resp_decode_cases[OF d] show ?thesis
  proof (elim disjE exE conjE)
    fix s1 s2 assume r: "raw = [s1, s2]" "rapdu = \<lparr>resp_data = [], resp_cmac = [], SW1 = s1, SW2 = s2\<rparr>"
    have "CheckCMAC b \<lparr>resp_data = [], resp_cmac = [], SW1 = s1, SW2 = s2\<rparr> \<noteq> Undefined"
      using b keys_okD(5)[OF keys] by (simp add: CheckCMAC_def scp03_cmac_def)
    moreover have "CheckCMAC b \<lparr>resp_data = [], resp_cmac = [], SW1 = 0x90, SW2 = 0\<rparr> = Fail JUBR_ERROR"
      using CheckCMAC_iff[OF b keys_okD(5)[OF keys], of "[]" "[]"] l8 by auto
    ultimately have "snd (ParseSafeApduResp lib b raw cap) \<noteq> Undefined"
      using d r by (auto simp: ParseSafeApduResp_def Let_def status_9000)
    then show ?thesis using nd r(1) l8 by (auto dest: arg_cong[where f = length])
  next
    fix enc mac s1 s2 assume r: "raw = enc @ mac @ [s1, s2]" "length mac = 8" "rapdu = \<lparr>resp_data = enc, resp_cmac = mac, SW1 = s1, SW2 = s2\<rparr>"
    have raw: "raw = take 8 (response_mac sk (mac_chain scp) []) @ [0x90, 0] \<longleftrightarrow>
        enc = [] \<and> mac = take 8 (response_mac sk (mac_chain scp) []) \<and> s1 = 0x90 \<and> s2 = 0"
    proof
      assume "raw = take 8 (response_mac sk (mac_chain scp) []) @ [0x90, 0]"
      moreover from this have "enc = []" using r(1,2) l8 by (auto dest: arg_cong[where f = length])
      ultimately show "enc = [] \<and> mac = take 8 (response_mac sk (mac_chain scp) []) \<and> s1 = 0x90 \<and> s2 = 0"
        using r(1,2) l8 by simp
    qed (use r in simp)
    show ?thesis
    proof (cases "s1 = 0x90 \<and> s2 = 0")
      case True
      then have p: "raw = enc @ mac @ [0x90, 0]" using r(1) by simp
      have u: "scp03_decrypt lib (s_enc sk) (response_icv E (scp_counter scp + 1)) enc = Undefined \<longleftrightarrow> enc = []"
        by (rule decrypt_undefined[OF keys_okD(2,3)[OF keys] length_icv(2)[OF keys_okD(3)[OF keys]]])
      have "snd (ParseSafeApduResp lib b raw cap) = Undefined \<longleftrightarrow> enc = [] \<and> mac = take 8 (response_mac sk (mac_chain scp) [])"
        unfolding p ParseSafeApduResp_ok[OF b keys r(2)] using u
        by (cases "scp03_decrypt lib (s_enc sk) (response_icv E (scp_counter scp + 1)) enc") (auto split: option.splits)
      then show ?thesis using raw nd True by simp
    next
      case False
      then show ?thesis unfolding raw using nd d r(3) by (simp add: ParseSafeApduResp_def Let_def status_9000)
    qed
  qed
qed

text \<open>The encryption of a response under its own MAC is taken in.\<close>

lemma response_accepted:
  assumes b: "scp03Ptr b = Some scp" "scp11Ptr b = Some sk" and keys: "keys_ok lib sk E D"
  shows "\<exists>renc. scp03_encrypt lib (s_enc sk) (response_icv E (scp_counter scp + 1)) resp = Ret renc
    \<and> (\<forall>cap \<ge> length renc. ParseSafeApduResp lib b (renc @ take 8 (response_mac sk (mac_chain scp) renc) @ [0x90, 0]) (Some cap)
         = (b\<lparr>scp03Ptr := Some (incCounter scp)\<rparr>, Ret (0x9000, Some resp)))"
proof -
  note k = keys_okD[OF keys]
  obtain renc where r: "scp03_encrypt lib (s_enc sk) (response_icv E (scp_counter scp + 1)) resp = Ret renc"
    "scp03_decrypt lib (s_enc sk) (response_icv E (scp_counter scp + 1)) renc = Ret resp"
    using decrypt_encrypt[OF k(1-3) length_icv(2)[OF k(3), of "scp_counter scp + 1"], of resp] by (elim exE conjE) (rule that)
  have "length (take 8 (response_mac sk (mac_chain scp) renc)) = 8" using length_mac(2)[OF k(5)] by simp
  from ParseSafeApduResp_ok[OF b keys this] r show ?thesis by (intro exI[of _ renc]) simp
qed

end
