(* ===== verification/Residue.thy ===== *)
theory Residue
  imports Curves
begin

text \<open>
  Calculation with residues on big numbers. \<open>rep p k x a\<close> says that the normalized number \<open>x\<close> stands
  for the residue of \<open>a\<close> modulo \<open>p\<close> and is smaller than \<open>k * p\<close>; every operation of \<open>bignum.c\<close>
  has a rule that follows the residue and the bound, so that a function which calls a dozen of them is
  verified by chaining the rules.
\<close>

definition rep :: "bignum256 \<Rightarrow> int \<Rightarrow> bignum256 \<Rightarrow> int \<Rightarrow> bool" where
  "rep p k x a \<longleftrightarrow> bn_normalized x \<and> bn_val x < k * bn_val p \<and> bn_val p dvd bn_val x - a"

lemma repD:
  assumes "rep p k x a"
  shows "bn_normalized x" "bn_val x < k * bn_val p" "bn_val p dvd bn_val x - a"
  using assms by (simp_all add: rep_def)

lemma rep_residue: "rep p k x a \<Longrightarrow> bn_val x mod bn_val p = a mod bn_val p"
  by (simp add: rep_def mod_eq_dvd_iff)

lemma rep_self: "bn_normalized x \<Longrightarrow> bn_val x < k * bn_val p \<Longrightarrow> rep p k x (bn_val x)"
  by (simp add: rep_def)

lemma rep_partly: "partly_reduced x p \<Longrightarrow> bn_val x mod bn_val p = a mod bn_val p \<Longrightarrow> rep p 2 x a"
  by (simp add: rep_def partly_reduced_def mod_eq_dvd_iff)

lemma rep_partlyD: "rep p 2 x a \<Longrightarrow> partly_reduced x p"
  by (simp add: rep_def partly_reduced_def)

lemma rep_mulable: "rep p k x a \<Longrightarrow> k \<le> 180 \<Longrightarrow> bn_prime p \<Longrightarrow> mulable x p"
proof -
  assume a: "rep p k x a" "k \<le> 180" "bn_prime p"
  have "k * bn_val p \<le> 180 * bn_val p" using a(2) bn_prime_pos[OF a(3)] by (intro mult_right_mono) simp_all
  then show ?thesis using repD(1,2)[OF a(1)] by (simp add: mulable_def)
qed

lemma rep_weaken: "rep p k x a \<Longrightarrow> k \<le> l \<Longrightarrow> bn_prime p \<Longrightarrow> rep p l x a"
proof -
  assume a: "rep p k x a" "k \<le> l" "bn_prime p"
  have "k * bn_val p \<le> l * bn_val p" using a(2) bn_prime_pos[OF a(3)] by (intro mult_right_mono) simp_all
  then show ?thesis using a(1) by (simp add: rep_def)
qed

lemma rep_cong: "rep p k x a \<Longrightarrow> bn_val p dvd a - b \<Longrightarrow> rep p k x b"
  unfolding rep_def using dvd_add[of "bn_val p" "bn_val x - a" "a - b"] by simp

lemma rep_eq: "rep p k x a \<Longrightarrow> a = b \<Longrightarrow> rep p k x b"
  by simp

lemma rep_unique:
  assumes "rep p 1 x a" "rep p 1 y a"
  shows "x = y"
proof -
  have "bn_val x mod bn_val p = bn_val y mod bn_val p" by (simp only: rep_residue[OF assms(1)] rep_residue[OF assms(2)])
  then have "bn_val x = bn_val y" using assms by (simp add: rep_def)
  then show ?thesis using assms by (simp add: rep_def bn_normalized_eq)
qed

text \<open>\<open>2 ^ 270\<close> is the capacity of a normalized number; the bounds that occur stay far below it.\<close>

lemma rep_room:
  assumes "bn_prime p" "k \<le> 1000"
  shows "k * bn_val p < 2 ^ 270"
proof -
  have "k * bn_val p \<le> 1000 * bn_val p" using assms bn_prime_pos[OF assms(1)] by (intro mult_right_mono) simp_all
  then show ?thesis using bn_prime_lt[OF assms(1)] by simp
qed

lemma rep_mult:
  assumes "bn_prime p" "rep p k x a" "rep p l y b" "k \<le> 180" "l \<le> 180"
  shows "rep p 2 (bn_multiply x y p) (a * b)"
proof -
  note M = bn_multiply_mulable[OF rep_mulable[OF assms(2,4,1)] rep_mulable[OF assms(3,5,1)] assms(1)]
  have "bn_val x * bn_val y mod bn_val p = a * b mod bn_val p"
    using repD(3)[OF assms(2)] repD(3)[OF assms(3)] by (intro mod_mult_cong) (simp_all add: mod_eq_dvd_iff)
  then show ?thesis using M by (intro rep_partly) simp_all
qed

lemma rep_subtractmod:
  assumes "bn_prime p" "rep p k x a" "rep p 2 y b" "k \<le> 900"
  shows "rep p (k + 2) (bn_subtractmod x y p) (a - b)"
proof -
  note S = bn_subtractmod_correct[OF repD(1)[OF assms(2)] repD(1)[OF assms(3)] bn_prime_normalized[OF assms(1)]]
  have n: "0 \<le> bn_val x + 2 * bn_val p - bn_val y" "bn_val x + 2 * bn_val p - bn_val y < (k + 2) * bn_val p"
    using repD(2)[OF assms(2)] repD(2)[OF assms(3)] bn_val_nonneg[of x] bn_val_nonneg[of y] unfolding distrib_right by linarith+
  moreover have "(k + 2) * bn_val p < 2 ^ 270" using rep_room[OF assms(1), of "k + 2"] assms(4) by simp
  ultimately have v: "bn_val (bn_subtractmod x y p) = bn_val x + 2 * bn_val p - bn_val y"
    unfolding S(2) by (intro mod_pos_pos_trivial) linarith+
  have "bn_val p dvd (bn_val x - a) - (bn_val y - b) + bn_val p * 2"
    by (intro dvd_add[OF dvd_diff[OF repD(3)[OF assms(2)] repD(3)[OF assms(3)]]]) simp
  then have "bn_val p dvd bn_val x + 2 * bn_val p - bn_val y - (a - b)" by (simp add: algebra_simps)
  then show ?thesis using S(1) n by (simp add: rep_def v)
qed

lemma rep_add:
  assumes "bn_prime p" "rep p k x a" "rep p l y b" "k + l \<le> 1000"
  shows "rep p (k + l) (bn_add x y) (a + b)"
proof -
  note S = bn_add_correct[OF repD(1)[OF assms(2)] repD(1)[OF assms(3)]]
  have n: "bn_val x + bn_val y < (k + l) * bn_val p"
    using repD(2)[OF assms(2)] repD(2)[OF assms(3)] unfolding distrib_right by linarith
  moreover have "(k + l) * bn_val p < 2 ^ 270" using rep_room[OF assms(1,4)] .
  ultimately have v: "bn_val (bn_add x y) = bn_val x + bn_val y"
    unfolding S(2) by (intro mod_pos_pos_trivial add_nonneg_nonneg) simp_all
  have "bn_val p dvd (bn_val x - a) + (bn_val y - b)"
    using repD(3)[OF assms(2)] repD(3)[OF assms(3)] by (rule dvd_add)
  then show ?thesis using S(1) n by (simp add: rep_def v algebra_simps)
qed

lemma rep_addmod:
  assumes "bn_prime p" "rep p k x a" "rep p l y b"
  shows "rep p 2 (bn_addmod x y p) (a + b)"
proof -
  have "(bn_val x + bn_val y) mod bn_val p = (a + b) mod bn_val p"
    using repD(3)[OF assms(2)] repD(3)[OF assms(3)] by (intro mod_add_cong) (simp_all add: mod_eq_dvd_iff)
  then show ?thesis
    using bn_addmod_correct[OF repD(1)[OF assms(2)] repD(1)[OF assms(3)] assms(1)] by (intro rep_partly) simp_all
qed

lemma rep_fast_mod:
  assumes "bn_prime p" "rep p k x a"
  shows "rep p 2 (bn_fast_mod x p) a"
proof (rule rep_partly)
  have wf: "bn_wf x" using repD(1)[OF assms(2)] by simp
  show "partly_reduced (bn_fast_mod x p) p" by (rule bn_fast_mod_partly_reduced[OF wf assms(1)])
  show "bn_val (bn_fast_mod x p) mod bn_val p = a mod bn_val p"
    unfolding bn_fast_mod_cong[OF wf assms(1)] by (rule rep_residue[OF assms(2)])
qed

lemma rep_mod:
  assumes "bn_prime p" "rep p 2 x a"
  shows "rep p 1 (bn_mod x p) a"
proof -
  note M = bn_mod_correct[OF rep_partlyD[OF assms(2)] bn_prime_normalized[OF assms(1)]]
  have "bn_val x mod bn_val p = a mod bn_val p" using repD(3)[OF assms(2)] by (simp add: mod_eq_dvd_iff)
  then have "bn_val p dvd bn_val x mod bn_val p - a" by (simp add: mod_eq_dvd_iff[symmetric])
  then show ?thesis using M bn_prime_pos[OF assms(1)] by (simp add: rep_def)
qed

lemma rep_mult_k:
  assumes "bn_prime p" "rep p l x a" "k \<le> 4"
  shows "rep p 2 (bn_mult_k x k p) (uint k * a)"
proof (rule rep_partly)
  note M = bn_mult_k_correct[OF repD(1)[OF assms(2)] assms(3,1)]
  show "partly_reduced (bn_mult_k x k p) p" by (rule M(1))
  have "bn_val x mod bn_val p = a mod bn_val p" using repD(3)[OF assms(2)] by (simp add: mod_eq_dvd_iff)
  then show "bn_val (bn_mult_k x k p) mod bn_val p = uint k * a mod bn_val p"
    unfolding M(2) by (rule mod_mult_cong[OF refl])
qed

lemma rep_lshift:
  assumes "bn_prime p" "rep p k x a" "k \<le> 500"
  shows "rep p (2 * k) (bn_lshift x) (2 * a)"
proof -
  note S = bn_lshift_correct[OF repD(1)[OF assms(2)]]
  have n: "2 * bn_val x < 2 * k * bn_val p" using repD(2)[OF assms(2)] by simp
  moreover have "2 * k * bn_val p < 2 ^ 270" using rep_room[OF assms(1), of "2 * k"] assms(3) by simp
  ultimately have v: "bn_val (bn_lshift x) = 2 * bn_val x"
    unfolding S(2) by (intro mod_pos_pos_trivial) simp_all
  have "bn_val p dvd 2 * (bn_val x - a)" using repD(3)[OF assms(2)] by (rule dvd_mult)
  then show ?thesis using S(1) n by (simp add: rep_def v algebra_simps)
qed

lemma rep_mult_half:
  assumes "bn_prime p" "odd (bn_val p)" "rep p k x a" "1 \<le> k" "bn_val p dvd 2 * h - a"
  shows "rep p k (bn_mult_half x p) h"
proof -
  note H = bn_mult_half_correct[OF repD(1)[OF assms(3)] assms(1,2)]
  have "2 * bn_val (bn_mult_half x p) \<le> bn_val x + bn_val p" using H(2) bn_prime_pos[OF assms(1)] by simp
  moreover have "bn_val p \<le> k * bn_val p" using mult_right_mono[OF assms(4), of "bn_val p"] bn_prime_pos[OF assms(1)] by simp
  ultimately have lt: "bn_val (bn_mult_half x p) < k * bn_val p" using repD(2)[OF assms(3)] by linarith
  have "bn_val p dvd 2 * bn_val (bn_mult_half x p) - bn_val x" using H(2) by simp
  then have "bn_val p dvd (2 * bn_val (bn_mult_half x p) - bn_val x) + (bn_val x - a) - (2 * h - a)"
    by (intro dvd_diff[OF dvd_add[OF _ repD(3)[OF assms(3)]] assms(5)])
  then have "bn_val p dvd 2 * (bn_val (bn_mult_half x p) - h)" by (simp add: algebra_simps)
  moreover have "coprime (bn_val p) 2" using assms(2) by simp
  ultimately have "bn_val p dvd bn_val (bn_mult_half x p) - h" by (metis coprime_dvd_mult_right_iff)
  then show ?thesis using H(1) lt by (simp add: rep_def)
qed

lemma rep_subi:
  assumes "bn_prime p" "rep p k x a" "b \<le> val p ! 0" "k \<le> 900"
  shows "rep p (k + 1) (bn_subi x b p) (a - uint b)"
proof -
  note S = bn_subi_correct[OF repD(1)[OF assms(2)] bn_prime_normalized[OF assms(1)] assms(3)]
  have "uint b < 2 ^ 32" using uint_lt2p[of b] by simp
  then have "uint b \<le> bn_val p" using assms(1) by (simp add: bn_prime_def)
  then have n: "0 \<le> bn_val x + bn_val p - uint b" "bn_val x + bn_val p - uint b < (k + 1) * bn_val p"
    using repD(2)[OF assms(2)] bn_val_nonneg[of x] uint_nonnegative[of b] unfolding distrib_right by linarith+
  moreover have "(k + 1) * bn_val p < 2 ^ 270" using rep_room[OF assms(1), of "k + 1"] assms(4) by simp
  ultimately have v: "bn_val (bn_subi x b p) = bn_val x + bn_val p - uint b"
    unfolding S(2) by (intro mod_pos_pos_trivial) linarith+
  have "bn_val p dvd (bn_val x - a) + bn_val p" using repD(3)[OF assms(2)] by (intro dvd_add) simp_all
  then show ?thesis using S(1) n by (simp add: rep_def v algebra_simps)
qed

lemma rep_inverse:
  assumes "bn_prime p" "2 \<le> uint (val p ! 0)" "rep p k x a" "k \<le> 180" "a ^ nat (bn_val p - 1) mod bn_val p = 1"
  shows "\<exists>i. rep p 1 (bn_inverse x p) i \<and> bn_val p dvd a * i - 1"
proof -
  note I = bn_inverse_power[OF rep_mulable[OF assms(3,4,1)] assms(1,2)]
  have xa: "bn_val x mod bn_val p = a mod bn_val p" using repD(3)[OF assms(3)] by (simp add: mod_eq_dvd_iff)
  have "2 < bn_val p" using assms(1) by (simp add: bn_prime_def)
  then have n: "nat (bn_val p - 1) = Suc (nat (bn_val p - 2))" and p1: "1 mod bn_val p = 1" by simp_all
  have "bn_val (bn_inverse x p) = a ^ nat (bn_val p - 2) mod bn_val p"
    unfolding I(2) by (rule pow_cong_mod[OF xa])
  then have "a * bn_val (bn_inverse x p) mod bn_val p = 1 mod bn_val p"
    using assms(5) n p1 by (simp add: mod_mult_right_eq)
  then have "bn_val p dvd a * bn_val (bn_inverse x p) - 1" by (simp only: mod_eq_dvd_iff)
  moreover have "rep p 1 (bn_inverse x p) (bn_val (bn_inverse x p))"
    using I bn_prime_pos[OF assms(1)] by (intro rep_self) simp_all
  ultimately show ?thesis by blast
qed

lemma rep_one: "bn_prime p \<Longrightarrow> rep p 1 bn_one 1"
  using bn_one_correct by (simp add: rep_def bn_prime_def)

end
