(* ===== verification/EcPoint.thy ===== *)
theory EcPoint
  imports Residue
begin

text \<open>
  Points of a curve, \<open>trezor-crypto/src/ecdsa.c\<close>: the affine operations, with the pair of zeros for
  the point at infinity, and the operations on Jacobian coordinates. A pointer that is read and
  written is an argument and the result. Addition and doubling are shown to be the chord and the
  tangent construction, and to stay on the curve.
\<close>

unbundle bit_operations_syntax

section \<open>Affine points\<close>

definition point_set_infinity :: curve_point where
  "point_set_infinity = \<lparr>px = bn_zero, py = bn_zero\<rparr>"

definition point_is_infinity :: "curve_point \<Rightarrow> bool" where
  "point_is_infinity p \<longleftrightarrow> bn_is_zero (px p) \<and> bn_is_zero (py p)"

definition point_is_equal :: "curve_point \<Rightarrow> curve_point \<Rightarrow> bool" where
  "point_is_equal p q \<longleftrightarrow> bn_is_equal (px p) (px q) \<and> bn_is_equal (py p) (py q)"

definition point_is_negative_of :: "curve_point \<Rightarrow> curve_point \<Rightarrow> bool" where
  "point_is_negative_of p q =
     (if \<not> bn_is_equal (px p) (px q) then False
      else if bn_is_zero (py p) then False
      else \<not> bn_is_equal (py p) (py q))"

text \<open>\<open>-curve->a\<close> as the unsigned argument of \<open>bn_subi\<close> and \<open>bn_mult_k\<close>.\<close>

definition neg_a :: "ecdsa_curve \<Rightarrow> 'a::len word" where
  "neg_a curve = word_of_int (- curve_a curve)"

definition point_double :: "ecdsa_curve \<Rightarrow> curve_point \<Rightarrow> curve_point" where
  "point_double curve cp =
     (let prime = curve_prime curve
      in if point_is_infinity cp then cp
         else if bn_is_zero (py cp) then point_set_infinity
         else
           let lambda = py cp;
               lambda = bn_mult_k lambda 2 prime;
               lambda = bn_inverse lambda prime;
               xr = px cp;
               xr = bn_multiply xr xr prime;
               xr = bn_mult_k xr 3 prime;
               xr = bn_subi xr (neg_a curve) prime;
               lambda = bn_multiply xr lambda prime;
               xr = lambda;
               xr = bn_multiply xr xr prime;
               yr = px cp;
               yr = bn_lshift yr;
               xr = bn_subtractmod xr yr prime;
               xr = bn_fast_mod xr prime;
               xr = bn_mod xr prime;
               yr = bn_subtractmod (px cp) xr prime;
               yr = bn_multiply lambda yr prime;
               yr = bn_subtractmod yr (py cp) prime;
               yr = bn_fast_mod yr prime;
               yr = bn_mod yr prime
           in \<lparr>px = xr, py = yr\<rparr>)"

definition point_add :: "ecdsa_curve \<Rightarrow> curve_point \<Rightarrow> curve_point \<Rightarrow> curve_point" where
  "point_add curve cp1 cp2 =
     (let prime = curve_prime curve
      in if point_is_infinity cp1 then cp2
         else if point_is_infinity cp2 then cp1
         else if point_is_equal cp1 cp2 then point_double curve cp2
         else if point_is_negative_of cp1 cp2 then point_set_infinity
         else
           let inv = bn_subtractmod (px cp2) (px cp1) prime;
               inv = bn_inverse inv prime;
               lambda = bn_subtractmod (py cp2) (py cp1) prime;
               lambda = bn_multiply inv lambda prime;
               xr = lambda;
               xr = bn_multiply xr xr prime;
               yr = px cp1;
               yr = bn_addmod yr (px cp2) prime;
               xr = bn_subtractmod xr yr prime;
               xr = bn_fast_mod xr prime;
               xr = bn_mod xr prime;
               yr = bn_subtractmod (px cp1) xr prime;
               yr = bn_multiply lambda yr prime;
               yr = bn_subtractmod yr (py cp1) prime;
               yr = bn_fast_mod yr prime;
               yr = bn_mod yr prime
           in \<lparr>px = xr, py = yr\<rparr>)"

section \<open>The curve equation\<close>

definition curve_eq :: "int \<Rightarrow> int \<Rightarrow> int \<Rightarrow> int \<Rightarrow> int \<Rightarrow> bool" where
  "curve_eq p a b x y \<longleftrightarrow> p dvd y\<^sup>2 - (x ^ 3 + a * x + b)"

lemma on_curve_eq:
  "on_curve c P \<longleftrightarrow> curve_eq (bn_val (curve_prime c)) (curve_a c) (bn_val (curve_b c)) (bn_val (px P)) (bn_val (py P))"
  by (simp add: on_curve_def curve_eq_def dvd_eq_mod_eq_0)

lemma curve_eq_cong:
  assumes "p dvd x - x'" "p dvd y - y'"
  shows "curve_eq p a b x y \<longleftrightarrow> curve_eq p a b x' y'"
proof -
  have x: "x mod p = x' mod p" and y: "y mod p = y' mod p" using assms by (simp_all add: mod_eq_dvd_iff)
  have "(y\<^sup>2 - (x ^ 3 + a * x + b)) mod p = (y'\<^sup>2 - (x' ^ 3 + a * x' + b)) mod p"
    by (intro mod_diff_cong mod_add_cong mod_mult_cong pow_cong_mod x y refl)
  then show ?thesis by (simp add: curve_eq_def dvd_eq_mod_eq_0)
qed

text \<open>
  The third point of a line of slope \<open>l\<close> through a point, mirrored, lies on the curve if the line meets
  the curve at the distance \<open>d\<close> again; \<open>d = 0\<close> is the tangent.
\<close>

lemma line_on_curve:
  fixes p :: int
  assumes "curve_eq p a b x1 y1" and T: "p dvd 2 * l * y1 + l\<^sup>2 * d - 3 * x1\<^sup>2 - 3 * x1 * d - d\<^sup>2 - a"
  defines "x3 \<equiv> l\<^sup>2 - x1 - (x1 + d)"
  shows "curve_eq p a b x3 (l * (x1 - x3) - y1)"
proof -
  have "(l * (x1 - x3) - y1)\<^sup>2 - (x3 ^ 3 + a * x3 + b) = (y1\<^sup>2 - (x1 ^ 3 + a * x1 + b))
      - (x1 - x3) * (2 * l * y1 + l\<^sup>2 * d - 3 * x1\<^sup>2 - 3 * x1 * d - d\<^sup>2 - a)"
    unfolding x3_def by algebra
  then show ?thesis using assms(1) T unfolding curve_eq_def by (metis dvd_diff dvd_mult)
qed

lemma chord_condition:
  fixes p :: int
  assumes C: "curve_eq p a b x1 y1" "curve_eq p a b x2 y2" and l: "p dvd l * (x2 - x1) - (y2 - y1)" and i: "p dvd (x2 - x1) * i - 1"
  shows "p dvd 2 * l * y1 + l\<^sup>2 * (x2 - x1) - 3 * x1\<^sup>2 - 3 * x1 * (x2 - x1) - (x2 - x1)\<^sup>2 - a"
    (is "p dvd ?T")
proof -
  let ?e = "l * (x2 - x1) - (y2 - y1)"
  have "(x2 - x1) * ?T = (y2\<^sup>2 - (x2 ^ 3 + a * x2 + b)) - (y1\<^sup>2 - (x1 ^ 3 + a * x1 + b)) + ?e * (l * (x2 - x1) + y1 + y2)"
    by algebra
  moreover have "p dvd (y2\<^sup>2 - (x2 ^ 3 + a * x2 + b)) - (y1\<^sup>2 - (x1 ^ 3 + a * x1 + b)) + ?e * (l * (x2 - x1) + y1 + y2)"
    by (rule dvd_add[OF dvd_diff[OF C(2,1)[unfolded curve_eq_def]] dvd_mult2[OF l]])
  ultimately have "p dvd (x2 - x1) * ?T" by (simp only:)
  then have "p dvd (x2 - x1) * ?T * i - ?T * ((x2 - x1) * i - 1)" by (rule dvd_diff[OF dvd_mult2 dvd_mult[OF i]])
  moreover have "(x2 - x1) * ?T * i - ?T * ((x2 - x1) * i - 1) = ?T" by algebra
  ultimately show ?thesis by (simp only:)
qed

lemma tangent_condition:
  fixes p :: int
  assumes "p dvd l * (2 * y1) - (3 * x1\<^sup>2 + a)"
  shows "p dvd 2 * l * y1 + l\<^sup>2 * 0 - 3 * x1\<^sup>2 - 3 * x1 * 0 - 0\<^sup>2 - a"
  using assms by (simp add: algebra_simps)

section \<open>Addition and doubling\<close>

definition valid_point :: "ecdsa_curve \<Rightarrow> curve_point \<Rightarrow> bool" where
  "valid_point c P \<longleftrightarrow> bn_normalized (px P) \<and> bn_val (px P) < bn_val (curve_prime c)
     \<and> bn_normalized (py P) \<and> bn_val (py P) < bn_val (curve_prime c) \<and> on_curve c P"

text \<open>What the point operations need of the parameters.\<close>

definition curve_arith :: "ecdsa_curve \<Rightarrow> bool" where
  "curve_arith c \<longleftrightarrow> bn_prime (curve_prime c) \<and> odd (bn_val (curve_prime c)) \<and> 3 \<le> uint (val (curve_prime c) ! 0)
     \<and> -3 \<le> curve_a c \<and> curve_a c \<le> 0 \<and> bn_normalized (curve_b c) \<and> bn_val (curve_b c) < bn_val (curve_prime c)"

lemma curve_arithD:
  assumes "curve_arith c"
  shows "bn_prime (curve_prime c)" "odd (bn_val (curve_prime c))" "2 \<le> uint (val (curve_prime c) ! 0)"
    "neg_a c \<le> val (curve_prime c) ! 0" "uint (neg_a c :: u32) = - curve_a c" "uint (neg_a c :: u8) = - curve_a c"
    "(neg_a c :: u8) \<le> 4" "bn_normalized (curve_b c)" "bn_val (curve_b c) < bn_val (curve_prime c)"
proof -
  have a: "- curve_a c \<in> {0..3}" using assms by (auto simp: curve_arith_def)
  then have "curve_a c \<in> {-3, -2, -1, 0}" by auto
  then show n: "uint (neg_a c :: u32) = - curve_a c" "uint (neg_a c :: u8) = - curve_a c"
    by (auto simp: neg_a_def)
  show "neg_a c \<le> val (curve_prime c) ! 0" using assms n a by (simp add: word_le_def curve_arith_def)
  show "(neg_a c :: u8) \<le> 4" using n a by (simp add: word_le_def)
qed (use assms in \<open>auto simp: curve_arith_def\<close>)

lemma valid_rep:
  assumes "valid_point c P"
  shows "rep (curve_prime c) 1 (px P) (bn_val (px P))" "rep (curve_prime c) 1 (py P) (bn_val (py P))"
  using assms by (simp_all add: valid_point_def rep_self)

text \<open>\<open>third_point\<close>: the sum of two points whose line has slope \<open>l\<close>.\<close>

definition third_point :: "ecdsa_curve \<Rightarrow> int \<Rightarrow> int \<Rightarrow> int \<Rightarrow> int \<Rightarrow> curve_point \<Rightarrow> bool" where
  "third_point c l x1 x2 y1 R \<longleftrightarrow> (let x3 = l\<^sup>2 - x1 - x2 in
     rep (curve_prime c) 1 (px R) x3 \<and> rep (curve_prime c) 1 (py R) (l * (x1 - x3) - y1))"

lemma third_point_valid:
  assumes "third_point c l x1 (x1 + d) y1 R" and "curve_eq (bn_val (curve_prime c)) (curve_a c) (bn_val (curve_b c)) x1 y1"
    and "bn_val (curve_prime c) dvd 2 * l * y1 + l\<^sup>2 * d - 3 * x1\<^sup>2 - 3 * x1 * d - d\<^sup>2 - curve_a c"
  shows "valid_point c R"
proof -
  let ?x3 = "l\<^sup>2 - x1 - (x1 + d)"
  have R: "rep (curve_prime c) 1 (px R) ?x3" "rep (curve_prime c) 1 (py R) (l * (x1 - ?x3) - y1)"
    using assms(1) by (simp_all only: third_point_def Let_def)
  have "on_curve c R"
    using line_on_curve[OF assms(2,3)] curve_eq_cong[OF repD(3)[OF R(1)] repD(3)[OF R(2)]] by (simp only: on_curve_eq)
  then show ?thesis using repD(1,2)[OF R(1)] repD(1,2)[OF R(2)] by (simp add: valid_point_def)
qed

lemma rep_reduce: "bn_prime p \<Longrightarrow> rep p k x a \<Longrightarrow> rep p 1 (bn_mod (bn_fast_mod x p) p) a"
  by (rule rep_mod[OF _ rep_fast_mod])

lemma third_point_finish:
  assumes p: "bn_prime (curve_prime c)" and l: "rep (curve_prime c) 2 lambda l" and P: "valid_point c P"
    and s: "rep (curve_prime c) 2 s (bn_val (px P) + x2)"
  defines "xr \<equiv> bn_mod (bn_fast_mod (bn_subtractmod (bn_multiply lambda lambda (curve_prime c)) s (curve_prime c)) (curve_prime c)) (curve_prime c)"
  defines "yr \<equiv> bn_mod (bn_fast_mod (bn_subtractmod (bn_multiply lambda (bn_subtractmod (px P) xr (curve_prime c)) (curve_prime c))
                  (py P) (curve_prime c)) (curve_prime c)) (curve_prime c)"
  shows "third_point c l (bn_val (px P)) x2 (bn_val (py P)) \<lparr>px = xr, py = yr\<rparr>"
proof -
  note V = valid_rep[OF P] and W = rep_weaken[where k = 1 and l = 2, OF _ _ p, simplified]
  have "rep (curve_prime c) 4 (bn_subtractmod (bn_multiply lambda lambda (curve_prime c)) s (curve_prime c)) (l * l - (bn_val (px P) + x2))"
    using rep_subtractmod[OF p rep_mult[OF p l l] s] by simp
  then have "rep (curve_prime c) 1 xr (l * l - (bn_val (px P) + x2))"
    unfolding xr_def by (rule rep_reduce[OF p])
  then have x: "rep (curve_prime c) 1 xr (l\<^sup>2 - bn_val (px P) - x2)" by (rule rep_eq) algebra
  have "rep (curve_prime c) 3 (bn_subtractmod (px P) xr (curve_prime c)) (bn_val (px P) - (l\<^sup>2 - bn_val (px P) - x2))"
    using rep_subtractmod[OF p V(1) W[OF x]] by simp
  from rep_mult[OF p l this]
  have "rep (curve_prime c) 4 (bn_subtractmod (bn_multiply lambda (bn_subtractmod (px P) xr (curve_prime c)) (curve_prime c)) (py P) (curve_prime c))
      (l * (bn_val (px P) - (l\<^sup>2 - bn_val (px P) - x2)) - bn_val (py P))"
    using rep_subtractmod[OF p _ W[OF V(2)], of 2] by simp
  then have "rep (curve_prime c) 1 yr (l * (bn_val (px P) - (l\<^sup>2 - bn_val (px P) - x2)) - bn_val (py P))"
    unfolding yr_def by (rule rep_reduce[OF p])
  with x show ?thesis by (simp add: third_point_def Let_def)
qed

definition fermat :: "ecdsa_curve \<Rightarrow> int \<Rightarrow> bool" where
  "fermat c a \<longleftrightarrow> a ^ nat (bn_val (curve_prime c) - 1) mod bn_val (curve_prime c) = 1"

lemma point_add_chord:
  assumes c: "curve_arith c" and P: "valid_point c P" and Q: "valid_point c Q"
    and inf: "\<not> point_is_infinity P" "\<not> point_is_infinity Q" and x: "bn_val (px P) \<noteq> bn_val (px Q)"
    and f: "fermat c (bn_val (px Q) - bn_val (px P))"
  shows "\<exists>l. bn_val (curve_prime c) dvd l * (bn_val (px Q) - bn_val (px P)) - (bn_val (py Q) - bn_val (py P))
    \<and> third_point c l (bn_val (px P)) (bn_val (px Q)) (bn_val (py P)) (point_add c P Q)"
proof -
  let ?p = "curve_prime c"
  note p = curve_arithD(1)[OF c] and VP = valid_rep[OF P] and VQ = valid_rep[OF Q]
  note W = rep_weaken[where k = 1 and l = 2, OF _ _ p, simplified]
  have n: "\<not> bn_is_equal (px P) (px Q)" using x bn_is_equal_correct[OF repD(1)[OF VP(1)] repD(1)[OF VQ(1)]] by simp
  have dx: "rep ?p 3 (bn_subtractmod (px Q) (px P) ?p) (bn_val (px Q) - bn_val (px P))"
    and dy: "rep ?p 3 (bn_subtractmod (py Q) (py P) ?p) (bn_val (py Q) - bn_val (py P))"
    using rep_subtractmod[OF p VQ(1) W[OF VP(1)]] rep_subtractmod[OF p VQ(2) W[OF VP(2)]] by simp_all
  obtain i where i: "rep ?p 1 (bn_inverse (bn_subtractmod (px Q) (px P) ?p) ?p) i" "bn_val ?p dvd (bn_val (px Q) - bn_val (px P)) * i - 1"
    using rep_inverse[OF p curve_arithD(3)[OF c] dx _ f[unfolded fermat_def]] by auto
  let ?l = "i * (bn_val (py Q) - bn_val (py P))"
  let ?lambda = "bn_multiply (bn_inverse (bn_subtractmod (px Q) (px P) ?p) ?p) (bn_subtractmod (py Q) (py P) ?p) ?p"
  have l: "rep ?p 2 ?lambda ?l" using rep_mult[OF p i(1) dy] by simp
  have s: "rep ?p 2 (bn_addmod (px P) (px Q) ?p) (bn_val (px P) + bn_val (px Q))" by (rule rep_addmod[OF p VP(1) VQ(1)])
  have "bn_val ?p dvd ((bn_val (px Q) - bn_val (px P)) * i - 1) * (bn_val (py Q) - bn_val (py P))" using i(2) by (rule dvd_mult2)
  also have "((bn_val (px Q) - bn_val (px P)) * i - 1) * (bn_val (py Q) - bn_val (py P))
      = ?l * (bn_val (px Q) - bn_val (px P)) - (bn_val (py Q) - bn_val (py P))" by algebra
  finally show ?thesis
    using third_point_finish[OF p l P s] inf n
    by (intro exI[of _ ?l] conjI) (simp_all only: point_add_def Let_def point_is_equal_def point_is_negative_of_def simp_thms if_True if_False)
qed

lemma point_double_tangent:
  assumes c: "curve_arith c" and P: "valid_point c P" and y: "bn_val (py P) \<noteq> 0" and f: "fermat c (2 * bn_val (py P))"
  shows "\<exists>l. bn_val (curve_prime c) dvd l * (2 * bn_val (py P)) - (3 * (bn_val (px P))\<^sup>2 + curve_a c)
    \<and> third_point c l (bn_val (px P)) (bn_val (px P)) (bn_val (py P)) (point_double c P)"
proof -
  let ?p = "curve_prime c" and ?x = "bn_val (px P)" and ?y = "bn_val (py P)"
  note p = curve_arithD(1)[OF c] and V = valid_rep[OF P]
  have wf: "bn_wf (py P)" using repD(1)[OF V(2)] by simp
  have n: "\<not> point_is_infinity P" "\<not> bn_is_zero (py P)" using y by (simp_all add: point_is_infinity_def bn_is_zero_correct[OF wf])
  have y2: "rep ?p 2 (bn_mult_k (py P) 2 ?p) (2 * ?y)" using rep_mult_k[OF p V(2), of 2] by (simp add: word_le_def)
  obtain i where i: "rep ?p 1 (bn_inverse (bn_mult_k (py P) 2 ?p) ?p) i" "bn_val ?p dvd 2 * ?y * i - 1"
    using rep_inverse[OF p curve_arithD(3)[OF c] y2 _ f[unfolded fermat_def]] by auto
  have "rep ?p 2 (bn_multiply (px P) (px P) ?p) (?x * ?x)" by (rule rep_mult[OF p V(1) V(1)]) simp_all
  then have "rep ?p 2 (bn_mult_k (bn_multiply (px P) (px P) ?p) 3 ?p) (3 * (?x * ?x))"
    using rep_mult_k[OF p, of 2 _ _ 3] by (simp add: word_le_def)
  then have "rep ?p 3 (bn_subi (bn_mult_k (bn_multiply (px P) (px P) ?p) 3 ?p) (neg_a c) ?p) (3 * (?x * ?x) - - curve_a c)"
    using rep_subi[OF p _ curve_arithD(4)[OF c], of 2] curve_arithD(5)[OF c] by simp
  note m = rep_mult[OF p this i(1)]
  let ?l = "(3 * (?x * ?x) - - curve_a c) * i"
  let ?lambda = "bn_multiply (bn_subi (bn_mult_k (bn_multiply (px P) (px P) ?p) 3 ?p) (neg_a c) ?p) (bn_inverse (bn_mult_k (py P) 2 ?p) ?p) ?p"
  have l: "rep ?p 2 ?lambda ?l" using m by simp
  have s: "rep ?p 2 (bn_lshift (px P)) (?x + ?x)" using rep_lshift[OF p V(1)] by simp
  have "bn_val ?p dvd (2 * ?y * i - 1) * (3 * ?x\<^sup>2 + curve_a c)" using i(2) by (rule dvd_mult2)
  also have "(2 * ?y * i - 1) * (3 * ?x\<^sup>2 + curve_a c) = ?l * (2 * ?y) - (3 * ?x\<^sup>2 + curve_a c)" by algebra
  finally show ?thesis
    using third_point_finish[OF p l P s] n
    by (intro exI[of _ ?l] conjI) (simp_all only: point_double_def Let_def if_False)
qed

text \<open>The cases in which nothing is computed.\<close>

lemma bn_zero_correct: "bn_normalized bn_zero" "bn_val bn_zero = 0"
  by (simp_all add: bn_zero_def bn_normalized_def bn_wf_def bn_val_def eval_nat_numeral)

lemma point_add_special:
  assumes "valid_point c P" and "valid_point c Q" and "\<not> point_is_infinity P" and "\<not> point_is_infinity Q"
  shows "point_add c point_set_infinity Q = Q" "point_add c P point_set_infinity = P"
    "P = Q \<Longrightarrow> point_add c P Q = point_double c Q"
    "px P = px Q \<Longrightarrow> bn_val (py P) \<noteq> 0 \<Longrightarrow> py P \<noteq> py Q \<Longrightarrow> point_add c P Q = point_set_infinity"
proof -
  have inf: "point_is_infinity point_set_infinity"
    using bn_zero_correct bn_is_zero_correct[of bn_zero] by (simp add: point_is_infinity_def point_set_infinity_def)
  show "point_add c point_set_infinity Q = Q" "point_add c P point_set_infinity = P"
    using inf assms(3) by (simp_all add: point_add_def)
  have n: "bn_normalized (px P)" "bn_normalized (py P)" "bn_normalized (px Q)" "bn_normalized (py Q)"
    using assms(1,2) by (simp_all add: valid_point_def)
  show "P = Q \<Longrightarrow> point_add c P Q = point_double c Q"
    using assms n by (simp add: point_add_def point_is_equal_def bn_is_equal_correct)
  show "px P = px Q \<Longrightarrow> bn_val (py P) \<noteq> 0 \<Longrightarrow> py P \<noteq> py Q \<Longrightarrow> point_add c P Q = point_set_infinity"
    using assms n by (simp add: point_add_def point_is_equal_def point_is_negative_of_def bn_is_equal_correct bn_is_zero_correct bn_normalized_eq)
qed

lemma point_double_special: "point_double c point_set_infinity = point_set_infinity"
    "\<not> point_is_infinity P \<Longrightarrow> valid_point c P \<Longrightarrow> bn_val (py P) = 0 \<Longrightarrow> point_double c P = point_set_infinity"
proof -
  have "point_is_infinity point_set_infinity"
    using bn_zero_correct bn_is_zero_correct[of bn_zero] by (simp add: point_is_infinity_def point_set_infinity_def)
  then show "point_double c point_set_infinity = point_set_infinity" by (simp add: point_double_def)
  show "\<not> point_is_infinity P \<Longrightarrow> valid_point c P \<Longrightarrow> bn_val (py P) = 0 \<Longrightarrow> point_double c P = point_set_infinity"
    by (simp add: point_double_def valid_point_def bn_is_zero_correct)
qed

section \<open>Jacobian coordinates\<close>

record jacobian_curve_point =
  jx :: bignum256
  jy :: bignum256
  jz :: bignum256

text \<open>
  The random generator is the list of the words it will deliver; \<open>None\<close> when they run out. A rejected
  candidate is dropped.
\<close>

function generate_k_random :: "u32 list \<Rightarrow> bignum256 \<Rightarrow> (bignum256 \<times> u32 list) option" where
  "generate_k_random rnd prime =
     (if length rnd < 9 then None
      else
        let k = \<lparr>val = map (\<lambda>r. r AND 0x3FFFFFFF) (take 8 rnd) @ [rnd ! 8 AND 0xFFFF]\<rparr>
        in if bn_is_zero k \<or> \<not> bn_is_less k prime then generate_k_random (drop 9 rnd) prime
           else Some (k, drop 9 rnd))"
  by pat_completeness auto

termination
  by (relation "measure (\<lambda>(rnd, prime). length rnd)") auto

declare generate_k_random.simps [simp del]

definition curve_to_jacobian :: "curve_point \<Rightarrow> bignum256 \<Rightarrow> u32 list \<Rightarrow> (jacobian_curve_point \<times> u32 list) option" where
  "curve_to_jacobian p prime rnd =
     (case generate_k_random rnd prime of
        None \<Rightarrow> None
      | Some (z, rnd) \<Rightarrow>
          let x = z;
              x = bn_multiply z x prime;
              y = x;
              y = bn_multiply z y prime;
              x = bn_multiply (px p) x prime;
              y = bn_multiply (py p) y prime
          in Some (\<lparr>jx = x, jy = y, jz = z\<rparr>, rnd))"

definition jacobian_to_curve :: "jacobian_curve_point \<Rightarrow> bignum256 \<Rightarrow> curve_point" where
  "jacobian_to_curve jp prime =
     (let y = jz jp;
          y = bn_inverse y prime;
          x = y;
          x = bn_multiply x x prime;
          y = bn_multiply x y prime;
          x = bn_multiply (jx jp) x prime;
          y = bn_multiply (jy jp) y prime;
          x = bn_mod x prime;
          y = bn_mod y prime
      in \<lparr>px = x, py = y\<rparr>)"

text \<open>The C code computes \<open>az\<close> only when \<open>a\<close> is not zero, and reads it only then.\<close>

definition point_jacobian_add :: "curve_point \<Rightarrow> jacobian_curve_point \<Rightarrow> ecdsa_curve \<Rightarrow> jacobian_curve_point" where
  "point_jacobian_add p1 p2 curve =
     (let prime = curve_prime curve;
          a = curve_a curve;
          xz = jz p2;
          xz = bn_multiply xz xz prime;
          yz = jz p2;
          yz = bn_multiply xz yz prime;
          az = bn_mult_k (bn_multiply xz xz prime) (neg_a curve) prime;
          xz = bn_multiply (px p1) xz prime;
          h = xz;
          h = bn_subtractmod h (jx p2) prime;
          h = bn_fast_mod h prime;
          xz = bn_add xz (jx p2);
          is_doubling = of_bool (bn_is_equal h prime);
          yz = bn_multiply (py p1) yz prime;
          r = bn_subtractmod yz (jy p2) prime;
          yz = bn_add yz (jy p2);
          r2 = jx p2;
          r2 = bn_multiply r2 r2 prime;
          r2 = bn_mult_k r2 3 prime;
          r2 = (if a \<noteq> 0 then bn_subtractmod r2 az prime else r2);
          r = bn_cmov is_doubling r2 r;
          h = bn_cmov is_doubling yz h;
          hsqx = h;
          hsqx = bn_multiply hsqx hsqx prime;
          hcby = h;
          hcby = bn_multiply hsqx hcby prime;
          hsqx = bn_multiply xz hsqx prime;
          hcby = bn_multiply yz hcby prime;
          z3 = bn_multiply h (jz p2) prime;
          x3 = r;
          x3 = bn_multiply x3 x3 prime;
          x3 = bn_subtractmod x3 hsqx prime;
          x3 = bn_fast_mod x3 prime;
          y3 = bn_subtractmod hsqx x3 prime;
          y3 = bn_subtractmod y3 x3 prime;
          y3 = bn_multiply r y3 prime;
          y3 = bn_subtractmod y3 hcby prime;
          y3 = bn_mult_half y3 prime;
          y3 = bn_fast_mod y3 prime
      in \<lparr>jx = x3, jy = y3, jz = z3\<rparr>)"

definition point_jacobian_double :: "jacobian_curve_point \<Rightarrow> ecdsa_curve \<Rightarrow> jacobian_curve_point" where
  "point_jacobian_double p curve =
     (let prime = curve_prime curve;
          m = jx p;
          m = bn_multiply m m prime;
          m = bn_mult_k m 3 prime;
          az4 = jz p;
          az4 = bn_multiply az4 az4 prime;
          az4 = bn_multiply az4 az4 prime;
          az4 = bn_mult_k az4 (neg_a curve) prime;
          m = bn_subtractmod m az4 prime;
          m = bn_mult_half m prime;
          msq = m;
          msq = bn_multiply msq msq prime;
          ysq = jy p;
          ysq = bn_multiply ysq ysq prime;
          xysq = jx p;
          xysq = bn_multiply ysq xysq prime;
          z3 = bn_multiply (jy p) (jz p) prime;
          x3 = xysq;
          x3 = bn_lshift x3;
          x3 = bn_fast_mod x3 prime;
          x3 = bn_subtractmod msq x3 prime;
          x3 = bn_fast_mod x3 prime;
          y3 = bn_subtractmod xysq x3 prime;
          y3 = bn_multiply m y3 prime;
          ysq = bn_multiply ysq ysq prime;
          y3 = bn_subtractmod y3 ysq prime;
          y3 = bn_fast_mod y3 prime
      in \<lparr>jx = x3, jy = y3, jz = z3\<rparr>)"

section \<open>The Jacobian operations compute the affine ones\<close>

text \<open>\<open>jac c J X Y Z\<close>: the point \<open>(X, Y)\<close> in Jacobian coordinates of denominator \<open>Z\<close>.\<close>

definition jac :: "ecdsa_curve \<Rightarrow> jacobian_curve_point \<Rightarrow> int \<Rightarrow> int \<Rightarrow> int \<Rightarrow> bool" where
  "jac c J X Y Z \<longleftrightarrow> rep (curve_prime c) 2 (jx J) (X * Z\<^sup>2) \<and> rep (curve_prime c) 2 (jy J) (Y * Z ^ 3) \<and> rep (curve_prime c) 2 (jz J) Z"

lemma generate_k_random_range:
  "generate_k_random rnd p = Some (k, rnd') \<Longrightarrow> bn_prime p \<Longrightarrow> bn_normalized k \<and> bn_val k \<noteq> 0 \<and> bn_val k < bn_val p"
proof (induction rnd p rule: generate_k_random.induct)
  case (1 rnd p)
  let ?k = "\<lparr>val = map (\<lambda>r. r AND 0x3FFFFFFF) (take 8 rnd) @ [rnd ! 8 AND 0xFFFF]\<rparr>"
  have l: "9 \<le> length rnd" using 1(2) by (subst (asm) generate_k_random.simps) (auto split: if_splits)
  have m: "uint (r AND 0x3FFFFFFF) < 2 ^ 30" "uint (r AND 0xFFFF) < 2 ^ 30" for r :: u32
  proof -
    have "uint (r AND 0x3FFFFFFF) = uint r mod 2 ^ 30" "uint (r AND 0xFFFF) = uint r mod 2 ^ 16"
      using uint_take_bit[of 30 r] uint_take_bit[of 16 r] by (simp_all add: take_bit_eq_mask mask_eq_exp_minus_1)
    then show "uint (r AND 0x3FFFFFFF) < 2 ^ 30" "uint (r AND 0xFFFF) < 2 ^ 30" by simp_all
  qed
  then have n: "bn_normalized ?k" using l by (auto simp: bn_normalized_def bn_wf_def)
  show ?case
  proof (cases "bn_is_zero ?k \<or> \<not> bn_is_less ?k p")
    case True
    then show ?thesis using 1 l by (subst (asm) (2) generate_k_random.simps) (simp add: Let_def)
  next
    case False
    then have "k = ?k" using 1(2) l by (subst (asm) generate_k_random.simps) (simp add: Let_def)
    then show ?thesis using False n bn_is_less_correct[OF n bn_prime_normalized[OF 1(3)]] bn_is_zero_correct[OF bn_normalized_wf[OF n]] by simp
  qed
qed

lemma curve_to_jacobian_jac:
  assumes p: "bn_prime (curve_prime c)" and P: "valid_point c P" and J: "curve_to_jacobian P (curve_prime c) rnd = Some (J, rnd')"
  shows "jac c J (bn_val (px P)) (bn_val (py P)) (bn_val (jz J))"
proof -
  let ?p = "curve_prime c"
  obtain z where g: "generate_k_random rnd ?p = Some (z, rnd')" and j: "jx J = bn_multiply (px P) (bn_multiply z z ?p) ?p"
      "jy J = bn_multiply (py P) (bn_multiply z (bn_multiply z z ?p) ?p) ?p" "jz J = z"
    using J by (auto simp: curve_to_jacobian_def Let_def split: option.splits)
  have z: "rep ?p 1 z (bn_val z)" using generate_k_random_range[OF g p] by (intro rep_self) simp_all
  have z2: "rep ?p 2 (bn_multiply z z ?p) (bn_val z * bn_val z)" by (rule rep_mult[OF p z z]) simp_all
  have z3: "rep ?p 2 (bn_multiply z (bn_multiply z z ?p) ?p) (bn_val z * (bn_val z * bn_val z))" by (rule rep_mult[OF p z z2]) simp_all
  have "rep ?p 2 (jx J) (bn_val (px P) * (bn_val z * bn_val z))" "rep ?p 2 (jy J) (bn_val (py P) * (bn_val z * (bn_val z * bn_val z)))"
    unfolding j by (rule rep_mult[OF p valid_rep(1)[OF P] z2] rep_mult[OF p valid_rep(2)[OF P] z3]; simp)+
  then show ?thesis using rep_weaken[OF z, of 2] p by (simp add: jac_def j power2_eq_square power3_eq_cube mult.assoc)
qed

lemma jacobian_to_curve_affine:
  assumes c: "curve_arith c" and J: "jac c J X Y Z" and f: "fermat c Z"
  shows "rep (curve_prime c) 1 (px (jacobian_to_curve J (curve_prime c))) X"
    "rep (curve_prime c) 1 (py (jacobian_to_curve J (curve_prime c))) Y"
proof -
  let ?p = "curve_prime c" and ?i = "bn_inverse (jz J) (curve_prime c)"
  note p = curve_arithD(1)[OF c]
  have J': "rep ?p 2 (jx J) (X * Z\<^sup>2)" "rep ?p 2 (jy J) (Y * Z ^ 3)" "rep ?p 2 (jz J) Z" using J by (simp_all add: jac_def)
  obtain i where i: "rep ?p 1 ?i i" "bn_val ?p dvd Z * i - 1"
    using rep_inverse[OF p curve_arithD(3)[OF c] J'(3) _ f[unfolded fermat_def]] by auto
  have i2: "rep ?p 2 (bn_multiply ?i ?i ?p) (i * i)" by (rule rep_mult[OF p i(1) i(1)]) simp_all
  have i3: "rep ?p 2 (bn_multiply (bn_multiply ?i ?i ?p) ?i ?p) (i * i * i)" by (rule rep_mult[OF p i2 i(1)]) simp_all
  have x: "rep ?p 1 (px (jacobian_to_curve J ?p)) (X * Z\<^sup>2 * (i * i))"
    unfolding jacobian_to_curve_def Let_def curve_point.simps by (rule rep_mod[OF p rep_mult[OF p J'(1) i2]]) simp_all
  have y: "rep ?p 1 (py (jacobian_to_curve J ?p)) (Y * Z ^ 3 * (i * i * i))"
    unfolding jacobian_to_curve_def Let_def curve_point.simps by (rule rep_mod[OF p rep_mult[OF p J'(2) i3]]) simp_all
  have "X * Z\<^sup>2 * (i * i) - X = (Z * i - 1) * (X * (Z * i + 1))" by algebra
  then show "rep ?p 1 (px (jacobian_to_curve J ?p)) X" by (intro rep_cong[OF x]) (simp only: dvd_mult2[OF i(2)])
  have "Y * Z ^ 3 * (i * i * i) - Y = (Z * i - 1) * (Y * ((Z * i)\<^sup>2 + Z * i + 1))" by algebra
  then show "rep ?p 1 (py (jacobian_to_curve J ?p)) Y" by (intro rep_cong[OF y]) (simp only: dvd_mult2[OF i(2)])
qed

text \<open>The last part of the addition, for either kind of slope.\<close>

lemma jac_add_finish:
  assumes c: "curve_arith c" and r: "rep (curve_prime c) 4 r (l * (H * Z))" and h: "rep (curve_prime c) 4 h H"
    and xz: "rep (curve_prime c) 4 xz (Z\<^sup>2 * (x1 + X))" and yz: "rep (curve_prime c) 4 yz (Z ^ 3 * (y1 + Y))"
    and z: "rep (curve_prime c) 2 z Z" and line: "bn_val (curve_prime c) dvd l * (X - x1) - (Y - y1)"
  defines "p \<equiv> curve_prime c"
  defines "hsqx \<equiv> bn_multiply xz (bn_multiply h h p) p"
  defines "hcby \<equiv> bn_multiply yz (bn_multiply (bn_multiply h h p) h p) p"
  defines "x3 \<equiv> bn_fast_mod (bn_subtractmod (bn_multiply r r p) hsqx p) p"
  defines "y3 \<equiv> bn_fast_mod (bn_mult_half (bn_subtractmod (bn_multiply r (bn_subtractmod (bn_subtractmod hsqx x3 p) x3 p) p) hcby p) p) p"
  shows "jac c \<lparr>jx = x3, jy = y3, jz = bn_multiply h z p\<rparr> (l\<^sup>2 - x1 - X) (l * (x1 - (l\<^sup>2 - x1 - X)) - y1) (H * Z)"
proof -
  note pp = curve_arithD(1)[OF c, folded p_def] and odd = curve_arithD(2)[OF c, folded p_def]
  note r = r[folded p_def] and h = h[folded p_def] and xz = xz[folded p_def] and yz = yz[folded p_def] and z = z[folded p_def]
  have h2: "rep p 2 (bn_multiply h h p) (H * H)" by (rule rep_mult[OF pp h h]) simp_all
  have h3: "rep p 2 (bn_multiply (bn_multiply h h p) h p) (H * H * H)" by (rule rep_mult[OF pp h2 h]) simp_all
  have a: "rep p 2 hsqx (Z\<^sup>2 * (x1 + X) * (H * H))" unfolding hsqx_def by (rule rep_mult[OF pp xz h2]) simp_all
  have b: "rep p 2 hcby (Z ^ 3 * (y1 + Y) * (H * H * H))" unfolding hcby_def by (rule rep_mult[OF pp yz h3]) simp_all
  have z3: "rep p 2 (bn_multiply h z p) (H * Z)" by (rule rep_mult[OF pp h z]) simp_all
  have r2: "rep p 2 (bn_multiply r r p) (l * (H * Z) * (l * (H * Z)))" by (rule rep_mult[OF pp r r]) simp_all
  have "rep p 2 x3 (l * (H * Z) * (l * (H * Z)) - Z\<^sup>2 * (x1 + X) * (H * H))"
    unfolding x3_def by (rule rep_fast_mod[OF pp rep_subtractmod[OF pp r2 a]]) simp
  then have x3: "rep p 2 x3 ((l\<^sup>2 - x1 - X) * (H * Z)\<^sup>2)" by (rule rep_eq) algebra
  let ?x = "l\<^sup>2 - x1 - X"
  let ?d = "Z\<^sup>2 * (x1 + X) * (H * H) - ?x * (H * Z)\<^sup>2 - ?x * (H * Z)\<^sup>2"
  have "rep p 6 (bn_subtractmod (bn_subtractmod hsqx x3 p) x3 p) ?d"
    using rep_subtractmod[OF pp rep_subtractmod[OF pp a x3] x3] by simp
  then have "rep p 2 (bn_multiply r (bn_subtractmod (bn_subtractmod hsqx x3 p) x3 p) p) (l * (H * Z) * ?d)"
    by (rule rep_mult[OF pp r]) simp_all
  then have t: "rep p 4 (bn_subtractmod (bn_multiply r (bn_subtractmod (bn_subtractmod hsqx x3 p) x3 p) p) hcby p)
      (l * (H * Z) * ?d - Z ^ 3 * (y1 + Y) * (H * H * H))"
    using rep_subtractmod[OF pp _ b, of 2] by simp
  have "2 * ((l * (x1 - ?x) - y1) * (H * Z) ^ 3) - (l * (H * Z) * ?d - Z ^ 3 * (y1 + Y) * (H * H * H))
      = (l * (X - x1) - (Y - y1)) * (- ((H * Z) ^ 3))" by algebra
  then have "bn_val p dvd 2 * ((l * (x1 - ?x) - y1) * (H * Z) ^ 3) - (l * (H * Z) * ?d - Z ^ 3 * (y1 + Y) * (H * H * H))"
    using line unfolding p_def by (simp only: dvd_mult2)
  then have "rep p 2 y3 ((l * (x1 - ?x) - y1) * (H * Z) ^ 3)"
    unfolding y3_def by (intro rep_fast_mod[OF pp rep_mult_half[OF pp odd t]]) simp_all
  with x3 z3 show ?thesis by (simp add: jac_def p_def)
qed

text \<open>A positive multiple of the prime is reduced to the prime, never to zero.\<close>

lemma top_bits:
  assumes "bn_normalized x"
  shows "uint (drop_bit 16 (val x ! 8)) = bn_val x div 2 ^ 256"
proof -
  have "val x = take 8 (val x) @ [val x ! 8]"
    using assms take_Suc_conv_app_nth[of 8 "val x"] by simp
  then have v: "bn_val x = limbs_val (take 8 (val x)) + uint (val x ! 8) * 2 ^ 240"
    using limbs_val_append[of "take 8 (val x)" "[val x ! 8]"] assms by (simp add: bn_val_def)
  have "\<forall>l\<in>set (take 8 (val x)). uint l < 2 ^ 30" using assms by (auto simp: bn_normalized_def dest: in_set_takeD)
  then have "limbs_val (take 8 (val x)) < 2 ^ 240" using limbs_val_upper[of "take 8 (val x)"] assms by simp
  then have "bn_val x div 2 ^ 240 = uint (val x ! 8)" unfolding v by simp
  then have "bn_val x div 2 ^ 240 div 2 ^ 16 = uint (drop_bit 16 (val x ! 8))" by (simp add: uint_drop_bit)
  then show ?thesis by (simp flip: zdiv_zmult2_eq)
qed

lemma fast_mod_is_prime:
  assumes p: "bn_prime p" and x: "rep p 4 x a" and pos: "0 < bn_val x"
  shows "bn_is_equal (bn_fast_mod x p) p \<longleftrightarrow> bn_val p dvd a"
proof -
  note fm = rep_fast_mod[OF p x]
  have wf: "bn_wf x" using repD(1)[OF x] by simp
  have v: "bn_val (bn_fast_mod x p) = bn_val x - bn_val x div 2 ^ 256 * bn_val p"
    using bn_fast_mod_correct(2)[OF wf p] top_bits[OF repD(1)[OF x]] by simp
  have b: "2 ^ 256 - 2 ^ 224 \<le> bn_val p" "bn_val p < 2 ^ 256" using p by (simp_all add: bn_prime_def)
  have "bn_val (bn_fast_mod x p) = bn_val p" if "bn_val p dvd a"
  proof -
    have "bn_val p dvd bn_val x" using repD(3)[OF x] that by (metis dvd_add diff_add_cancel)
    then obtain j where j: "bn_val x = bn_val p * j" by (rule dvdE)
    have "0 < j" using pos bn_prime_pos[OF p] by (simp add: j zero_less_mult_iff)
    moreover have "bn_val p * j < bn_val p * 4" using repD(2)[OF x] by (simp add: j mult.commute)
    then have "j < 4" using bn_prime_pos[OF p] by simp
    ultimately have "j = 1 \<or> j = 2 \<or> j = 3" by linarith
    then have d: "bn_val x div 2 ^ 256 = j - 1"
      using b by (auto simp: j intro!: int_div_pos_eq[of _ _ _ "bn_val x - (j - 1) * 2 ^ 256"] div_pos_pos_trivial)
    show ?thesis unfolding v d unfolding j by (simp add: algebra_simps)
  qed
  moreover have "bn_val p dvd a" if "bn_val (bn_fast_mod x p) = bn_val p"
    using repD(3)[OF fm] that by (metis dvd_diff_commute dvd_refl dvd_diffD diff_add_cancel dvd_add)
  ultimately show ?thesis using bn_is_equal_correct[OF repD(1)[OF fm] bn_prime_normalized[OF p]] by blast
qed

lemma jac_add_frac:
  assumes c: "curve_arith c" and P: "valid_point c P" and J: "jac c J X Y Z"
  defines "p \<equiv> curve_prime c"
  defines "xz \<equiv> bn_multiply (px P) (bn_multiply (jz J) (jz J) p) p"
    and "yz \<equiv> bn_multiply (py P) (bn_multiply (bn_multiply (jz J) (jz J) p) (jz J) p) p"
  shows "rep p 2 xz (bn_val (px P) * Z\<^sup>2)" "rep p 2 yz (bn_val (py P) * Z ^ 3)"
    "rep p 4 (bn_subtractmod xz (jx J) p) ((bn_val (px P) - X) * Z\<^sup>2)"
    "rep p 4 (bn_subtractmod yz (jy J) p) ((bn_val (py P) - Y) * Z ^ 3)"
    "rep p 4 (bn_add xz (jx J)) (Z\<^sup>2 * (bn_val (px P) + X))" "rep p 4 (bn_add yz (jy J)) (Z ^ 3 * (bn_val (py P) + Y))"
    "bn_is_equal (bn_fast_mod (bn_subtractmod xz (jx J) p) p) p \<longleftrightarrow> bn_val p dvd (bn_val (px P) - X) * Z\<^sup>2"
proof -
  note pp = curve_arithD(1)[OF c, folded p_def] and V = valid_rep[OF P, folded p_def]
  have J': "rep p 2 (jx J) (X * Z\<^sup>2)" "rep p 2 (jy J) (Y * Z ^ 3)" "rep p 2 (jz J) Z" using J by (simp_all add: jac_def p_def)
  have z2: "rep p 2 (bn_multiply (jz J) (jz J) p) (Z * Z)" by (rule rep_mult[OF pp J'(3) J'(3)]) simp_all
  have z3: "rep p 2 (bn_multiply (bn_multiply (jz J) (jz J) p) (jz J) p) (Z * Z * Z)" by (rule rep_mult[OF pp z2 J'(3)]) simp_all
  have "rep p 2 xz (bn_val (px P) * (Z * Z))" unfolding xz_def by (rule rep_mult[OF pp V(1) z2]) simp_all
  then show x: "rep p 2 xz (bn_val (px P) * Z\<^sup>2)" by (rule rep_eq) algebra
  have "rep p 2 yz (bn_val (py P) * (Z * Z * Z))" unfolding yz_def by (rule rep_mult[OF pp V(2) z3]) simp_all
  then show y: "rep p 2 yz (bn_val (py P) * Z ^ 3)" by (rule rep_eq) algebra
  have "rep p 4 (bn_subtractmod xz (jx J) p) (bn_val (px P) * Z\<^sup>2 - X * Z\<^sup>2)" using rep_subtractmod[OF pp x J'(1)] by simp
  then show h: "rep p 4 (bn_subtractmod xz (jx J) p) ((bn_val (px P) - X) * Z\<^sup>2)" by (rule rep_eq) algebra
  have "rep p 4 (bn_subtractmod yz (jy J) p) (bn_val (py P) * Z ^ 3 - Y * Z ^ 3)" using rep_subtractmod[OF pp y J'(2)] by simp
  then show "rep p 4 (bn_subtractmod yz (jy J) p) ((bn_val (py P) - Y) * Z ^ 3)" by (rule rep_eq) algebra
  have "rep p 4 (bn_add xz (jx J)) (bn_val (px P) * Z\<^sup>2 + X * Z\<^sup>2)" using rep_add[OF pp x J'(1)] by simp
  then show "rep p 4 (bn_add xz (jx J)) (Z\<^sup>2 * (bn_val (px P) + X))" by (rule rep_eq) algebra
  have "rep p 4 (bn_add yz (jy J)) (bn_val (py P) * Z ^ 3 + Y * Z ^ 3)" using rep_add[OF pp y J'(2)] by simp
  then show "rep p 4 (bn_add yz (jy J)) (Z ^ 3 * (bn_val (py P) + Y))" by (rule rep_eq) algebra
  have "bn_val (bn_subtractmod xz (jx J) p) = bn_val xz + 2 * bn_val p - bn_val (jx J)"
  proof -
    have "0 \<le> bn_val xz + 2 * bn_val p - bn_val (jx J)" "bn_val xz + 2 * bn_val p - bn_val (jx J) < 1000 * bn_val p"
      using repD(2)[OF x] repD(2)[OF J'(1)] bn_val_nonneg[of xz] bn_val_nonneg[of "jx J"] bn_prime_pos[OF pp] by linarith+
    moreover have "1000 * bn_val p < 2 ^ 270" by (rule rep_room[OF pp]) simp
    ultimately show ?thesis
      unfolding bn_subtractmod_correct(2)[OF repD(1)[OF x] repD(1)[OF J'(1)] bn_prime_normalized[OF pp]]
      by (intro mod_pos_pos_trivial) linarith+
  qed
  then have "0 < bn_val (bn_subtractmod xz (jx J) p)" using repD(2)[OF J'(1)] bn_val_nonneg[of xz] by linarith
  then show "bn_is_equal (bn_fast_mod (bn_subtractmod xz (jx J) p) p) p \<longleftrightarrow> bn_val p dvd (bn_val (px P) - X) * Z\<^sup>2"
    by (rule fast_mod_is_prime[OF pp h])
qed

lemma jac_add_r2:
  assumes c: "curve_arith c" and J: "jac c J X Y Z"
  defines "p \<equiv> curve_prime c"
  defines "az \<equiv> bn_mult_k (bn_multiply (bn_multiply (jz J) (jz J) p) (bn_multiply (jz J) (jz J) p) p) (neg_a c) p"
    and "xx \<equiv> bn_mult_k (bn_multiply (jx J) (jx J) p) 3 p"
  shows "rep p 4 (if curve_a c \<noteq> 0 then bn_subtractmod xx az p else xx) ((3 * X\<^sup>2 + curve_a c) * Z ^ 4)"
proof -
  note pp = curve_arithD(1)[OF c, folded p_def]
  have J': "rep p 2 (jx J) (X * Z\<^sup>2)" "rep p 2 (jz J) Z" using J by (simp_all add: jac_def p_def)
  note x2 = rep_mult[OF pp J'(1) J'(1), simplified] and z2 = rep_mult[OF pp J'(2) J'(2), simplified]
  note z4 = rep_mult[OF pp z2 z2, simplified]
  have xx: "rep p 2 xx (3 * (X * Z\<^sup>2 * (X * Z\<^sup>2)))"
    unfolding xx_def using rep_mult_k[OF pp x2, of 3] by (simp add: word_le_def)
  have az: "rep p 2 az (- curve_a c * (Z * Z * (Z * Z)))"
    unfolding az_def using rep_mult_k[OF pp z4 curve_arithD(7)[OF c]] curve_arithD(6)[OF c] by simp
  show ?thesis
  proof (cases "curve_a c = 0")
    case True
    have "rep p 4 xx (3 * (X * Z\<^sup>2 * (X * Z\<^sup>2)))" by (rule rep_weaken[OF xx _ pp]) simp
    then have "rep p 4 xx ((3 * X\<^sup>2 + curve_a c) * Z ^ 4)" by (rule rep_eq) (use True in algebra)
    then show ?thesis using True by simp
  next
    case False
    have "rep p 4 (bn_subtractmod xx az p) (3 * (X * Z\<^sup>2 * (X * Z\<^sup>2)) - - curve_a c * (Z * Z * (Z * Z)))"
      using rep_subtractmod[OF pp xx az] by simp
    then have "rep p 4 (bn_subtractmod xx az p) ((3 * X\<^sup>2 + curve_a c) * Z ^ 4)" by (rule rep_eq) algebra
    then show ?thesis using False by simp
  qed
qed

text \<open>Addition with different abscissas.\<close>

lemma jac_add_chord:
  assumes c: "curve_arith c" and P: "valid_point c P" and J: "jac c J X Y Z"
    and ne: "\<not> bn_val (curve_prime c) dvd (bn_val (px P) - X) * Z\<^sup>2"
    and line: "bn_val (curve_prime c) dvd l * (X - bn_val (px P)) - (Y - bn_val (py P))"
  shows "jac c (point_jacobian_add P J c) (l\<^sup>2 - bn_val (px P) - X)
    (l * (bn_val (px P) - (l\<^sup>2 - bn_val (px P) - X)) - bn_val (py P)) ((bn_val (px P) - X) * Z\<^sup>2 * Z)"
proof -
  let ?p = "curve_prime c" and ?x = "bn_val (px P)" and ?y = "bn_val (py P)"
  note p = curve_arithD(1)[OF c] and F = jac_add_frac[OF c P J] and R2 = jac_add_r2[OF c J]
  have nd: "bn_is_equal (bn_fast_mod (bn_subtractmod (bn_multiply (px P) (bn_multiply (jz J) (jz J) ?p) ?p) (jx J) ?p) ?p) ?p = False"
    using F(7) ne by simp
  have h: "rep ?p 4 (bn_fast_mod (bn_subtractmod (bn_multiply (px P) (bn_multiply (jz J) (jz J) ?p) ?p) (jx J) ?p) ?p) ((?x - X) * Z\<^sup>2)"
    by (rule rep_weaken[OF rep_fast_mod[OF p F(3)] _ p]) simp
  have "(?y - Y) * Z ^ 3 - l * ((?x - X) * Z\<^sup>2 * Z) = (l * (X - ?x) - (Y - ?y)) * Z ^ 3" by algebra
  then have "bn_val ?p dvd (?y - Y) * Z ^ 3 - l * ((?x - X) * Z\<^sup>2 * Z)" using line by (simp only: dvd_mult2)
  note r = rep_cong[OF F(4) this]
  have z: "rep ?p 2 (jz J) Z" using J by (simp add: jac_def)
  note cm = bn_cmov_correct(2)[OF bn_normalized_wf[OF repD(1)[OF R2]] bn_normalized_wf[OF repD(1)[OF r]]]
    bn_cmov_correct(2)[OF bn_normalized_wf[OF repD(1)[OF F(6)]] bn_normalized_wf[OF repD(1)[OF h]]]
  show ?thesis
    using jac_add_finish[OF c r h F(5,6) z line]
    by (simp only: point_jacobian_add_def Let_def nd of_bool_eq cm)
qed

text \<open>Addition of a point to itself.\<close>

lemma jac_add_tangent:
  assumes c: "curve_arith c" and P: "valid_point c P" and J: "jac c J X Y Z"
    and eq: "bn_val (curve_prime c) dvd bn_val (px P) - X" "bn_val (curve_prime c) dvd bn_val (py P) - Y"
    and line: "bn_val (curve_prime c) dvd l * (2 * Y) - (3 * X\<^sup>2 + curve_a c)"
  shows "jac c (point_jacobian_add P J c) (l\<^sup>2 - bn_val (px P) - X)
    (l * (bn_val (px P) - (l\<^sup>2 - bn_val (px P) - X)) - bn_val (py P)) (Z ^ 3 * (bn_val (py P) + Y) * Z)"
proof -
  let ?p = "curve_prime c" and ?x = "bn_val (px P)" and ?y = "bn_val (py P)"
  note p = curve_arithD(1)[OF c] and F = jac_add_frac[OF c P J] and R2 = jac_add_r2[OF c J]
  have nd: "bn_is_equal (bn_fast_mod (bn_subtractmod (bn_multiply (px P) (bn_multiply (jz J) (jz J) ?p) ?p) (jx J) ?p) ?p) ?p = True"
    using F(7) eq(1) by simp
  have h: "rep ?p 4 (bn_fast_mod (bn_subtractmod (bn_multiply (px P) (bn_multiply (jz J) (jz J) ?p) ?p) (jx J) ?p) ?p) ((?x - X) * Z\<^sup>2)"
    by (rule rep_weaken[OF rep_fast_mod[OF p F(3)] _ p]) simp
  have "(3 * X\<^sup>2 + curve_a c) * Z ^ 4 - l * (Z ^ 3 * (?y + Y) * Z)
      = (l * (2 * Y) - (3 * X\<^sup>2 + curve_a c)) * (- (Z ^ 4)) - (?y - Y) * (l * Z ^ 4)" by algebra
  then have "bn_val ?p dvd (3 * X\<^sup>2 + curve_a c) * Z ^ 4 - l * (Z ^ 3 * (?y + Y) * Z)"
    using dvd_diff[OF dvd_mult2[OF line] dvd_mult2[OF eq(2)]] by (simp only:)
  note r = rep_cong[OF R2 this]
  have "l * (X - ?x) - (Y - ?y) = (?y - Y) - (?x - X) * l" by algebra
  then have line': "bn_val ?p dvd l * (X - ?x) - (Y - ?y)" using dvd_diff[OF eq(2) dvd_mult2[OF eq(1)]] by (simp only:)
  have z: "rep ?p 2 (jz J) Z" using J by (simp add: jac_def)
  note cm = bn_cmov_correct(1)[OF bn_normalized_wf[OF repD(1)[OF R2]] bn_normalized_wf[OF repD(1)[OF F(4)]]]
    bn_cmov_correct(1)[OF bn_normalized_wf[OF repD(1)[OF F(6)]] bn_normalized_wf[OF repD(1)[OF h]]]
  show ?thesis
    using jac_add_finish[OF c r F(6) F(5,6) z line']
    by (simp only: point_jacobian_add_def Let_def nd of_bool_eq cm)
qed

text \<open>Doubling.\<close>

lemma jac_double:
  assumes c: "curve_arith c" and J: "jac c J X Y Z"
    and line: "bn_val (curve_prime c) dvd l * (2 * Y) - (3 * X\<^sup>2 + curve_a c)"
  shows "jac c (point_jacobian_double J c) (l\<^sup>2 - X - X) (l * (X - (l\<^sup>2 - X - X)) - Y) (Y * Z ^ 3 * Z)"
proof -
  define p where "p = curve_prime c"
  note pp = curve_arithD(1)[OF c, folded p_def] and odd = curve_arithD(2)[OF c, folded p_def] and line = line[folded p_def]
  have J': "rep p 2 (jx J) (X * Z\<^sup>2)" "rep p 2 (jy J) (Y * Z ^ 3)" "rep p 2 (jz J) Z" using J by (simp_all add: jac_def p_def)
  note x2 = rep_mult[OF pp J'(1) J'(1), simplified] and z2 = rep_mult[OF pp J'(3) J'(3), simplified]
  note z4 = rep_mult[OF pp z2 z2, simplified]
  have xx: "rep p 2 (bn_mult_k (bn_multiply (jx J) (jx J) p) 3 p) (3 * (X * Z\<^sup>2 * (X * Z\<^sup>2)))"
    using rep_mult_k[OF pp x2, of 3] by (simp add: word_le_def)
  have az: "rep p 2 (bn_mult_k (bn_multiply (bn_multiply (jz J) (jz J) p) (bn_multiply (jz J) (jz J) p) p) (neg_a c) p) (- curve_a c * (Z * Z * (Z * Z)))"
    using rep_mult_k[OF pp z4 curve_arithD(7)[OF c]] curve_arithD(6)[OF c] by simp
  define m where "m = bn_mult_half (bn_subtractmod (bn_mult_k (bn_multiply (jx J) (jx J) p) 3 p)
    (bn_mult_k (bn_multiply (bn_multiply (jz J) (jz J) p) (bn_multiply (jz J) (jz J) p) p) (neg_a c) p) p) p"
  let ?H = "Y * Z ^ 3 * Z"
  have "2 * (l * ?H) - (3 * (X * Z\<^sup>2 * (X * Z\<^sup>2)) - - curve_a c * (Z * Z * (Z * Z))) = (l * (2 * Y) - (3 * X\<^sup>2 + curve_a c)) * Z ^ 4" by algebra
  then have "bn_val p dvd 2 * (l * ?H) - (3 * (X * Z\<^sup>2 * (X * Z\<^sup>2)) - - curve_a c * (Z * Z * (Z * Z)))"
    using dvd_mult2[OF line] by (simp only:)
  then have m: "rep p 4 m (l * ?H)"
    unfolding m_def using rep_mult_half[OF pp odd rep_subtractmod[OF pp xx az]] by simp
  note mm = rep_mult[OF pp m m, simplified] and yy = rep_mult[OF pp J'(2) J'(2), simplified]
  note xyy = rep_mult[OF pp yy J'(1), simplified] and z3 = rep_mult[OF pp J'(2,3), simplified]
  note y4 = rep_mult[OF pp yy yy, simplified]
  define ysq where "ysq = bn_multiply (jy J) (jy J) p"
  define xysq where "xysq = bn_multiply ysq (jx J) p"
  define x3 where "x3 = bn_fast_mod (bn_subtractmod (bn_multiply m m p) (bn_fast_mod (bn_lshift xysq) p) p) p"
  note yy = yy[folded ysq_def] and xyy = xyy[folded ysq_def xysq_def] and y4 = y4[folded ysq_def]
  have d: "rep p 2 (bn_fast_mod (bn_lshift xysq) p) (2 * (Y * Z ^ 3 * (Y * Z ^ 3) * (X * Z\<^sup>2)))"
    by (rule rep_fast_mod[OF pp rep_lshift[OF pp xyy]]) simp
  have "rep p 2 x3 (l * ?H * (l * ?H) - 2 * (Y * Z ^ 3 * (Y * Z ^ 3) * (X * Z\<^sup>2)))"
    unfolding x3_def by (rule rep_fast_mod[OF pp rep_subtractmod[OF pp mm d]]) simp
  then have x3: "rep p 2 x3 ((l\<^sup>2 - X - X) * ?H\<^sup>2)" by (rule rep_eq) algebra
  have "rep p 4 (bn_subtractmod xysq x3 p) (Y * Z ^ 3 * (Y * Z ^ 3) * (X * Z\<^sup>2) - (l\<^sup>2 - X - X) * ?H\<^sup>2)"
    using rep_subtractmod[OF pp xyy x3] by simp
  then have my: "rep p 2 (bn_multiply m (bn_subtractmod xysq x3 p) p) (l * ?H * (Y * Z ^ 3 * (Y * Z ^ 3) * (X * Z\<^sup>2) - (l\<^sup>2 - X - X) * ?H\<^sup>2))"
    by (rule rep_mult[OF pp m]) simp_all
  have "rep p 2 (bn_fast_mod (bn_subtractmod (bn_multiply m (bn_subtractmod xysq x3 p) p) (bn_multiply ysq ysq p) p) p)
     (l * ?H * (Y * Z ^ 3 * (Y * Z ^ 3) * (X * Z\<^sup>2) - (l\<^sup>2 - X - X) * ?H\<^sup>2) - Y * Z ^ 3 * (Y * Z ^ 3) * (Y * Z ^ 3 * (Y * Z ^ 3)))"
    by (rule rep_fast_mod[OF pp rep_subtractmod[OF pp my y4]]) simp
  then have y3: "rep p 2 (bn_fast_mod (bn_subtractmod (bn_multiply m (bn_subtractmod xysq x3 p) p) (bn_multiply ysq ysq p) p) p)
     ((l * (X - (l\<^sup>2 - X - X)) - Y) * ?H ^ 3)" by (rule rep_eq) algebra
  show ?thesis
    unfolding jac_def using x3 y3 z3
    by (simp only: point_jacobian_double_def Let_def jacobian_curve_point.simps p_def[symmetric] m_def[symmetric] ysq_def[symmetric]
        xysq_def[symmetric] x3_def[symmetric])
qed

section \<open>The affine operations by way of Jacobian coordinates\<close>

lemma fermat_mult: "curve_arith c \<Longrightarrow> fermat c a \<Longrightarrow> fermat c b \<Longrightarrow> fermat c (a * b)"
  using mod_mult_cong[of "a ^ nat (bn_val (curve_prime c) - 1)" "bn_val (curve_prime c)" 1 "b ^ nat (bn_val (curve_prime c) - 1)" 1]
  by (auto simp: fermat_def power_mult_distrib curve_arith_def bn_prime_def)

lemma fermat_minus: "curve_arith c \<Longrightarrow> fermat c (- a) \<longleftrightarrow> fermat c a"
proof -
  assume c: "curve_arith c"
  have "even (nat (bn_val (curve_prime c) - 1))" using curve_arithD(1,2)[OF c] by (simp add: bn_prime_def even_nat_iff)
  then show ?thesis by (simp add: fermat_def)
qed

lemma fermat_power: "curve_arith c \<Longrightarrow> fermat c a \<Longrightarrow> fermat c (a ^ k)"
proof (induction k)
  case 0
  have "1 < bn_val (curve_prime c)" using 0 by (simp add: curve_arith_def bn_prime_def)
  then show ?case by (simp add: fermat_def)
qed (simp add: fermat_mult)

lemma fermat_not_dvd: "curve_arith c \<Longrightarrow> fermat c a \<Longrightarrow> \<not> bn_val (curve_prime c) dvd a"
proof
  assume c: "curve_arith c" "fermat c a" "bn_val (curve_prime c) dvd a"
  have "0 < nat (bn_val (curve_prime c) - 1)" using c(1) by (simp add: curve_arith_def bn_prime_def)
  then have "bn_val (curve_prime c) dvd a ^ nat (bn_val (curve_prime c) - 1)" using c(3) by (metis dvd_power dvd_trans)
  then show False using c(2) by (simp add: fermat_def dvd_eq_mod_eq_0)
qed

lemma third_point_unique:
  assumes "third_point c l x1 x2 y1 R" "rep (curve_prime c) 1 x (l\<^sup>2 - x1 - x2)" "rep (curve_prime c) 1 y (l * (x1 - (l\<^sup>2 - x1 - x2)) - y1)"
  shows "R = \<lparr>px = x, py = y\<rparr>"
proof -
  have r: "rep (curve_prime c) 1 (px R) (l\<^sup>2 - x1 - x2)" "rep (curve_prime c) 1 (py R) (l * (x1 - (l\<^sup>2 - x1 - x2)) - y1)"
    using assms(1) by (simp_all only: third_point_def Let_def)
  show ?thesis using rep_unique[OF r(1) assms(2)] rep_unique[OF r(2) assms(3)] by (cases R) simp
qed

lemma jacobian_add_affine:
  assumes c: "curve_arith c" and P: "valid_point c P" and Q: "valid_point c Q"
    and inf: "\<not> point_is_infinity P" "\<not> point_is_infinity Q" and x: "bn_val (px P) \<noteq> bn_val (px Q)"
    and J: "curve_to_jacobian Q (curve_prime c) rnd = Some (J, rnd')"
    and f: "fermat c (bn_val (px Q) - bn_val (px P))" "fermat c (bn_val (jz J))"
  shows "jacobian_to_curve (point_jacobian_add P J c) (curve_prime c) = point_add c P Q"
proof -
  let ?x1 = "bn_val (px P)" and ?x2 = "bn_val (px Q)" and ?z = "bn_val (jz J)"
  note j = curve_to_jacobian_jac[OF curve_arithD(1)[OF c] Q J]
  obtain l where l: "bn_val (curve_prime c) dvd l * (?x2 - ?x1) - (bn_val (py Q) - bn_val (py P))"
      "third_point c l ?x1 ?x2 (bn_val (py P)) (point_add c P Q)"
    using point_add_chord[OF c P Q inf x f(1)] by (elim exE conjE) (rule that)
  have "fermat c (- (?x2 - ?x1))" using f(1) fermat_minus[OF c] by (simp only:)
  then have d: "fermat c (?x1 - ?x2)" by simp
  have f2: "fermat c ((?x1 - ?x2) * ?z\<^sup>2)" by (rule fermat_mult[OF c d fermat_power[OF c f(2)]])
  note A = jac_add_chord[OF c P j fermat_not_dvd[OF c f2] l(1)]
  note R = jacobian_to_curve_affine[OF c A fermat_mult[OF c f2 f(2)]]
  show ?thesis using third_point_unique[OF l(2) R] by simp
qed

lemma jacobian_double_affine:
  assumes c: "curve_arith c" and Q: "valid_point c Q" and y: "bn_val (py Q) \<noteq> 0"
    and J: "curve_to_jacobian Q (curve_prime c) rnd = Some (J, rnd')"
    and f: "fermat c (2 * bn_val (py Q))" "fermat c (bn_val (py Q) * bn_val (jz J) ^ 4)"
  shows "jacobian_to_curve (point_jacobian_double J c) (curve_prime c) = point_double c Q"
proof -
  let ?x = "bn_val (px Q)" and ?y = "bn_val (py Q)" and ?z = "bn_val (jz J)"
  note j = curve_to_jacobian_jac[OF curve_arithD(1)[OF c] Q J]
  obtain l where l: "bn_val (curve_prime c) dvd l * (2 * ?y) - (3 * ?x\<^sup>2 + curve_a c)"
      "third_point c l ?x ?x ?y (point_double c Q)"
    using point_double_tangent[OF c Q y f(1)] by (elim exE conjE) (rule that)
  have "?y * ?z ^ 3 * ?z = ?y * ?z ^ 4" by algebra
  then have z: "fermat c (?y * ?z ^ 3 * ?z)" using f(2) by (simp only:)
  show ?thesis using third_point_unique[OF l(2) jacobian_to_curve_affine[OF c jac_double[OF c j l(1)] z]] by simp
qed

text \<open>The addition notices that it doubles.\<close>

lemma jacobian_add_self:
  assumes c: "curve_arith c" and Q: "valid_point c Q" and y: "bn_val (py Q) \<noteq> 0"
    and J: "curve_to_jacobian Q (curve_prime c) rnd = Some (J, rnd')"
    and f: "fermat c (2 * bn_val (py Q))" "fermat c (bn_val (jz J))"
  shows "jacobian_to_curve (point_jacobian_add Q J c) (curve_prime c) = point_double c Q"
proof -
  let ?x = "bn_val (px Q)" and ?y = "bn_val (py Q)" and ?z = "bn_val (jz J)"
  note j = curve_to_jacobian_jac[OF curve_arithD(1)[OF c] Q J]
  obtain l where l: "bn_val (curve_prime c) dvd l * (2 * ?y) - (3 * ?x\<^sup>2 + curve_a c)"
      "third_point c l ?x ?x ?y (point_double c Q)"
    using point_double_tangent[OF c Q y f(1)] by (elim exE conjE) (rule that)
  have "bn_val (curve_prime c) dvd ?x - ?x" "bn_val (curve_prime c) dvd ?y - ?y" by simp_all
  note A = jac_add_tangent[OF c Q j this l(1)]
  have "fermat c (?z ^ 3 * (2 * ?y) * ?z)" by (intro fermat_mult[OF c _ f(2)] fermat_mult[OF c fermat_power[OF c f(2)] f(1)])
  then have "fermat c (?z ^ 3 * (?y + ?y) * ?z)" by (simp only: mult_2)
  then show ?thesis using third_point_unique[OF l(2) jacobian_to_curve_affine[OF c A]] by simp
qed

text \<open>The mixed addition of two finite points, equal or of different abscissas.\<close>

lemma jacobian_add_finite:
  assumes "curve_arith c" and "valid_point c P" and "valid_point c Q" and "\<not> point_is_infinity P" and "\<not> point_is_infinity Q"
    and "curve_to_jacobian Q (curve_prime c) rnd = Some (J, rnd')" and "fermat c (bn_val (jz J))"
    and "P = Q \<and> bn_val (py Q) \<noteq> 0 \<and> fermat c (2 * bn_val (py Q))
       \<or> bn_val (px P) \<noteq> bn_val (px Q) \<and> fermat c (bn_val (px Q) - bn_val (px P))"
  shows "jacobian_to_curve (point_jacobian_add P J c) (curve_prime c) = point_add c P Q"
  using assms(8)
proof (elim disjE conjE)
  assume "P = Q" "bn_val (py Q) \<noteq> 0" "fermat c (2 * bn_val (py Q))"
  then show ?thesis
    using jacobian_add_self[OF assms(1,3) _ assms(6)] assms(7) point_add_special(3)[OF assms(2-5)] by simp
next
  assume "bn_val (px P) \<noteq> bn_val (px Q)" "fermat c (bn_val (px Q) - bn_val (px P))"
  then show ?thesis by (intro jacobian_add_affine[OF assms(1-5) _ assms(6) _ assms(7)])
qed

section \<open>The sums are points of the curve\<close>

lemma chord_valid:
  assumes c: "curve_arith c" and P: "valid_point c P" and Q: "valid_point c Q"
    and inf: "\<not> point_is_infinity P" "\<not> point_is_infinity Q" and x: "bn_val (px P) \<noteq> bn_val (px Q)"
    and f: "fermat c (bn_val (px Q) - bn_val (px P))"
  shows "valid_point c (point_add c P Q)"
proof -
  let ?p = "curve_prime c" and ?x1 = "bn_val (px P)" and ?x2 = "bn_val (px Q)" and ?y1 = "bn_val (py P)" and ?y2 = "bn_val (py Q)"
  obtain l where l: "bn_val ?p dvd l * (?x2 - ?x1) - (?y2 - ?y1)" "third_point c l ?x1 ?x2 ?y1 (point_add c P Q)"
    using point_add_chord[OF assms] by (elim exE conjE) (rule that)
  have e: "curve_eq (bn_val ?p) (curve_a c) (bn_val (curve_b c)) ?x1 ?y1" "curve_eq (bn_val ?p) (curve_a c) (bn_val (curve_b c)) ?x2 ?y2"
    using P Q by (simp_all add: valid_point_def on_curve_eq)
  have "bn_val ?p - 1 \<ge> 1" using curve_arithD(1)[OF c] by (simp add: bn_prime_def)
  then have n: "nat (bn_val ?p - 1) = Suc (nat (bn_val ?p - 2))" by linarith
  have "1 mod bn_val ?p = 1" using curve_arithD(1)[OF c] by (simp add: bn_prime_def)
  then have i: "bn_val ?p dvd (?x2 - ?x1) * (?x2 - ?x1) ^ nat (bn_val ?p - 2) - 1"
    using f unfolding fermat_def n power_Suc by (metis mod_eq_dvd_iff)
  have "?x2 = ?x1 + (?x2 - ?x1)" by simp
  then show ?thesis using third_point_valid[OF _ e(1) chord_condition[OF e l(1) i]] l(2) by (simp only:)
qed

lemma tangent_valid:
  assumes c: "curve_arith c" and P: "valid_point c P" and y: "bn_val (py P) \<noteq> 0" and f: "fermat c (2 * bn_val (py P))"
  shows "valid_point c (point_double c P)"
proof -
  let ?p = "curve_prime c" and ?x = "bn_val (px P)" and ?y = "bn_val (py P)"
  obtain l where l: "bn_val ?p dvd l * (2 * ?y) - (3 * ?x\<^sup>2 + curve_a c)" "third_point c l ?x ?x ?y (point_double c P)"
    using point_double_tangent[OF assms] by (elim exE conjE) (rule that)
  have e: "curve_eq (bn_val ?p) (curve_a c) (bn_val (curve_b c)) ?x ?y" using P by (simp add: valid_point_def on_curve_eq)
  have "third_point c l ?x (?x + 0) ?y (point_double c P)" using l(2) by simp
  then show ?thesis by (rule third_point_valid[OF _ e tangent_condition[OF l(1)]])
qed

end
