(* ===== verification/EcKey.thy ===== *)
theory EcKey
  imports EcPoint
begin

text \<open>
  Public keys, \<open>trezor-crypto/src/ecdsa.c\<close>: compression to the abscissa and the parity of the
  ordinate, recovery of the ordinate by a square root, and the validation that every key that is read
  goes through. A result 0 is \<open>None\<close>; a key is given with the 33 or 65 bytes its first byte asks for.
\<close>

unbundle bit_operations_syntax

definition compress_coords :: "curve_point \<Rightarrow> u8 list" where
  "compress_coords cp = (if bn_is_odd (py cp) then 0x03 else 0x02) # bn_write_be (px cp)"

definition uncompress_coords :: "ecdsa_curve \<Rightarrow> u8 \<Rightarrow> bignum256 \<Rightarrow> bignum256" where
  "uncompress_coords curve par x =
     (let y = x;
          y = bn_multiply x y (curve_prime curve);
          y = bn_subi y (neg_a curve) (curve_prime curve);
          y = bn_multiply x y (curve_prime curve);
          y = bn_add y (curve_b curve);
          y = bn_sqrt y (curve_prime curve)
      in if ucast (par AND 0x01) \<noteq> val y ! 0 AND 1 then bn_subtract (curve_prime curve) y else y)"

definition ecdsa_validate_pubkey :: "ecdsa_curve \<Rightarrow> curve_point \<Rightarrow> bool" where
  "ecdsa_validate_pubkey curve pub =
     (if point_is_infinity pub then False
      else if \<not> bn_is_less (px pub) (curve_prime curve) \<or> \<not> bn_is_less (py pub) (curve_prime curve) then False
      else
        let y_2 = py pub;
            x3_ax_b = px pub;
            y_2 = bn_multiply (py pub) y_2 (curve_prime curve);
            y_2 = bn_mod y_2 (curve_prime curve);
            x3_ax_b = bn_multiply (px pub) x3_ax_b (curve_prime curve);
            x3_ax_b = bn_subi x3_ax_b (neg_a curve) (curve_prime curve);
            x3_ax_b = bn_multiply (px pub) x3_ax_b (curve_prime curve);
            x3_ax_b = bn_addmod x3_ax_b (curve_b curve) (curve_prime curve);
            x3_ax_b = bn_mod x3_ax_b (curve_prime curve)
        in bn_is_equal x3_ax_b y_2)"

text \<open>A null curve stands for \<open>secp256k1\<close>.\<close>

definition ecdsa_read_pubkey :: "ecdsa_curve option \<Rightarrow> u8 list \<Rightarrow> curve_point option" where
  "ecdsa_read_pubkey curve pub_key =
     (let curve = (case curve of None \<Rightarrow> secp256k1 | Some c \<Rightarrow> c)
      in if pub_key ! 0 = 0x04 then
           let pub = \<lparr>px = bn_read_be (take 32 (drop 1 pub_key)), py = bn_read_be (take 32 (drop 33 pub_key))\<rparr>
           in if ecdsa_validate_pubkey curve pub then Some pub else None
         else if pub_key ! 0 = 0x02 \<or> pub_key ! 0 = 0x03 then
           let x = bn_read_be (take 32 (drop 1 pub_key));
               pub = \<lparr>px = x, py = uncompress_coords curve (pub_key ! 0) x\<rparr>
           in if ecdsa_validate_pubkey curve pub then Some pub else None
         else None)"

definition ecdsa_uncompress_pubkey :: "ecdsa_curve option \<Rightarrow> u8 list \<Rightarrow> u8 list option" where
  "ecdsa_uncompress_pubkey curve pub_key =
     (case ecdsa_read_pubkey curve pub_key of
        None \<Rightarrow> None
      | Some pub \<Rightarrow> Some (4 # bn_write_be (px pub) @ bn_write_be (py pub)))"

section \<open>Validation\<close>

lemma rep_poly:
  assumes c: "curve_arith c" and x: "rep (curve_prime c) k x a" and k: "k \<le> 180"
  shows "rep (curve_prime c) 2 (bn_multiply x (bn_subi (bn_multiply x x (curve_prime c)) (neg_a c) (curve_prime c)) (curve_prime c)) (a ^ 3 + curve_a c * a)"
proof -
  note p = curve_arithD(1)[OF c]
  have "rep (curve_prime c) 3 (bn_subi (bn_multiply x x (curve_prime c)) (neg_a c) (curve_prime c)) (a * a - - curve_a c)"
    using rep_subi[OF p rep_mult[OF p x x k k] curve_arithD(4)[OF c]] curve_arithD(5)[OF c] by simp
  then have "rep (curve_prime c) 2 (bn_multiply x (bn_subi (bn_multiply x x (curve_prime c)) (neg_a c) (curve_prime c)) (curve_prime c)) (a * (a * a - - curve_a c))"
    by (rule rep_mult[OF p x _ k]) simp
  then show ?thesis by (rule rep_eq) algebra
qed

lemma point_infinity_iff:
  assumes "bn_normalized (px P)" "bn_normalized (py P)"
  shows "point_is_infinity P \<longleftrightarrow> bn_val (px P) = 0 \<and> bn_val (py P) = 0"
  using assms by (simp add: point_is_infinity_def bn_is_zero_correct)

lemma ecdsa_validate_pubkey_iff:
  assumes c: "curve_arith c" and n: "bn_normalized (px P)" "bn_normalized (py P)"
  shows "ecdsa_validate_pubkey c P \<longleftrightarrow> valid_point c P \<and> \<not> point_is_infinity P"
proof (cases "bn_val (px P) < bn_val (curve_prime c) \<and> bn_val (py P) < bn_val (curve_prime c)")
  case False
  then show ?thesis
    using bn_is_less_correct[OF n(1) bn_prime_normalized[OF curve_arithD(1)[OF c]]] bn_is_less_correct[OF n(2) bn_prime_normalized[OF curve_arithD(1)[OF c]]]
    by (auto simp: ecdsa_validate_pubkey_def valid_point_def)
next
  case True
  let ?p = "curve_prime c"
  note p = curve_arithD(1)[OF c]
  have less: "bn_is_less (px P) ?p" "bn_is_less (py P) ?p"
    using True bn_is_less_correct[OF n(1) bn_prime_normalized[OF p]] bn_is_less_correct[OF n(2) bn_prime_normalized[OF p]] by simp_all
  have x: "rep ?p 1 (px P) (bn_val (px P))" and y: "rep ?p 1 (py P) (bn_val (py P))" and b: "rep ?p 1 (curve_b c) (bn_val (curve_b c))"
    using True n curve_arithD(8,9)[OF c] by (simp_all add: rep_self)
  have y2: "rep ?p 1 (bn_mod (bn_multiply (py P) (py P) ?p) ?p) (bn_val (py P) * bn_val (py P))"
    by (rule rep_mod[OF p rep_mult[OF p y y]]) simp_all
  let ?f = "bn_mod (bn_addmod (bn_multiply (px P) (bn_subi (bn_multiply (px P) (px P) ?p) (neg_a c) ?p) ?p) (curve_b c) ?p) ?p"
  have f: "rep ?p 1 ?f (bn_val (px P) ^ 3 + curve_a c * bn_val (px P) + bn_val (curve_b c))"
    by (rule rep_mod[OF p rep_addmod[OF p rep_poly[OF c x] b]]) simp
  have "bn_is_equal ?f (bn_mod (bn_multiply (py P) (py P) ?p) ?p) \<longleftrightarrow> on_curve c P"
  proof
    assume "on_curve c P"
    then have "bn_val ?p dvd bn_val (py P) * bn_val (py P) - (bn_val (px P) ^ 3 + curve_a c * bn_val (px P) + bn_val (curve_b c))"
      by (simp add: on_curve_eq curve_eq_def power2_eq_square)
    from rep_unique[OF f rep_cong[OF y2 this]] show "bn_is_equal ?f (bn_mod (bn_multiply (py P) (py P) ?p) ?p)"
      using bn_is_equal_correct[OF repD(1)[OF f] repD(1)[OF y2]] by simp
  next
    assume "bn_is_equal ?f (bn_mod (bn_multiply (py P) (py P) ?p) ?p)"
    then have "bn_val ?f = bn_val (bn_mod (bn_multiply (py P) (py P) ?p) ?p)"
      using bn_is_equal_correct[OF repD(1)[OF f] repD(1)[OF y2]] by simp
    then have "bn_val (py P) * bn_val (py P) mod bn_val ?p = (bn_val (px P) ^ 3 + curve_a c * bn_val (px P) + bn_val (curve_b c)) mod bn_val ?p"
      using rep_residue[OF f] rep_residue[OF y2] by simp
    then show "on_curve c P" by (simp add: on_curve_eq curve_eq_def power2_eq_square mod_eq_dvd_iff)
  qed
  then show ?thesis
    using True n less by (auto simp: ecdsa_validate_pubkey_def valid_point_def)
qed

section \<open>Compression\<close>

lemma low_bit:
  assumes "bn_wf a"
  shows "uint (val a ! 0 AND 1) = bn_val a mod 2" "bn_is_odd a \<longleftrightarrow> odd (bn_val a)"
proof -
  obtain l ls where v: "val a = l # ls" using assms by (cases "val a") (simp_all add: bn_wf_def)
  show u: "uint (val a ! 0 AND 1) = bn_val a mod 2" unfolding uint_and_1 by (simp add: v bn_val_def) presburger
  have "val a ! 0 AND 1 = 1 \<longleftrightarrow> uint (val a ! 0 AND 1) = 1" by (simp add: word_uint_eq_iff)
  then show "bn_is_odd a \<longleftrightarrow> odd (bn_val a)" unfolding bn_is_odd_def u by presburger
qed

lemma compress_parity:
  assumes "bn_wf y"
  shows "compress_coords P ! 0 = (if bn_is_odd (py P) then 3 else 2)"
    "ucast ((if b then 3 else 2 :: u8) AND 1) \<noteq> val y ! 0 AND 1 \<longleftrightarrow> b \<noteq> odd (bn_val y)"
proof -
  have "ucast ((if b then 3 else 2 :: u8) AND 1) = (of_bool b :: u32)" by simp
  moreover have "of_bool b = val y ! 0 AND 1 \<longleftrightarrow> uint (val y ! 0 AND 1) = of_bool b" by (auto simp: word_uint_eq_iff)
  ultimately show "ucast ((if b then 3 else 2 :: u8) AND 1) \<noteq> val y ! 0 AND 1 \<longleftrightarrow> b \<noteq> odd (bn_val y)"
    unfolding low_bit(1)[OF assms] by (cases b) (simp_all, presburger+)
qed (simp add: compress_coords_def)

text \<open>The root is one of the two ordinates if Euler's criterion holds for the ordinate.\<close>

definition euler :: "ecdsa_curve \<Rightarrow> int \<Rightarrow> bool" where
  "euler c a \<longleftrightarrow> a ^ nat ((bn_val (curve_prime c) - 1) div 2) mod bn_val (curve_prime c) \<in> {1, bn_val (curve_prime c) - 1}"

lemma root_of_square:
  fixes p y s :: int
  assumes p: "p mod 4 = 3" "0 < p" and s: "s = f ^ nat ((p + 1) div 4) mod p" and f: "f mod p = y\<^sup>2 mod p"
    and e: "y ^ nat ((p - 1) div 2) mod p \<in> {1, p - 1}" and y: "0 < y" "y < p"
  shows "s = y \<or> s = p - y"
proof -
  have "2 * ((p + 1) div 4) = (p - 1) div 2 + 1" using p(1) by presburger
  then have n: "2 * nat ((p + 1) div 4) = Suc (nat ((p - 1) div 2))" using p(2) by linarith
  have "s = (y\<^sup>2) ^ nat ((p + 1) div 4) mod p" unfolding s by (rule pow_cong_mod[OF f])
  also have "(y\<^sup>2) ^ nat ((p + 1) div 4) = y ^ nat ((p - 1) div 2) * y" by (simp only: power_mult[symmetric] n power_Suc mult.commute)
  finally have sy: "s = (y ^ nat ((p - 1) div 2) mod p) * y mod p" by (simp only: mod_mult_left_eq)
  from e show ?thesis
  proof (elim insertE emptyE)
    assume "y ^ nat ((p - 1) div 2) mod p = 1"
    then show ?thesis using y by (simp add: sy)
  next
    assume "y ^ nat ((p - 1) div 2) mod p = p - 1"
    then have "s = (p - 1) * y mod p" by (simp add: sy)
    also have "(p - 1) * y = (p - y) + p * (y - 1)" by algebra
    also have "((p - y) + p * (y - 1)) mod p = p - y" unfolding mod_mult_self2 using y by (intro mod_pos_pos_trivial) simp_all
    finally show ?thesis by simp
  qed
qed

lemma uncompress_compress:
  assumes c: "curve_arith c" and four: "bn_val (curve_prime c) mod 4 = 3" and P: "valid_point c P"
    and y: "bn_val (py P) \<noteq> 0" and e: "euler c (bn_val (py P))"
  shows "uncompress_coords c (if bn_is_odd (py P) then 3 else 2) (px P) = py P"
proof -
  let ?p = "curve_prime c" and ?y = "bn_val (py P)"
  note p = curve_arithD(1)[OF c] and V = valid_rep[OF P]
  let ?g = "bn_add (bn_multiply (px P) (bn_subi (bn_multiply (px P) (px P) ?p) (neg_a c) ?p) ?p) (curve_b c)"
  have b: "rep ?p 1 (curve_b c) (bn_val (curve_b c))" using curve_arithD(8,9)[OF c] by (simp add: rep_self)
  have g: "rep ?p 3 ?g (bn_val (px P) ^ 3 + curve_a c * bn_val (px P) + bn_val (curve_b c))"
    using rep_add[OF p rep_poly[OF c V(1)] b] by simp
  have "?y\<^sup>2 mod bn_val ?p = (bn_val (px P) ^ 3 + curve_a c * bn_val (px P) + bn_val (curve_b c)) mod bn_val ?p"
    using P by (simp add: valid_point_def on_curve_eq curve_eq_def mod_eq_dvd_iff)
  then have f: "bn_val ?g mod bn_val ?p = ?y\<^sup>2 mod bn_val ?p" using rep_residue[OF g] by simp
  note S = bn_sqrt_power[OF rep_mulable[OF g _ p] p, simplified]
  have yp: "0 < ?y" "?y < bn_val ?p" using y P bn_val_nonneg[of "py P"] by (simp_all add: valid_point_def order.strict_iff_order)
  have root: "bn_val (bn_sqrt ?g ?p) = ?y \<or> bn_val (bn_sqrt ?g ?p) = bn_val ?p - ?y"
    using root_of_square[OF four bn_prime_pos[OF p] S(2) f e[unfolded euler_def] yp] .
  have wf: "bn_wf (bn_sqrt ?g ?p)" using S(1) by simp
  have u: "uncompress_coords c (if bn_is_odd (py P) then 3 else 2) (px P)
      = (if odd ?y \<noteq> odd (bn_val (bn_sqrt ?g ?p)) then bn_subtract ?p (bn_sqrt ?g ?p) else bn_sqrt ?g ?p)"
    using compress_parity(2)[OF wf, of "bn_is_odd (py P)"] low_bit(2)[OF bn_normalized_wf[OF repD(1)[OF V(2)]]]
    by (simp only: uncompress_coords_def Let_def)
  from root show ?thesis
  proof
    assume r: "bn_val (bn_sqrt ?g ?p) = ?y"
    then have "bn_sqrt ?g ?p = py P" using bn_normalized_eq[OF S(1) repD(1)[OF V(2)]] by simp
    then show ?thesis unfolding u r by simp
  next
    assume r: "bn_val (bn_sqrt ?g ?p) = bn_val ?p - ?y"
    note D = bn_subtract_correct[OF bn_prime_normalized[OF p] S(1)]
    have "bn_val (bn_subtract ?p (bn_sqrt ?g ?p)) = ?y"
      unfolding D(2) r using bn_val_lt[OF repD(1)[OF V(2)]] by simp
    then have "bn_subtract ?p (bn_sqrt ?g ?p) = py P" using bn_normalized_eq[OF D(1) repD(1)[OF V(2)]] by simp
    moreover have "(odd ?y \<noteq> odd (bn_val ?p - ?y)) = True" using curve_arithD(2)[OF c] by simp
    ultimately show ?thesis unfolding u r by (simp only: if_True)
  qed
qed

lemma uncompress_normalized:
  assumes c: "curve_arith c" and x: "rep (curve_prime c) 2 x a"
  shows "bn_normalized (uncompress_coords c par x)"
proof -
  let ?p = "curve_prime c"
  note p = curve_arithD(1)[OF c]
  have b: "rep ?p 1 (curve_b c) (bn_val (curve_b c))" using curve_arithD(8,9)[OF c] by (simp add: rep_self)
  have g: "rep ?p 3 (bn_add (bn_multiply x (bn_subi (bn_multiply x x ?p) (neg_a c) ?p) ?p) (curve_b c)) (a ^ 3 + curve_a c * a + bn_val (curve_b c))"
    using rep_add[OF p rep_poly[OF c x] b] by simp
  have "bn_normalized (bn_sqrt (bn_add (bn_multiply x (bn_subi (bn_multiply x x ?p) (neg_a c) ?p) ?p) (curve_b c)) ?p)"
    using bn_sqrt_power(1)[OF rep_mulable[OF g _ p] p] by simp
  then show ?thesis using bn_subtract_correct(1)[OF bn_prime_normalized[OF p]] by (simp add: uncompress_coords_def Let_def)
qed

lemma read_valid_point:
  assumes c: "curve_arith c" and P: "valid_point c P" "\<not> point_is_infinity P"
  shows "ecdsa_read_pubkey (Some c) (4 # bn_write_be (px P) @ bn_write_be (py P)) = Some P"
    "bn_val (curve_prime c) mod 4 = 3 \<Longrightarrow> bn_val (py P) \<noteq> 0 \<Longrightarrow> euler c (bn_val (py P)) \<Longrightarrow>
      ecdsa_read_pubkey (Some c) (compress_coords P) = Some P"
proof -
  have n: "bn_normalized (px P)" "bn_normalized (py P)" "bn_val (px P) < 2 ^ 256" "bn_val (py P) < 2 ^ 256"
    using P bn_prime_lt[OF curve_arithD(1)[OF c]] by (simp_all add: valid_point_def)
  have l: "length (bn_write_be a) = 32" for a by simp
  have eta: "\<lparr>px = px P, py = py P\<rparr> = P" by (cases P) simp
  have v: "ecdsa_validate_pubkey c P" using ecdsa_validate_pubkey_iff[OF c n(1,2)] P by simp
  show "ecdsa_read_pubkey (Some c) (4 # bn_write_be (px P) @ bn_write_be (py P)) = Some P"
    using v bn_read_write_be[OF n(1,3)] bn_read_write_be[OF n(2,4)] by (simp add: ecdsa_read_pubkey_def l Let_def eta)
  assume "bn_val (curve_prime c) mod 4 = 3" "bn_val (py P) \<noteq> 0" "euler c (bn_val (py P))"
  note u = uncompress_compress[OF c this(1) P(1) this(2,3)]
  show "ecdsa_read_pubkey (Some c) (compress_coords P) = Some P"
    using v bn_read_write_be[OF n(1,3)] u by (cases "bn_is_odd (py P)") (simp_all add: ecdsa_read_pubkey_def compress_coords_def l Let_def eta)
qed

text \<open>Whatever is read is a finite point of the curve, and a compressed key determines the parity.\<close>

lemma read_pubkey_valid:
  assumes c: "curve_arith c" and k: "length key = (if key ! 0 = 4 then 65 else 33)" and r: "ecdsa_read_pubkey (Some c) key = Some P"
  shows "valid_point c P \<and> \<not> point_is_infinity P \<and> px P = bn_read_be (take 32 (drop 1 key))"
proof -
  have rd: "bn_normalized (bn_read_be (take 32 (drop 1 key)))" using k by (intro bn_read_be_correct) (simp split: if_splits)
  have n: "bn_normalized (py P)" "px P = bn_read_be (take 32 (drop 1 key))" "ecdsa_validate_pubkey c P"
  proof -
    consider "key ! 0 = 4" | "key ! 0 = 2 \<or> key ! 0 = 3" using r by (auto simp: ecdsa_read_pubkey_def Let_def split: if_splits)
    then have "bn_normalized (py P) \<and> px P = bn_read_be (take 32 (drop 1 key)) \<and> ecdsa_validate_pubkey c P"
    proof cases
      case 1
      then have "bn_normalized (bn_read_be (take 32 (drop 33 key)))" using k by (intro bn_read_be_correct) simp
      then show ?thesis using r 1 by (auto simp: ecdsa_read_pubkey_def Let_def split: if_splits)
    next
      case 2
      then have P: "P = \<lparr>px = bn_read_be (take 32 (drop 1 key)), py = uncompress_coords c (key ! 0) (bn_read_be (take 32 (drop 1 key)))\<rparr>"
        "ecdsa_validate_pubkey c P"
        using r by (auto simp: ecdsa_read_pubkey_def Let_def split: if_splits)
      have "bn_val (bn_read_be (take 32 (drop 1 key))) < 2 ^ 256"
        using bn_read_be_correct(2)[of "take 32 (drop 1 key)"] k 2 be_val_lt[of "take 32 (drop 1 key)"] by (auto split: if_splits)
      then have "rep (curve_prime c) 2 (bn_read_be (take 32 (drop 1 key))) (bn_val (bn_read_be (take 32 (drop 1 key))))"
        using rd curve_arithD(1)[OF c] by (intro rep_self) (simp_all add: bn_prime_def)
      then have "bn_normalized (uncompress_coords c (key ! 0) (bn_read_be (take 32 (drop 1 key))))"
        by (rule uncompress_normalized[OF c])
      with P show ?thesis by simp
    qed
    then show "bn_normalized (py P)" "px P = bn_read_be (take 32 (drop 1 key))" "ecdsa_validate_pubkey c P" by simp_all
  qed
  then show ?thesis using ecdsa_validate_pubkey_iff[OF c, of P] rd by simp
qed

section \<open>Sample curves\<close>

text \<open>
  Two curves over the prime of \<open>secp256k1\<close> with points whose coordinates are small enough to calculate
  with: \<open>y\<^sup>2 = x\<^sup>3 - x + 1\<close> through \<open>(0, 1)\<close> and \<open>(1, 1)\<close>, and \<open>y\<^sup>2 = x\<^sup>3 + 1/4\<close> through \<open>(0, 1/2)\<close>.
\<close>

definition half :: bignum256 where
  "half = \<lparr>val = [0x3ffffe18, 0x3ffffffd, 0x3fffffff, 0x3fffffff, 0x3fffffff, 0x3fffffff, 0x3fffffff, 0x3fffffff, 0x7fff]\<rparr>"

definition quarter :: bignum256 where
  "quarter = \<lparr>val = [0x3fffff0c, 0x3ffffffe, 0x3fffffff, 0x3fffffff, 0x3fffffff, 0x3fffffff, 0x3fffffff, 0x3fffffff, 0x3fff]\<rparr>"

lemma secp256k1_prime:
  "bn_val (curve_prime secp256k1) = 115792089237316195423570985008687907853269984665640564039457584007908834671663"
  "3 \<le> uint (val (curve_prime secp256k1) ! 0)" "bn_prime (curve_prime secp256k1)"
  using secp256k1_ok by (simp_all add: secp256k1_def bn_val_def curve_ok_def)

lemma half_quarter: "bn_normalized half" "2 * bn_val half = bn_val (curve_prime secp256k1) + 1"
    "bn_normalized quarter" "4 * bn_val quarter = bn_val (curve_prime secp256k1) + 1"
  unfolding secp256k1_prime by (simp_all add: half_def quarter_def bn_normalized_def bn_wf_def bn_val_def)

lemma fermat_one: "bn_prime (curve_prime c) \<Longrightarrow> fermat c 1"
  by (simp add: fermat_def bn_prime_def)

lemma sample_curve:
  defines "c \<equiv> secp256k1\<lparr>curve_a := -1, curve_b := bn_one\<rparr>"
  shows "curve_arith c" "valid_point c \<lparr>px = bn_zero, py = bn_one\<rparr>" "valid_point c \<lparr>px = bn_one, py = bn_one\<rparr>"
    "\<not> point_is_infinity \<lparr>px = bn_zero, py = bn_one\<rparr>" "\<not> point_is_infinity \<lparr>px = bn_one, py = bn_one\<rparr>" "fermat c 1"
proof -
  show "curve_arith c" using secp256k1_prime bn_one_correct by (simp add: curve_arith_def c_def)
  show "valid_point c \<lparr>px = bn_zero, py = bn_one\<rparr>" "valid_point c \<lparr>px = bn_one, py = bn_one\<rparr>"
    using secp256k1_prime bn_one_correct bn_zero_correct by (simp_all add: valid_point_def on_curve_def c_def)
  show "\<not> point_is_infinity \<lparr>px = bn_zero, py = bn_one\<rparr>" "\<not> point_is_infinity \<lparr>px = bn_one, py = bn_one\<rparr>"
    using bn_one_correct bn_zero_correct by (simp_all add: point_infinity_iff)
  show "fermat c 1" using secp256k1_prime(3) by (simp add: c_def fermat_one)
qed

lemma sample_curve2:
  defines "c \<equiv> secp256k1\<lparr>curve_b := quarter\<rparr>"
  shows "curve_arith c" "valid_point c \<lparr>px = bn_zero, py = half\<rparr>" "bn_val half \<noteq> 0" "fermat c (2 * bn_val half)"
proof -
  have a: "curve_a secp256k1 = 0" by (simp add: secp256k1_def)
  show c: "curve_arith c" using secp256k1_prime half_quarter a by (simp add: curve_arith_def c_def)
  show "bn_val half \<noteq> 0" using half_quarter(2) secp256k1_prime(1) by simp
  have "(bn_val half)\<^sup>2 - bn_val quarter = bn_val (curve_prime secp256k1) * bn_val quarter"
  proof -
    have "4 * (bn_val half)\<^sup>2 = (2 * bn_val half)\<^sup>2" by algebra
    also have "\<dots> = 4 * bn_val quarter * (bn_val (curve_prime secp256k1) + 1)"
      unfolding half_quarter(2,4) by algebra
    finally show ?thesis by (simp add: algebra_simps)
  qed
  then have "bn_val (curve_prime secp256k1) dvd (bn_val half)\<^sup>2 - bn_val quarter" by (simp only: dvd_triv_left)
  then have "on_curve c \<lparr>px = bn_zero, py = half\<rparr>"
    unfolding on_curve_eq curve_eq_def using a bn_zero_correct(2) by (simp add: c_def)
  moreover have "0 < bn_val (curve_prime secp256k1)" by (rule bn_prime_pos[OF secp256k1_prime(3)])
  moreover have "bn_val half < bn_val (curve_prime secp256k1)"
    using half_quarter(2) bn_prime_lt[OF secp256k1_prime(3)] secp256k1_prime(3) by (simp add: bn_prime_def)
  ultimately show "valid_point c \<lparr>px = bn_zero, py = half\<rparr>"
    using half_quarter(1) bn_zero_correct by (simp add: valid_point_def c_def)
  have p: "bn_prime (curve_prime c)" using secp256k1_prime(3) by (simp add: c_def)
  have "(2 * bn_val half) mod bn_val (curve_prime c) = 1 mod bn_val (curve_prime c)" unfolding half_quarter(2) by (simp add: c_def)
  from pow_cong_mod[OF this] show "fermat c (2 * bn_val half)" using fermat_one[OF p] by (simp only: fermat_def)
qed

lemma sample_random: "generate_k_random [1, 0, 0, 0, 0, 0, 0, 0, 0] (curve_prime secp256k1) = Some (bn_one, [])"
proof -
  have k: "\<lparr>val = map (\<lambda>r. r AND 0x3FFFFFFF) (take 8 [1, 0, 0, 0, 0, 0, 0, 0, 0]) @ [[1, 0, 0, 0, 0, 0, 0, 0, 0] ! 8 AND 0xFFFF]\<rparr> = bn_one"
    by (simp add: bn_one_def)
  have "\<not> bn_is_zero bn_one" "bn_is_less bn_one (curve_prime secp256k1)"
    using bn_is_zero_correct[of bn_one] bn_is_less_correct[OF bn_one_correct(1), of "curve_prime secp256k1"] bn_one_correct secp256k1_prime by simp_all
  then show ?thesis by (subst generate_k_random.simps) (simp only: k Let_def, simp)
qed

lemma secp256k1_arith: "curve_arith secp256k1"
  using secp256k1_ok secp256k1_prime(2)
  by (simp add: curve_ok_def curve_arith_def) (simp add: secp256k1_def bn_normalized_def bn_wf_def bn_val_def)

lemma base_point_valid: "valid_point secp256k1 (curve_G secp256k1)" "\<not> point_is_infinity (curve_G secp256k1)"
proof -
  have n: "bn_normalized (px (curve_G secp256k1))" "bn_normalized (py (curve_G secp256k1))" using secp256k1_ok by (simp_all add: curve_ok_def)
  show "valid_point secp256k1 (curve_G secp256k1)"
    using n secp256k1_base_point by (simp add: valid_point_def) (simp add: secp256k1_def bn_val_def)
  show "\<not> point_is_infinity (curve_G secp256k1)" by (simp add: point_infinity_iff[OF n]) (simp add: secp256k1_def bn_val_def)
qed

text \<open>A fourth root of 2.\<close>

definition fourth_root :: bignum256 where
  "fourth_root = \<lparr>val = [0x55f559, 0xca5b2cf, 0x349c7956, 0x1a4f100, 0x1566b491, 0x245fe2b3, 0x2702a365, 0x14ded386, 0xf7a0]\<rparr>"

lemma fourth_root_val: "bn_normalized fourth_root" "bn_val fourth_root = 112004545299676797869069334913252528052755686925274135055083740980729504724313"
  by (simp_all add: fourth_root_def bn_normalized_def bn_wf_def bn_val_def)

lemma fourth_root_pow: "bn_val fourth_root ^ 4 = 2 + bn_val (curve_prime secp256k1) * 1359138451225015559842153565413189396162306298639408142557794468051865168358047671947048110360665931287594197744117950767527125595547528254025732027440208667864675591365990766500880808299265714169048062758156988959311433445859162193"
  by (simp add: fourth_root_val secp256k1_prime(1))

lemma sample_random2: "generate_k_random [0x55f559, 0xca5b2cf, 0x349c7956, 0x1a4f100, 0x1566b491, 0x245fe2b3, 0x2702a365, 0x14ded386, 0xf7a0] (curve_prime secp256k1) = Some (fourth_root, [])"
proof -
  have k: "\<lparr>val = map (\<lambda>r. r AND 0x3FFFFFFF) (take 8 [0x55f559, 0xca5b2cf, 0x349c7956, 0x1a4f100, 0x1566b491, 0x245fe2b3, 0x2702a365, 0x14ded386, 0xf7a0]) @ [[0x55f559, 0xca5b2cf, 0x349c7956, 0x1a4f100, 0x1566b491, 0x245fe2b3, 0x2702a365, 0x14ded386, 0xf7a0] ! 8 AND 0xFFFF]\<rparr> = fourth_root"
    by (simp add: fourth_root_def)
  have "\<not> bn_is_zero fourth_root" "bn_is_less fourth_root (curve_prime secp256k1)"
    using bn_is_zero_correct[of fourth_root] bn_is_less_correct[OF fourth_root_val(1), of "curve_prime secp256k1"] fourth_root_val secp256k1_prime by simp_all
  then show ?thesis by (subst generate_k_random.simps) (simp only: k Let_def, simp)
qed

lemma sample_fourth_root: "fermat (secp256k1\<lparr>curve_b := quarter\<rparr>) (bn_val half * bn_val fourth_root ^ 4)"
proof -
  let ?p = "bn_val (curve_prime secp256k1)"
  have "bn_val half * bn_val fourth_root ^ 4 = 2 * bn_val half + ?p * (bn_val half * 1359138451225015559842153565413189396162306298639408142557794468051865168358047671947048110360665931287594197744117950767527125595547528254025732027440208667864675591365990766500880808299265714169048062758156988959311433445859162193)"
    unfolding fourth_root_pow by (simp only: distrib_left mult.assoc mult.left_commute mult.commute)
  also have "\<dots> = 1 + ?p * (1 + bn_val half * 1359138451225015559842153565413189396162306298639408142557794468051865168358047671947048110360665931287594197744117950767527125595547528254025732027440208667864675591365990766500880808299265714169048062758156988959311433445859162193)"
    unfolding half_quarter(2) by (simp only: distrib_left mult_1_right add.assoc add.commute)
  finally have "(bn_val half * bn_val fourth_root ^ 4) mod ?p = 1 mod ?p" by (simp only: mod_mult_self2)
  from pow_cong_mod[OF this] fermat_one[OF secp256k1_prime(3)]
  have "fermat secp256k1 (bn_val half * bn_val fourth_root ^ 4)" by (simp only: fermat_def)
  then show ?thesis by (simp add: fermat_def)
qed

end
