(* ===== verification/EcSig.thy ===== *)
theory EcSig
  imports Bignum Hmac Outcome
begin

text \<open>
  Signatures as byte strings and the deterministic nonces, \<open>trezor-crypto/src/ecdsa.c\<close>: the DER form of
  a signature and its two readers, and the generator of RFC 6979. A read outside an array is
  \<open>Undefined\<close>; a reader that gives up with the result 0 returns \<open>None\<close>.
\<close>

unbundle bit_operations_syntax

section \<open>DER\<close>

text \<open>The loop over leading zeros looks at the byte before it compares the index.\<close>

function skip_zeros :: "u8 list \<Rightarrow> nat \<Rightarrow> nat \<Rightarrow> nat option" where
  "skip_zeros sig hi i =
     (if length sig \<le> i then None
      else if sig ! i = 0 \<and> i < hi then skip_zeros sig hi (i + 1) else Some i)"
  by pat_completeness auto

termination
  by (relation "measure (\<lambda>(sig, hi, i). hi - i)") auto

declare skip_zeros.simps [simp del]

definition der_integer :: "u8 list \<Rightarrow> nat \<Rightarrow> nat \<Rightarrow> u8 list outcome" where
  "der_integer sig lo hi =
     (case skip_zeros sig hi lo of
        None \<Rightarrow> Undefined
      | Some i \<Rightarrow>
          let bytes = (if 0x80 \<le> sig ! i then [0] else []) @ take (hi - i) (drop i sig)
          in Ret (0x02 # word_of_nat (length bytes) # bytes))"

definition ecdsa_sig_to_der :: "u8 list \<Rightarrow> u8 list outcome" where
  "ecdsa_sig_to_der sig =
     and_then (der_integer sig 0 32) (\<lambda>r. and_then (der_integer sig 32 64) (\<lambda>s.
       let len1 = r ! 1; len2 = s ! 1 in Ret (0x30 # (len1 + len2 + 4) # r @ s)))"

text \<open>One integer, read from \<open>offset\<close>; the result are its 32 bytes and the offset behind it.\<close>

definition der_value :: "u8 list \<Rightarrow> nat \<Rightarrow> (u8 list \<times> nat) option outcome" where
  "der_value der offset =
     (if length der \<le> offset + 2 then Undefined
      else
        let len :: int = (if der ! (offset + 2) = 0 then uint (der ! (offset + 1)) - 1 else uint (der ! (offset + 1)));
            offset = (if der ! (offset + 2) = 0 then offset + 3 else offset + 2)
        in if len < 0 \<or> 32 < len then Ret None
           else if length der < offset + nat len then Undefined
           else Ret (Some (replicate (32 - nat len) 0 @ take (nat len) (drop offset der), offset + nat len)))"

definition ecdsa_der_to_sig :: "u8 list \<Rightarrow> u8 list option outcome" where
  "ecdsa_der_to_sig der =
     and_then (der_value der 2) (\<lambda>r. case r of
        None \<Rightarrow> Ret None
      | Some (r, offset) \<Rightarrow> and_then (der_value der offset) (\<lambda>s. case s of
            None \<Rightarrow> Ret None
          | Some (s, _) \<Rightarrow> Ret (Some (r @ s))))"

text \<open>
  The other reader checks the tags. The bytes to skip are counted in an unsigned byte: a length below 32
  wraps, and nothing is copied. The result is the number the C function returns and the bytes written.
\<close>

definition der_copy :: "u8 list \<Rightarrow> nat \<Rightarrow> u8 \<Rightarrow> (u8 list \<times> nat) outcome" where
  "der_copy der q len =
     (let lenZero = len - 32;
          q = q + unat lenZero;
          n = unat len - unat lenZero
      in if 0 < n \<and> length der < q + n then Undefined else Ret (take n (drop q der), q + n))"

definition der_to_ecdsa_sig :: "u8 list \<Rightarrow> (int \<times> u8 list) outcome" where
  "der_to_ecdsa_sig der =
     (if length der \<le> 0 then Undefined
      else if der ! 0 \<noteq> 0x30 then Ret (0, [])
      else if length der \<le> 2 then Undefined
      else if der ! 2 \<noteq> 0x02 then Ret (0, [])
      else if length der \<le> 3 then Undefined
      else
        let len1 = der ! 3
        in and_then (der_copy der 4 len1) (\<lambda>(r, q).
             if length der \<le> q then Undefined
             else if der ! q \<noteq> 0x02 then Ret (0, r)
             else if length der \<le> q + 1 then Undefined
             else
               let len2 = der ! (q + 1)
               in and_then (der_copy der (q + 2) len2) (\<lambda>(s, q).
                    Ret (uint len1 - uint (len1 - 32) + uint len2 - uint (len2 - 32), r @ s))))"

section \<open>Nonces\<close>

record rfc6979_state =
  rfc_v :: "u8 list"
  rfc_k :: "u8 list"

definition init_rfc6979 :: "u8 list \<Rightarrow> u8 list \<Rightarrow> rfc6979_state" where
  "init_rfc6979 priv_key hash =
     (let bx = take 32 priv_key @ take 32 hash;
          v = replicate 32 1;
          k = replicate 32 0;
          buf = v @ [0x00] @ bx;
          k = hmac_sha256 k buf;
          v = hmac_sha256 k v;
          buf = v @ [0x01] @ bx;
          k = hmac_sha256 k buf;
          v = hmac_sha256 k v
      in \<lparr>rfc_v = v, rfc_k = k\<rparr>)"

definition generate_rfc6979 :: "rfc6979_state \<Rightarrow> u8 list \<times> rfc6979_state" where
  "generate_rfc6979 state =
     (let v = hmac_sha256 (rfc_k state) (rfc_v state);
          buf = v @ [0x00];
          k = hmac_sha256 (rfc_k state) buf;
          v = hmac_sha256 k v
      in (take 32 buf, \<lparr>rfc_v = v, rfc_k = k\<rparr>))"

definition generate_k_rfc6979 :: "rfc6979_state \<Rightarrow> bignum256 \<times> rfc6979_state" where
  "generate_k_rfc6979 state = (let (buf, state) = generate_rfc6979 state in (bn_read_be buf, state))"

section \<open>A signature survives the DER form\<close>

text \<open>The minimal big-endian digits of a 32-byte number that is not zero.\<close>

abbreviation nonzero :: "u8 list \<Rightarrow> bool" where
  "nonzero bs \<equiv> \<exists>b\<in>set bs. b \<noteq> 0"

lemma skip_zeros_dropWhile:
  assumes "i + length bs = hi" "hi \<le> length sig" "take (length bs) (drop i sig) = bs" "nonzero bs"
  shows "\<exists>j. skip_zeros sig hi i = Some (i + j) \<and> j < length bs \<and> dropWhile (\<lambda>b. b = 0) bs = drop j bs \<and> takeWhile (\<lambda>b. b = 0) bs = replicate j 0 \<and> bs ! j \<noteq> 0"
  using assms
proof (induction bs arbitrary: i)
  case (Cons b bs)
  have i: "i < length sig" "i < hi" using Cons.prems by simp_all
  have d: "drop i sig = sig ! i # drop (Suc i) sig" using i by (simp add: Cons_nth_drop_Suc)
  then have b: "sig ! i = b" "take (length bs) (drop (Suc i) sig) = bs" using Cons.prems(3) by simp_all
  show ?case
  proof (cases "b = 0")
    case False
    then show ?thesis using i b by (intro exI[of _ 0]) (simp add: skip_zeros.simps[of sig hi i])
  next
    case True
    have "nonzero bs" using Cons.prems(4) True by simp
    from Cons.IH[OF _ Cons.prems(2) b(2) this] Cons.prems(1)
    obtain j where "skip_zeros sig hi (Suc i) = Some (Suc i + j)" "j < length bs" "dropWhile (\<lambda>b. b = 0) bs = drop j bs"
        "takeWhile (\<lambda>b. b = 0) bs = replicate j 0" "bs ! j \<noteq> 0" by auto
    then show ?thesis using i b True by (intro exI[of _ "Suc j"]) (simp add: skip_zeros.simps[of sig hi i])
  qed
qed simp

text \<open>What is written for an integer: a positive number of at most 33 bytes.\<close>

definition der_bytes :: "u8 list \<Rightarrow> u8 list" where
  "der_bytes bs = (let ds = dropWhile (\<lambda>b. b = 0) bs in (if 0x80 \<le> hd ds then [0] else []) @ ds)"

lemma der_integer_bytes:
  assumes "length bs = 32" "nonzero bs" "lo + 32 \<le> length sig" "take 32 (drop lo sig) = bs"
  shows "der_integer sig lo (lo + 32) = Ret (0x02 # word_of_nat (length (der_bytes bs)) # der_bytes bs)"
proof -
  obtain j where j: "skip_zeros sig (lo + 32) lo = Some (lo + j)" "j < length bs" "dropWhile (\<lambda>b. b = 0) bs = drop j bs"
    using skip_zeros_dropWhile[of lo bs "lo + 32" sig] assms by auto
  have "take (32 - j) (drop (lo + j) sig) = drop j (take 32 (drop lo sig))" by (simp add: drop_take add.commute)
  then have d: "take (32 - j) (drop (lo + j) sig) = drop j bs" using assms(4) by simp
  have "hd (drop j bs) = bs ! j" using j(2) by (simp add: hd_drop_conv_nth)
  also have "bs ! j = sig ! (lo + j)" using j(2) assms by (metis nth_drop nth_take add_leD1 le_add1)
  finally show ?thesis using j d by (simp add: der_integer_def der_bytes_def Let_def)
qed

lemma der_bytes_parts:
  assumes "length bs = 32" "nonzero bs"
  obtains j d ds where "bs = replicate j 0 @ d # ds" "d \<noteq> 0" "j + length ds = 31"
    "der_bytes bs = (if 0x80 \<le> d then [0] else []) @ d # ds"
proof -
  have "dropWhile (\<lambda>b. b = 0) bs \<noteq> []" using assms(2) by auto
  then obtain d ds where d: "dropWhile (\<lambda>b. b = 0) bs = d # ds" by (cases "dropWhile (\<lambda>b. b = 0) bs") auto
  define j where "j = length (takeWhile (\<lambda>b. b = 0) bs)"
  have "\<forall>b\<in>set (takeWhile (\<lambda>b. b = 0) bs). b = 0" by (auto dest: set_takeWhileD)
  then have "takeWhile (\<lambda>b. b = 0) bs = replicate j 0" by (simp add: replicate_length_same j_def)
  then have bs: "bs = replicate j 0 @ d # ds" using takeWhile_dropWhile_id[of "\<lambda>b. b = 0" bs] d by simp
  have d0: "d \<noteq> 0" using hd_dropWhile[of "\<lambda>b. b = 0" bs] d by simp
  have len: "j + length ds = 31" using assms(1) arg_cong[OF bs, of length] by simp
  have db: "der_bytes bs = (if 0x80 \<le> d then [0] else []) @ d # ds" by (simp add: der_bytes_def d)
  show ?thesis by (rule that[OF bs d0 len db])
qed

lemma length_der_bytes: "length bs = 32 \<Longrightarrow> nonzero bs \<Longrightarrow> 0 < length (der_bytes bs) \<and> length (der_bytes bs) \<le> 33"
  by (erule (1) der_bytes_parts) simp

lemma der_value_bytes:
  assumes "length bs = 32" "nonzero bs"
  shows "der_value (pre @ [t, word_of_nat (length (der_bytes bs))] @ der_bytes bs @ rest) (length pre)
    = Ret (Some (bs, length pre + 2 + length (der_bytes bs)))"
proof -
  obtain j d ds where j: "bs = replicate j 0 @ d # ds" "d \<noteq> 0" "j + length ds = 31"
    "der_bytes bs = (if 0x80 \<le> d then [0] else []) @ d # ds"
    by (rule der_bytes_parts[OF assms])
  have l: "length ds \<le> 31" "replicate (31 - length ds) 0 @ d # ds = bs" using j(1,3) by (simp_all flip: j(3))
  have u: "uint (word_of_nat n :: u8) = int n" if "n \<le> 33" for n using that by (simp add: unsigned_of_nat take_bit_nat_eq_self)
  show ?thesis
  proof (cases "0x80 \<le> d")
    case True
    have n: "uint (word_of_nat (Suc (Suc (length ds))) :: u8) = int (Suc (Suc (length ds)))" using u[of "Suc (Suc (length ds))"] l by simp
    show ?thesis using True l n unfolding j(4) by (simp add: der_value_def nth_append Let_def nat_add_distrib)
  next
    case False
    have n: "uint (word_of_nat (Suc (length ds)) :: u8) = int (Suc (length ds))" using u[of "Suc (length ds)"] l by simp
    show ?thesis using False j(2) l n unfolding j(4) by (simp add: der_value_def nth_append Let_def nat_add_distrib)
  qed
qed

text \<open>The DER form of a signature, and what the first reader makes of it.\<close>

definition der_form :: "u8 list \<Rightarrow> u8 list \<Rightarrow> u8 list" where
  "der_form r s = [0x30, word_of_nat (length (der_bytes r)) + word_of_nat (length (der_bytes s)) + 4]
     @ [0x02, word_of_nat (length (der_bytes r))] @ der_bytes r @ [0x02, word_of_nat (length (der_bytes s))] @ der_bytes s"

lemma sig_to_der_form:
  assumes "length r = 32" "length s = 32" "nonzero r" "nonzero s"
  shows "ecdsa_sig_to_der (r @ s) = Ret (der_form r s)"
  using der_integer_bytes[OF assms(1,3), of 0 "r @ s"] der_integer_bytes[OF assms(2,4), of 32 "r @ s"] assms(1,2)
  by (simp add: ecdsa_sig_to_der_def der_form_def)

lemma der_to_sig_form:
  assumes "length r = 32" "length s = 32" "nonzero r" "nonzero s"
  shows "ecdsa_der_to_sig (der_form r s) = Ret (Some (r @ s))"
proof -
  let ?h = "[0x30, word_of_nat (length (der_bytes r)) + word_of_nat (length (der_bytes s)) + 4]"
  let ?r = "[0x02, word_of_nat (length (der_bytes r))] @ der_bytes r"
  let ?s = "[0x02, word_of_nat (length (der_bytes s))] @ der_bytes s"
  have "der_value (?h @ ?r @ ?s) 2 = Ret (Some (r, 2 + 2 + length (der_bytes r)))"
    using der_value_bytes[OF assms(1,3), of ?h "0x02" ?s] by (simp add: numeral_eq_Suc)
  moreover have "der_value ((?h @ ?r) @ ?s @ []) (2 + 2 + length (der_bytes r)) = Ret (Some (s, 2 + 2 + length (der_bytes r) + 2 + length (der_bytes s)))"
    using der_value_bytes[OF assms(2,4), of "?h @ ?r" "0x02" "[]"] by (simp add: numeral_eq_Suc)
  ultimately show ?thesis by (simp add: ecdsa_der_to_sig_def der_form_def)
qed

section \<open>The second reader\<close>

lemma long_bytes:
  assumes "length bs = 32" "nonzero bs" "32 \<le> length (der_bytes bs)"
  shows "drop (length (der_bytes bs) - 32) (der_bytes bs) = bs"
proof -
  obtain j d ds where j: "bs = replicate j 0 @ d # ds" "d \<noteq> 0" "j + length ds = 31"
    "der_bytes bs = (if 0x80 \<le> d then [0] else []) @ d # ds"
    by (rule der_bytes_parts[OF assms(1,2)])
  have "j = 0 \<or> j = 1 \<and> 0x80 \<le> d" using assms(3) j(3) unfolding j(4) by (auto split: if_splits)
  then show ?thesis
  proof
    assume "j = 0"
    then show ?thesis using j(3) unfolding j(4) by (simp add: j(1))
  next
    assume "j = 1 \<and> 0x80 \<le> d"
    then show ?thesis using j(3) unfolding j(4) by (simp add: j(1))
  qed
qed

lemma der_copy_bytes:
  assumes "length bs = 32" "nonzero bs"
  defines "n \<equiv> length (der_bytes bs)"
  shows "der_copy (pre @ der_bytes bs @ rest) (length pre) (word_of_nat n) = (if 32 \<le> n then Ret (bs, length pre + n) else Ret ([], length pre + (n + 224)))"
    "uint (word_of_nat n :: u8) - uint (word_of_nat n - 32 :: u8) = (if 32 \<le> n then 32 else - 224)"
proof -
  have n: "0 < n" "n \<le> 33" using length_der_bytes[OF assms(1,2)] by (simp_all add: n_def)
  have u: "unat (word_of_nat n :: u8) = n" using n by (simp add: unsigned_of_nat take_bit_nat_eq_self)
  have z: "unat (word_of_nat n - 32 :: u8) = (if 32 \<le> n then n - 32 else n + 224)"
  proof (cases "32 \<le> n")
    case True
    then have "n = 32 \<or> n = 33" using n(2) by linarith
    then show ?thesis by auto
  next
    case False
    have "word_of_nat n - 32 = (word_of_nat (n + 224) :: u8)" by simp
    moreover have "unat (word_of_nat (n + 224) :: u8) = n + 224" using False by (subst unat_of_nat) simp
    ultimately show ?thesis using False by (simp only: if_False)
  qed
  have l: "drop (n - 32) (der_bytes bs) = bs" if "32 \<le> n" using long_bytes[OF assms(1,2)] that by (simp add: n_def)
  show "der_copy (pre @ der_bytes bs @ rest) (length pre) (word_of_nat n) = (if 32 \<le> n then Ret (bs, length pre + n) else Ret ([], length pre + (n + 224)))"
  proof (cases "32 \<le> n")
    case True
    then show ?thesis using l[OF True] assms(1) u z n by (auto simp: der_copy_def Let_def simp flip: n_def)
  next
    case False
    then show ?thesis using u z by (simp add: der_copy_def Let_def)
  qed
  show "uint (word_of_nat n :: u8) - uint (word_of_nat n - 32 :: u8) = (if 32 \<le> n then 32 else - 224)"
    using u z n by (auto simp: uint_nat simp del: unat_arith_simps)
qed

lemma der_to_ecdsa_sig_form:
  assumes "length r = 32" "length s = 32" "nonzero r" "nonzero s"
  shows "der_to_ecdsa_sig (der_form r s) =
    (if length (der_bytes r) < 32 then Undefined
     else if length (der_bytes s) < 32 then Ret (- 192, r) else Ret (64, r @ s))"
proof -
  define D lr ls where "D = der_form r s" and "lr = length (der_bytes r)" and "ls = length (der_bytes s)"
  let ?h = "[0x30, word_of_nat lr + word_of_nat ls + 4] :: u8 list"
  let ?r = "[0x02, word_of_nat lr] :: u8 list" and ?s = "[0x02, word_of_nat ls] :: u8 list"
  have D: "D = (?h @ ?r) @ der_bytes r @ (?s @ der_bytes s)" "D = (?h @ ?r @ der_bytes r @ ?s) @ der_bytes s @ []"
    by (simp_all add: D_def der_form_def lr_def ls_def)
  have lens: "lr \<le> 33" "ls \<le> 33" using length_der_bytes assms by (simp_all add: lr_def ls_def)
  have len: "length D = 6 + lr + ls" by (simp add: D(1) lr_def ls_def)
  have n: "D ! 0 = 0x30" "D ! 2 = 0x02" "D ! 3 = word_of_nat lr" "D ! (4 + lr) = 0x02" "D ! (4 + lr + 1) = word_of_nat ls"
    unfolding D(1) by (simp_all add: nth_append lr_def)
  have c1: "der_copy D 4 (word_of_nat lr) = (if 32 \<le> lr then Ret (r, 4 + lr) else Ret ([], 4 + (lr + 224)))"
    using der_copy_bytes(1)[OF assms(1,3), of "?h @ ?r" "?s @ der_bytes s", folded D(1) lr_def] by (simp add: numeral_eq_Suc)
  have c2: "der_copy D (4 + lr + 2) (word_of_nat ls) = (if 32 \<le> ls then Ret (s, 6 + lr + ls) else Ret ([], 6 + lr + (ls + 224)))"
    using der_copy_bytes(1)[OF assms(2,4), of "?h @ ?r @ der_bytes r @ ?s" "[]", folded D(2) ls_def] by (simp add: lr_def numeral_eq_Suc)
  have t: "uint (word_of_nat lr :: u8) - uint (word_of_nat lr - 32 :: u8) = (if 32 \<le> lr then 32 else - 224)"
    "uint (word_of_nat ls :: u8) - uint (word_of_nat ls - 32 :: u8) = (if 32 \<le> ls then 32 else - 224)"
    using der_copy_bytes(2)[OF assms(1,3)] der_copy_bytes(2)[OF assms(2,4)] by (simp_all only: lr_def ls_def)
  have "der_to_ecdsa_sig D = (if lr < 32 then Undefined else if ls < 32 then Ret (- 192, r) else Ret (64, r @ s))"
  proof (cases "lr < 32")
    case True
    then show ?thesis using lens by (simp add: der_to_ecdsa_sig_def len n(1-3) c1)
  next
    case False
    have "32 + uint (word_of_nat ls :: u8) - uint (word_of_nat ls - 32 :: u8) = (if 32 \<le> ls then 64 else - 192)" using t(2) by auto
    then show ?thesis using False t(1) lens
      by (simp add: der_to_ecdsa_sig_def Let_def len n(1-3) c1 n(4,5)[simplified] c2[simplified])
  qed
  then show ?thesis by (simp only: D_def lr_def ls_def)
qed

section \<open>The generator of RFC 6979\<close>

text \<open>
  Section 3.2: the state after steps b to g for a key \<open>x\<close> and a digest \<open>h\<close>, and the candidates of
  step h, each following the rejection of the one before. The code takes the digest as it is, where
  step b reduces it modulo the order.
\<close>

definition rfc_mac :: "u8 list \<Rightarrow> u8 list \<Rightarrow> u8 list" where
  "rfc_mac = hmac_spec 64 sha256_fips"

lemma length_rfc_mac: "length (rfc_mac key msg) = 32"
  by (simp add: rfc_mac_def hmac_spec_def Let_def length_sha_fips)

definition rfc_start :: "u8 list \<Rightarrow> u8 list \<Rightarrow> u8 list \<times> u8 list" where
  "rfc_start x h =
     (let K1 = rfc_mac (replicate 32 0) (replicate 32 1 @ [0] @ x @ h); V1 = rfc_mac K1 (replicate 32 1);
          K2 = rfc_mac K1 (V1 @ [1] @ x @ h)
      in (K2, rfc_mac K2 V1))"

fun rfc_candidate :: "u8 list \<times> u8 list \<Rightarrow> nat \<Rightarrow> u8 list" where
  "rfc_candidate (K, V) 0 = rfc_mac K V"
| "rfc_candidate (K, V) (Suc n) =
     (let T = rfc_mac K V; K' = rfc_mac K (T @ [0]) in rfc_candidate (K', rfc_mac K' T) n)"

lemma generate_rfc6979_candidate:
  "fst (generate_rfc6979 (((\<lambda>st. snd (generate_rfc6979 st)) ^^ n) st)) = rfc_candidate (rfc_k st, rfc_v st) n"
proof (induction n arbitrary: st)
  case 0
  then show ?case using length_rfc_mac[of "rfc_k st" "rfc_v st"] by (simp add: generate_rfc6979_def hmac_sha256_spec rfc_mac_def Let_def)
next
  case (Suc n)
  have "fst (generate_rfc6979 (((\<lambda>st. snd (generate_rfc6979 st)) ^^ Suc n) st))
      = fst (generate_rfc6979 (((\<lambda>st. snd (generate_rfc6979 st)) ^^ n) (snd (generate_rfc6979 st))))"
    by (simp only: funpow_Suc_right comp_def)
  also have "\<dots> = rfc_candidate (rfc_k st, rfc_v st) (Suc n)"
    unfolding Suc.IH by (simp add: generate_rfc6979_def hmac_sha256_spec rfc_mac_def Let_def)
  finally show ?case .
qed

lemma init_rfc6979_start:
  assumes "length x = 32" "length h = 32"
  shows "init_rfc6979 x h = (case rfc_start x h of (K, V) \<Rightarrow> \<lparr>rfc_v = V, rfc_k = K\<rparr>)"
  using assms by (simp add: init_rfc6979_def rfc_start_def hmac_sha256_spec rfc_mac_def Let_def)

end
