(* ===== verification/Spec2Isabelle.thy ===== *)
theory Spec2Isabelle
  imports BignumDiv Curves Tlv Base32 XmrBase58 CashAddr Bip39 Ble Apdu EcKey EcSig
begin

text \<open>
  The JuBiter SDK is the host side of a hardware wallet. It consists of a C library of wallet
  cryptography (\<open>trezor-crypto\<close>), the secure channel to the card (\<open>gpc\<close>), the devices and their packet
  layers (\<open>src/device\<close>), and on top of them the coins, contexts and bindings. A command for the card is
  built as an APDU, encrypted and authenticated by the channel, cut into packets by the transport, and
  the answer takes the same way back; keys, mnemonics, addresses and signatures are made with the
  cryptographic library. This development models the layers that compute: numbers, encodings, hashes,
  curve points and keys, mnemonics, the channel, the APDU builder and the packets.

  Conventions. C integers are words of their width, and wrap as in C; the host is little-endian with
  64-bit \<open>size_t\<close>. An array is a list of its elements; a pointer that a function writes through is part
  of its result, one that it reads and writes is an argument and part of the result. A struct or class is
  a record. A C string is the list of its bytes or characters before the NUL. A function that reports
  failure returns an option; the C++ code returns an \<open>outcome\<close>: a value, a return code, or \<open>Undefined\<close> for
  an access outside an array, a null dereference and the like. The wiping of memory after use is not
  modelled, nor is the time a function takes.

  Loops and termination. A counted loop without exit is \<open>for_up\<close> or \<open>for_down\<close> (Prelude), with an
  invariant rule; the other loops are recursive functions with a measure. There is no fuel: every model
  is total. The one loop of the code that may not end, the choice of a random number in range
  (\<open>generate_k_random\<close>), runs over the list of the words the generator delivers and is \<open>None\<close> when they run out.

  Parameters. Code that the repository only calls or that is not modelled is an argument: the hash of the
  base58 checksums (\<open>hasher_Raw\<close>), the AES block functions of the channel (\<open>aes_lib\<close>; the laws used are
  \<open>block_ciphers\<close>: blocks have 16 bytes and decryption inverts encryption), the driver of the Bluetooth
  exchange (\<open>Ble\<close>), random bytes, and the content of memory that the code does not initialise (\<open>junk\<close>).
  Number theory enters as a hypothesis on single numbers: \<open>fermat c a\<close> says that Fermat's theorem holds
  for \<open>a\<close> and the prime of the curve, \<open>euler c a\<close> Euler's criterion; both hold for all residues of a prime.

  Theories and sources (under \<open>src/\<close>).

  Prelude, Outcome: machine integers, loops, byte strings; results of the C++ code.

  Bignum, BignumMul, BignumDiv (\<open>trezor-crypto/src/bignum.c\<close>): numbers of nine 30-bit limbs. \<open>bn_val\<close> is
  the value; each operation is related to integer arithmetic through it, with the bounds under which no
  limb and no accumulator overflows. The locale \<open>bn_divider\<close> is the contract of the two divisions by a
  constant. Curves (\<open>secp256k1.c\<close>, \<open>nist256p1.c\<close>): the parameters, checked.

  Residue, EcPoint, EcKey, EcSig (\<open>trezor-crypto/src/ecdsa.c\<close>): \<open>rep\<close> follows the residue and the bound of a
  number through chains of \<open>bignum.c\<close> calls; with it, addition and doubling are chord and tangent and stay on
  the curve (\<open>third_point\<close>, \<open>valid_point\<close>), the Jacobian operations agree with the affine ones, a public key
  that is read is a point of the curve and survives compression; signatures survive their DER form, and
  the nonces follow RFC 6979.

  Blocks, Radix, Base32, Base58, XmrBase58, CashAddr (\<open>base32.c\<close>, \<open>base58.c\<close>, \<open>ripple/base58.c\<close>,
  \<open>monero/base58.c\<close>, \<open>cash_addr.c\<close>): encoders and decoders with their round trips; \<open>block_codec\<close> is the contract
  of the two encodings that work block by block.

  HashStream, Sha2 (\<open>sha2.c\<close>): SHA-1, SHA-256, SHA-512. The locale \<open>sha_stream\<close> proves streaming once for the
  three, and each transform, in its looped and its unrolled form, is the function of the standard.
  Hmac (\<open>hmac.c\<close>) over the contract \<open>hash_stream\<close>, Pbkdf2 (\<open>pbkdf2.c\<close>) over \<open>sha_stream8\<close>, an extension of
  \<open>sha_stream\<close>; Bip39Words, Bip39 (\<open>bip39_english.h\<close>, \<open>bip39.c\<close>): mnemonics and seeds.

  Tlv (\<open>gpc/src/tlvparse.c\<close>): the header parser of the card's data objects.

  Cmac (\<open>trezor-crypto/src/cmac.c\<close>): AES-128 with its own tables and AES-CMAC, against FIPS 197 and SP 800-38B; the
  S-box is data. Scp03 (\<open>gpc/src/scp03.cpp\<close> and the CBC loops of \<open>aes/aes_modes.c\<close>): padding, chaining vectors,
  encryption and MAC. Apdu (\<open>include/utility/Apdu.hpp\<close>, \<open>src/device/ApduBuilder.cpp\<close>): commands, responses and
  both directions of the channel; \<open>command_icv\<close>, \<open>response_icv\<close>, \<open>command_mac\<close> and \<open>response_mac\<close> are the other end.

  Fido (\<open>src/device/Fido.cpp\<close>): packets, the receive callback as a step on the object, and the reachable
  states \<open>accepted\<close>; Ble (\<open>src/device/JubiterBLEDevice.cpp\<close>): one exchange over it.

  Not modelled. Scalar multiplication, signing and verification of \<open>ecdsa.c\<close> and the HD keys of \<open>bip32.c\<close>:
  their correctness is a statement about the group of the curve, whose associativity is beyond what is
  proved here. The AES tables of B. Gladman, the curve25519 and Monero arithmetic, the other hash functions
  and ciphers: third-party code that is included in the repository. SCP11 certificates and key agreement. The coins, contexts and
  protocol buffers, which arrange calls of the above and of external libraries; drivers and operating-system
  I/O; bindings, tests, generated code and the vendored libraries under \<open>deps\<close>.
\<close>

section \<open>Big numbers\<close>

text \<open>C1. Modular multiplication: for normalized factors below 180 times a prime in the range the code asks for, the product that bn_multiply leaves in x is normalized, below twice the prime, and congruent to the product of the values; and both assertions of the reduction hold in each of its nine steps: the estimated quotient is below 2^31, and after the step the limb above the window is zero.\<close>

theorem bn_multiply_residue:
  assumes "bn_normalized k" and "bn_val k < 180 * bn_val p" and "bn_normalized x" and "bn_val x < 180 * bn_val p"
    and "bn_prime p"
  shows "partly_reduced (bn_multiply k x p) p
    \<and> bn_val (bn_multiply k x p) mod bn_val p = (bn_val k * bn_val x) mod bn_val p
    \<and> (\<forall>i\<in>{8..16}. reduce_coef (reduce_at k x p i) i < 0x80000000
         \<and> bn_multiply_reduce_step (reduce_at k x p i) p i ! (i + 1) = 0)"
  using bn_multiply_correct[OF assms] bn_multiply_asserts[OF assms] by simp

theorem bn_multiply_residue_witness:
  "partly_reduced (bn_multiply (px (curve_G secp256k1)) (py (curve_G secp256k1)) (curve_prime secp256k1)) (curve_prime secp256k1)"
  using bn_multiply_residue[of "px (curve_G secp256k1)" "curve_prime secp256k1" "py (curve_G secp256k1)"] secp256k1_ok
  by (simp add: curve_ok_def secp256k1_def bn_val_def)

text \<open>C2. Modular inverse, for a partly reduced x (zero included) and a prime in the range of the code whose lowest limb is at least 2: the exponentiation by p - 2 that bn_inverse performs limb by limb yields the fully reduced power; and if Fermat's equation holds for x, the result is the inverse of x modulo the prime.\<close>

theorem bn_inverse_is_inverse:
  assumes "partly_reduced x p" and "bn_prime p" and "2 \<le> uint (val p ! 0)"
  shows "bn_val (bn_inverse x p) = bn_val x ^ nat (bn_val p - 2) mod bn_val p
    \<and> (bn_val x ^ nat (bn_val p - 1) mod bn_val p = 1 \<longrightarrow> (bn_val x * bn_val (bn_inverse x p)) mod bn_val p = 1)"
  using bn_inverse_correct(2)[OF assms] bn_inverse_inverts[OF assms] by blast

theorem bn_inverse_is_inverse_witness:
  "(bn_val (bn_subi bn_zero 1 (curve_prime secp256k1)) * bn_val (bn_inverse (bn_subi bn_zero 1 (curve_prime secp256k1)) (curve_prime secp256k1)))
     mod bn_val (curve_prime secp256k1) = 1"
proof -
  let ?p = "curve_prime secp256k1" and ?x = "bn_subi bn_zero 1 (curve_prime secp256k1)"
  have p: "bn_prime ?p" "odd (bn_val ?p)" "2 \<le> uint (val ?p ! 0)"
    using secp256k1_ok by (simp_all add: curve_ok_def)
  have "1 \<le> val ?p ! 0" by (simp add: secp256k1_def)
  note x = bn_subi_minus_one[OF bn_prime_normalized[OF p(1)] this bn_prime_pos[OF p(1)]]
  have "bn_val ?x ^ nat (bn_val ?p - 1) mod bn_val ?p = 1"
    unfolding x(2) by (rule minus_one_fermat) (use p bn_prime_pos[OF p(1)] in \<open>simp_all add: bn_prime_def\<close>)
  moreover have "partly_reduced ?x ?p" using x bn_prime_pos[OF p(1)] by (simp add: partly_reduced_def)
  ultimately show ?thesis using bn_inverse_is_inverse[of ?x ?p] p by blast
qed

text \<open>C3. Square root modulo a prime that is 3 modulo 4 and in the range of the code: for every partly reduced x, square or not, bn_sqrt computes the fully reduced power (p + 1) / 4; and if Euler's criterion holds for x, the square of the result is x modulo the prime.\<close>

theorem bn_sqrt_is_root:
  assumes "partly_reduced x p" and "bn_prime p" and "bn_val p mod 4 = 3"
  shows "bn_val (bn_sqrt x p) = bn_val x ^ nat ((bn_val p + 1) div 4) mod bn_val p
    \<and> (bn_val x ^ nat ((bn_val p - 1) div 2) mod bn_val p = 1 \<longrightarrow> (bn_val (bn_sqrt x p))\<^sup>2 mod bn_val p = bn_val x mod bn_val p)"
  using bn_sqrt_correct(2)[OF assms(1,2)] bn_sqrt_squares[OF assms] by blast

theorem bn_sqrt_is_root_witness:
  "(bn_val (bn_sqrt bn_one (curve_prime secp256k1)))\<^sup>2 mod bn_val (curve_prime secp256k1) = 1"
  using bn_sqrt_is_root[of bn_one "curve_prime secp256k1"] secp256k1_ok secp256k1_mod4
  by (simp add: curve_ok_def bn_one_correct partly_reduced_def bn_prime_def)

text \<open>C4. Reduction: on any nine limbs, even not normalized ones, the partial reduction followed by the conditional subtraction is the remainder of the value.\<close>

theorem bn_mod_reduces:
  assumes "bn_wf x" and "bn_prime p"
  shows "bn_normalized (bn_mod (bn_fast_mod x p) p) \<and> bn_val (bn_mod (bn_fast_mod x p) p) = bn_val x mod bn_val p"
  using bn_mod_correct[OF bn_fast_mod_partly_reduced[OF assms] bn_prime_normalized[OF assms(2)]] bn_fast_mod_cong[OF assms]
  by simp

theorem bn_mod_reduces_witness:
  "bn_val (bn_mod (bn_fast_mod \<lparr>val = replicate 9 0xFFFFFFFF\<rparr> (curve_prime secp256k1)) (curve_prime secp256k1))
     = bn_val \<lparr>val = replicate 9 0xFFFFFFFF\<rparr> mod bn_val (curve_prime secp256k1)"
  using bn_mod_reduces[of "\<lparr>val = replicate 9 0xFFFFFFFF\<rparr>" "curve_prime secp256k1"] secp256k1_ok
  by (simp add: curve_ok_def bn_wf_def)

text \<open>C5. The linear operations modulo an odd prime: addition, subtraction, multiplication by a constant up to four and halving of reduced numbers each give the right residue.\<close>

theorem bn_modular_sums:
  assumes "partly_reduced a p" and "partly_reduced b p" and "bn_prime p" and "odd (bn_val p)" and "k \<le> 4"
  shows "bn_val (bn_addmod a b p) mod bn_val p = (bn_val a + bn_val b) mod bn_val p
    \<and> bn_val (bn_subtractmod a b p) mod bn_val p = (bn_val a - bn_val b) mod bn_val p
    \<and> bn_val (bn_mult_k a k p) mod bn_val p = (uint k * bn_val a) mod bn_val p
    \<and> (2 * bn_val (bn_mult_half a p)) mod bn_val p = bn_val a mod bn_val p"
proof -
  note a = partly_reducedD[OF assms(1)] and b = partly_reducedD[OF assms(2)]
  show ?thesis
    using bn_addmod_correct(2)[OF a(1) b(1) assms(3)] bn_subtractmod_cong[OF assms(1-3)] bn_mult_k_correct(2)[OF a(1) assms(5,3)]
      bn_mult_half_correct(2)[OF a(1) assms(3,4)] by simp
qed

theorem bn_modular_sums_witness:
  "bn_val (bn_addmod (px (curve_G secp256k1)) (py (curve_G secp256k1)) (curve_prime secp256k1)) mod bn_val (curve_prime secp256k1)
     = (bn_val (px (curve_G secp256k1)) + bn_val (py (curve_G secp256k1))) mod bn_val (curve_prime secp256k1)"
  using bn_modular_sums[of "px (curve_G secp256k1)" "curve_prime secp256k1" "py (curve_G secp256k1)" 4] secp256k1_ok
  by (simp add: curve_ok_def partly_reduced_def secp256k1_def bn_val_def)

text \<open>C6. Serialisation: writing a normalized number below 2^256 big endian and reading it back gives the number, writing any 32 bytes that were read gives the bytes, and the little-endian writer is the reversal of the big-endian one.\<close>

theorem bn_bytes_roundtrip:
  assumes "bn_normalized a" and "bn_val a < 2 ^ 256" and "length bs = 32"
  shows "bn_read_be (bn_write_be a) = a \<and> bn_write_be (bn_read_be bs) = bs \<and> bn_val (bn_read_be bs) = be_val bs
    \<and> bn_write_le a = rev (bn_write_be a) \<and> bn_val (bn_read_le bs) = le_val bs"
  using bn_read_write_be[OF assms(1,2)] bn_write_read_be[OF assms(3)] bn_read_be_correct[OF assms(3)]
    bn_write_le_rev bn_read_le_correct[OF assms(3)] by blast

theorem bn_bytes_roundtrip_witness:
  "bn_read_be (bn_write_be (curve_order nist256p1)) = curve_order nist256p1 \<and> bn_write_be (bn_read_be (map of_nat [0..<32])) = map of_nat [0..<32]"
  using bn_bytes_roundtrip[of "curve_order nist256p1" "map of_nat [0..<32]"] nist256p1_ok
  by (simp add: curve_ok_def bn_prime_def)

section \<open>TLV headers\<close>

text \<open>C7. TLV header parsing: on a readable buffer the parser returns 0 with tag t and length n exactly when the caller's length passes the bound check and the buffer starts with one of the encodings of the header (t, n); so it accepts nothing else and misses no encoding.\<close>

theorem tlv_header_iff:
  "gpc_tlv_get_tag m remain tag len = Some (0, t, n)
    \<longleftrightarrow> len \<le> word_of_int remain \<and> (\<exists>h r. h \<in> set (tlv_headers t n) \<and> m = h @ r)"
  by (rule gpc_tlv_get_tag_iff)

section \<open>Base32\<close>

text \<open>C8. Base32: for the RFC 4648 alphabet and for every custom alphabet of 32 distinct characters, decoding what the encoder wrote gives the input back, for every input length.\<close>

theorem base32_roundtrip:
  assumes "alphabet_ok a" and "base32_encode xs outlen a = Some (ys @ [0])" and "length xs \<le> outlen2"
  shows "base32_decode ys outlen2 (Some a) = Some xs"
  by (rule base32_decode_encode[OF assms])

theorem base32_roundtrip_witness:
  "base32_decode [74, 66, 85, 81] 2 (Some BASE32_ALPHABET_RFC4648) = Some [0x48, 0x69]"
proof (rule base32_roundtrip)
  show "base32_encode [0x48, 0x69] 5 BASE32_ALPHABET_RFC4648 = Some ([74, 66, 85, 81] @ [0])" by code_simp
qed simp_all

section \<open>Base58\<close>

text \<open>C9. Base58 round trip: for an alphabet and the table that inverts it, a successful base58_encode writes n characters with the final NUL, n fits the capacity, and base58_to_bin on the string returns the bytes right-aligned in its buffer together with their exact number, leading zero bytes included.\<close>

theorem base58_roundtrip:
  assumes "alphabet_pair digits dm" and "base58_encode b58sz bin digits = Some (Inr (out, n))"
    and "length bin \<le> binsz" and "0 < binsz"
  shows "length out = n \<and> n \<le> b58sz \<and> out = butlast out @ [0]
    \<and> base58_to_bin binsz (butlast out) digits dm = Some (replicate (binsz - length bin) 0 @ bin, length bin)"
  using base58_roundtrip_lemma[OF assms] by simp

lemma base58_hello: "base58_encode 16 [0, 104, 105] b58digits_ordered = Some (Inr ([49, 56, 119, 114, 0], 5))"
  by code_simp

theorem base58_roundtrip_witness:
  "base58_to_bin 5 [49, 56, 119, 114] b58digits_ordered b58digits_map = Some ([0, 0, 0, 104, 105], 3)"
  using base58_roundtrip[OF bitcoin_alphabet base58_hello, of 5] by (simp add: numeral_2_eq_2)

text \<open>C10. Base58 decoding: when base58_to_bin succeeds, every character after the leading zero characters is in the alphabet and the output bytes, of the full capacity, are the big-endian form of the base-58 number; the 32-bit word array with 64-bit carries loses nothing.\<close>

theorem base58_decodes_numbers:
  assumes "digits_map_ok dm" and "0 < binsz" and "base58_to_bin binsz b58 digits dm = Some (bin, n)"
  shows "(\<forall>x\<in>set (dropWhile (\<lambda>x. x = digits ! 0) b58). b58_valid dm x) \<and> length bin = binsz
    \<and> be_val bin = b58_num dm (dropWhile (\<lambda>x. x = digits ! 0) b58)"
  using base58_to_bin_correct[OF assms(1,2), of digits b58] assms(3) by (simp add: dropWhile_eq_drop)

theorem base58_decodes_numbers_witness:
  "be_val [0, 0, 0, 104, 105] = b58_num b58digits_map [56, 119, 114]"
proof -
  have "digits_map_ok b58digits_map" using bitcoin_alphabet by (simp add: alphabet_pair_def)
  moreover have "base58_to_bin 5 [49, 56, 119, 114] b58digits_ordered b58digits_map = Some ([0, 0, 0, 104, 105], 3)" by code_simp
  ultimately show ?thesis using base58_decodes_numbers[of b58digits_map 5] by (simp add: b58digits_ordered_def str_bytes_def)
qed

text \<open>C11. Base58 rejection: on characters of the alphabet base58_to_bin fails only when the number does not fit the buffer, or when the string starts with more zero characters than the buffer has room for.\<close>

theorem base58_rejects:
  assumes "digits_map_ok dm" and "0 < binsz" and "base58_to_bin binsz b58 digits dm = None"
    and "\<forall>x\<in>set (dropWhile (\<lambda>x. x = digits ! 0) b58). b58_valid dm x"
  shows "256 ^ binsz \<le> b58_num dm (dropWhile (\<lambda>x. x = digits ! 0) b58)
    \<or> (\<exists>bin. length bin = binsz \<and> be_val bin = b58_num dm (dropWhile (\<lambda>x. x = digits ! 0) b58)
         \<and> length (takeWhile (\<lambda>x. x = 0) bin) < length (takeWhile (\<lambda>x. x = digits ! 0) b58))"
  using base58_to_bin_correct[OF assms(1,2), of digits b58] assms(3,4) by (simp add: dropWhile_eq_drop)

theorem base58_rejects_witness:
  "256 \<le> b58_num b58digits_map [56, 119, 114]
    \<or> (\<exists>bin. length bin = 1 \<and> be_val bin = b58_num b58digits_map [56, 119, 114] \<and> length (takeWhile (\<lambda>x. x = 0) bin) < 1)"
proof -
  have "digits_map_ok b58digits_map" using bitcoin_alphabet by (simp add: alphabet_pair_def)
  moreover have "base58_to_bin 1 [49, 56, 119, 114] b58digits_ordered b58digits_map = None" by code_simp
  moreover have "\<forall>x\<in>set [56, 119, 114]. b58_valid b58digits_map x" by code_simp
  ultimately show ?thesis using base58_rejects[of b58digits_map 1 "[49, 56, 119, 114]" b58digits_ordered]
    by (simp add: b58digits_ordered_def str_bytes_def)
qed

text \<open>C12. Base58Check round trip: for any hash of at least four bytes and any capacity from the length of the payload to 128, decoding what the encoder wrote returns the payload and its length; only if payload and checksum consist of zero bytes the comparison of the leading zeros runs past the end of the decoded bytes, and there is no result (None). The alphabet and its table are arguments, the witness runs the Ripple ones.\<close>

theorem base58_check_roundtrip:
  assumes "alphabet_pair digits dm" and "4 \<le> length (hash data)"
    and "b58_encode_check digits hash data strsize = Some (n, str)" and "n \<noteq> 0" and "length data \<le> cap" and "cap \<le> 128"
  shows "b58_decode_check digits dm hash (butlast str) cap
    = (if \<forall>b\<in>set (data @ take 4 (hash data)). b = 0 then None else Some (length data, data))"
  by (rule b58_check_roundtrip[OF assms])

theorem base58_check_roundtrip_witness:
  "xrp_base58_decode_check (\<lambda>xs. take 4 (xs @ [1, 2, 3, 4])) (butlast (snd (the (xrp_base58_encode_check (\<lambda>xs. take 4 (xs @ [1, 2, 3, 4])) [0, 7] 20)))) 25
     = Some (2, [0, 7])"
proof -
  have e: "xrp_base58_encode_check (\<lambda>xs. take 4 (xs @ [1, 2, 3, 4])) [0, 7] 20 =
     Some (fst (the (xrp_base58_encode_check (\<lambda>xs. take 4 (xs @ [1, 2, 3, 4])) [0, 7] 20)), snd (the (xrp_base58_encode_check (\<lambda>xs. take 4 (xs @ [1, 2, 3, 4])) [0, 7] 20)))
     \<and> fst (the (xrp_base58_encode_check (\<lambda>xs. take 4 (xs @ [1, 2, 3, 4])) [0, 7] 20)) \<noteq> 0"
    by code_simp
  let ?h = "\<lambda>xs :: u8 list. take 4 (xs @ [1, 2, 3, 4])"
  have h: "4 \<le> length (?h [0, 7])" by simp
  show ?thesis
    using base58_check_roundtrip[OF ripple_alphabet h e[unfolded xrp_base58_encode_check_def, THEN conjunct1]
        e[unfolded xrp_base58_encode_check_def, THEN conjunct2], of 25]
    unfolding xrp_base58_decode_check_def xrp_base58_encode_check_def by simp
qed

section \<open>Monero Base58\<close>

text \<open>C13. Monero's block-wise Base58: decoding an encoded string returns the bytes, for every length that fits the capacity; the reported size is 0 for the empty string, and otherwise the capacity, not the number of decoded bytes.\<close>

theorem xmr_base58_roundtrip:
  assumes "xmr_base58_encode b58sz data = Some (n, c)" and "length data \<le> binsz"
  shows "xmr_base58_decode c binsz = Some (True, if data = [] then 0 else binsz, data)"
  using assms xmr_base58_roundtrip_lemma[OF assms(1) _ assms(2)] by (cases "data = []") (auto simp: xmr_base58_empty)

theorem xmr_base58_roundtrip_witness:
  "xmr_base58_decode (snd (the (xmr_base58_encode None [1, 2, 3, 4, 5, 6, 7, 8, 9, 10]))) 69 = Some (True, 69, [1, 2, 3, 4, 5, 6, 7, 8, 9, 10])"
proof -
  have "xmr_base58_encode None [1, 2, 3, 4, 5, 6, 7, 8, 9, 10] = Some (None, snd (the (xmr_base58_encode None [1, 2, 3, 4, 5, 6, 7, 8, 9, 10])))"
    by code_simp
  from xmr_base58_roundtrip[OF this, of 69] show ?thesis by simp
qed

section \<open>Cash addresses\<close>

text \<open>C14. Cash address round trip: for a prefix of 1 to 20 printable characters without capitals and a payload of 2 to 65 bytes, such that prefix, separator, the payload in 5-bit symbols and the 8 symbols of the checksum fit the 129 characters, encoding succeeds and decoding returns the payload: the regrouping into 5-bit symbols, its padding and the 40-bit checksum all agree.\<close>

theorem cash_addr_roundtrip:
  assumes "valid_prefix hrp" and "2 \<le> length data" and "length data \<le> 65" and "length hrp + 1 + (8 * length data + 4) div 5 + 8 \<le> 129"
  shows "\<exists>addr. cash_addr_encode hrp data = Some addr \<and> cash_addr_decode hrp addr = Some data"
  using cash_addr_decode_encoded[OF assms(1-3)] assms(4) by simp

theorem cash_addr_roundtrip_witness:
  "\<exists>addr. cash_addr_encode (str_bytes ''bitcoincash'') (0 # replicate 20 171) = Some addr
      \<and> cash_addr_decode (str_bytes ''bitcoincash'') addr = Some (0 # replicate 20 171)"
proof (rule cash_addr_roundtrip)
  show "valid_prefix (str_bytes ''bitcoincash'')" by code_simp
qed (simp_all add: str_bytes_def)

section \<open>Hash functions\<close>

text \<open>C15. Streaming of SHA-1, SHA-256 and SHA-512: initialising, updating with any sequence of byte strings (empty ones, partial and whole blocks in any mixture) and finishing gives the digest of their concatenation as the standard defines it: padding, big-endian words, message schedule, rounds, and the bit count modulo 2^64, for SHA-512 modulo 2^128 in two words. The one-shot functions compute the same digests, SHA-512/256 the first half of SHA-512 from its own initial value.\<close>

theorem sha_streaming:
  "fst (sha1_Final (foldl sha1_Update sha1_Init parts)) = sha1_fips (concat parts)
    \<and> fst (sha256_Final (foldl sha256_Update sha256_Init parts)) = sha256_fips (concat parts)
    \<and> fst (sha512_Final (foldl sha512_Update sha512_Init parts)) = sha512_fips sha512_initial_hash_value (concat parts)
    \<and> sha1_Raw msg = sha1_fips msg \<and> sha256_Raw msg = sha256_fips msg
    \<and> sha512_Raw msg = sha512_fips sha512_initial_hash_value msg
    \<and> sha512_256_Raw msg = take 32 (sha512_fips sha512_256_initial_hash_value msg)"
  by (simp add: sha1_stream sha256_stream sha512_stream sha1_Raw_fips sha256_Raw_fips sha512_Raw_fips sha512_256_Raw_fips)

text \<open>C16. The transforms compiled with SHA2_UNROLL_TRANSFORM, whose round macros rotate the register names instead of the registers, compute the same as the loops.\<close>

theorem sha_unrolled_equal:
  assumes "length st1 = 5" and "length st256 = 8" and "length st512 = 8"
  shows "sha1_Transform_unrolled st1 d = sha1_Transform st1 d
    \<and> sha256_Transform_unrolled st256 d = sha256_Transform st256 d
    \<and> sha512_Transform_unrolled st512 d' = sha512_Transform st512 d'"
  using assms by (simp add: sha1_unrolled sha256_unrolled sha512_unrolled)

theorem sha_unrolled_equal_witness:
  "sha256_Transform_unrolled sha256_initial_hash_value (replicate 16 0) = sha256_Transform sha256_initial_hash_value (replicate 16 0)"
  using sha_unrolled_equal[of sha1_initial_hash_value sha256_initial_hash_value sha512_initial_hash_value]
  by (simp add: sha1_initial_hash_value_def sha256_initial_hash_value_def sha512_initial_hash_value_def)

section \<open>Keyed hashes and key derivation\<close>

text \<open>C17. The message may arrive in any parts: Init, one Update per part and Final compute the HMAC of FIPS 198-1 (inner hash of the key masked with 0x36 and the message, outer hash of the key masked with 0x5c and the inner digest) of their concatenation, keys longer than a block being hashed first.\<close>

theorem hmac_streaming:
  "hmac_sha256_Final (foldl hmac_sha256_Update (hmac_sha256_Init key) parts) = hmac_spec 64 sha256_fips key (concat parts)
    \<and> hmac_sha512_Final (foldl hmac_sha512_Update (hmac_sha512_Init key) parts)
       = hmac_spec 128 (sha512_fips sha512_initial_hash_value) key (concat parts)"
  using sha256_hash.hmac_stream[of key parts] sha512_hash.hmac_stream[of key parts]
  by (simp add: hmac_sha256_Final_def hmac_sha256_Update_def hmac_sha256_Init_def
      hmac_sha512_Final_def hmac_sha512_Update_def hmac_sha512_Init_def) (simp add: sha256_hash_def sha512_hash_def)

text \<open>C18. The derived key is that of RFC 2898: the concatenation of the blocks, block i being the exclusive or of c iterated HMACs of the salt and the big-endian i, cut to the key length; whatever the uninitialised buffer of the local context holds.\<close>

theorem pbkdf2_derives_key:
  assumes "length junk = 64" and "length junk' = 128" and "length key < 2 ^ 32"
  shows "pbkdf2_hmac_sha256 junk pass salt c key = pbkdf2_spec (hmac_sha256 pass) 32 salt c (length key)
    \<and> pbkdf2_hmac_sha512 junk' pass salt c key = pbkdf2_spec (hmac_sha512 pass) 64 salt c (length key)"
  using assms by (simp add: pbkdf2_sha256_correct pbkdf2_sha512_correct)

theorem pbkdf2_derives_key_witness:
  "pbkdf2_hmac_sha256 (replicate 64 0) [1, 2] [3] 2 (replicate 40 0) = pbkdf2_spec (hmac_sha256 [1, 2]) 32 [3] 2 40"
  using pbkdf2_derives_key[of "replicate 64 0" "replicate 128 0" "replicate 40 0" "[1, 2]" "[3]" 2] by simp

section \<open>The wireless packet layer\<close>

text \<open>C19. Framing round trip: a message of 1 to 509 bytes that is wrapped into packets, each after the first behind its sequence number, is unpacked to the same message, whatever the header byte; both stay within their buffers.\<close>

theorem fido_roundtrip:
  assumes "msg \<noteq> []" and "length msg \<le> 509" and "length (concat (fido_packets header msg)) \<le> cap" and "length msg \<le> cap'"
  shows "\<exists>sent. wrapFidoApdu fido (Some cap) header msg = Ret (fido\<lparr>cmdHeader := header\<rparr>, sent) \<and> parseFidoApdu (Some cap') sent = Ret msg"
  using assms by (simp add: wrap_packets parse_packets)

theorem fido_roundtrip_witness:
  "\<exists>sent. wrapFidoApdu \<lparr>mRecvMsg = [], cmdHeader = 0, pkgSeq = 0, hasError = False\<rparr> (Some 2048) CMD_MSG (replicate 60 7)
      = Ret (\<lparr>mRecvMsg = [], cmdHeader = CMD_MSG, pkgSeq = 0, hasError = False\<rparr>, sent) \<and> parseFidoApdu (Some 60) sent = Ret (replicate 60 7)"
  using fido_roundtrip[of "replicate 60 7" CMD_MSG 2048 60 "\<lparr>mRecvMsg = [], cmdHeader = 0, pkgSeq = 0, hasError = False\<rparr>"]
  by (simp add: length_packets)



text \<open>C21. The sequence check. After a first packet with the expected header, any non-empty packets that are neither keep-alives nor error reports are all collected without an error exactly if their numbers are zeros followed by 1, 2, 3 and so on without gap up to at most 127; the zeros are any number, none included: that packet 0 is missing or repeated is not noticed, and any other deviation is an error. Against any sender, whatever is delivered in any order, the message collected in every reachable state is the concatenation of packets with such numbers.\<close>

theorem fido_sequence:
  assumes "header \<notin> {CMD_KEEP_ALIVE, CMD_ERROR}" and "3 < length p" and "p ! 0 = header"
    and "\<forall>q\<in>set qs. data_packet q \<and> q ! 0 \<noteq> CMD_ERROR"
  shows "(let f = fst (receive (fido_clear fido\<lparr>cmdHeader := header\<rparr>) (p # qs))
      in (\<not> hasError f \<longleftrightarrow> (\<exists>k n. n \<le> 127 \<and> map (\<lambda>q. q ! 0) qs = replicate k 0 @ map word_of_nat [1..<Suc n]))
         \<and> (\<not> hasError f \<longrightarrow> mRecvMsg f = concat (p # qs)))
    \<and> (accepted header g ps \<longrightarrow> mRecvMsg g = concat ps
         \<and> (\<exists>k n. n \<le> 127 \<and> map (\<lambda>q. q ! 0) (tl ps) = replicate k 0 @ map word_of_nat [1..<Suc n]))"
proof (intro conjI impI)
  show "let f = fst (receive (fido_clear fido\<lparr>cmdHeader := header\<rparr>) (p # qs))
      in (\<not> hasError f \<longleftrightarrow> (\<exists>k n. n \<le> 127 \<and> map (\<lambda>q. q ! 0) qs = replicate k 0 @ map word_of_nat [1..<Suc n]))
         \<and> (\<not> hasError f \<longrightarrow> mRecvMsg f = concat (p # qs))"
    using receive_sequence[OF assms, of fido] by (simp only: Let_def) blast
qed (use accepted_invariant in \<open>unfold in_sequence_def, blast+\<close>)

theorem fido_sequence_witness:
  "let f = fst (receive (fido_clear \<lparr>mRecvMsg = [], cmdHeader = 0, pkgSeq = 0, hasError = False\<rparr>\<lparr>cmdHeader := CMD_MSG\<rparr>)
      [[0x83, 0, 60, 5], [0, 7], [0, 7], [1, 8]])
   in \<not> hasError f \<and> mRecvMsg f = [0x83, 0, 60, 5, 0, 7, 0, 7, 1, 8]"
proof -
  have s: "map (\<lambda>q. q ! 0) [[0, 7], [0, 7], [1, 8 :: u8]] = replicate 2 0 @ map word_of_nat [1..<Suc 1]"
    by (simp add: numeral_2_eq_2)
  have "\<exists>k n. n \<le> 127 \<and> map (\<lambda>q. q ! 0) [[0, 7], [0, 7], [1, 8 :: u8]] = replicate k 0 @ map word_of_nat [1..<Suc n]"
    by (intro exI[of _ 2] exI[of _ 1] conjI s) simp
  then show ?thesis
    using fido_sequence[of CMD_MSG "[0x83, 0, 60, 5]" "[[0, 7], [0, 7], [1, 8]]" "\<lparr>mRecvMsg = [], cmdHeader = 0, pkgSeq = 0, hasError = False\<rparr>"]
    by (simp add: Let_def data_packet_def fido_consts)
qed

text \<open>C22. No undefined access in the unpacking of a received message that checkResponse calls complete. Whatever its length, the two stages of the parser read nothing outside it: with a temporary and a caller's buffer that hold what is written, no access is undefined. With the 512-byte temporary of parseFidoApdu and a caller's buffer of at least 509 bytes this is so for messages of at most 512 bytes.\<close>

theorem fido_parse_defined:
  assumes "snd (checkResponse fido) = Complete"
  shows "(length (mRecvMsg fido) \<le> c \<and> c \<le> cap + 3 \<longrightarrow>
        and_then (removePkgIndex (Some c) (mRecvMsg fido)) (removeCmdHeadAndStateCode (Some cap)) \<noteq> Undefined)
    \<and> (length (mRecvMsg fido) \<le> 512 \<and> 509 \<le> cap \<longrightarrow> parseFidoApdu (Some cap) (mRecvMsg fido) \<noteq> Undefined)"
  using complete_stages_defined[OF assms] complete_parse_defined[OF assms] by blast

theorem fido_parse_defined_witness:
  "parseFidoApdu (Some 509) [0x83, 0, 1, 9] \<noteq> Undefined"
  using fido_parse_defined[of "\<lparr>mRecvMsg = [0x83, 0, 1, 9], cmdHeader = 0x83, pkgSeq = 0, hasError = False\<rparr>" 512 509]
  by (simp add: checkResponse_def fido_consts CTOI_def)

text \<open>C23. A whole exchange: on a connected device that takes the command's packets and answers with the packets of a response of 1 to 2449 bytes, keep-alives between them, SendData returns exactly the response if the command has at most 1943 bytes, the response at most 509, and the caller's buffer holds it. Otherwise a buffer is overrun, for none of the lengths is checked: the 2048 bytes of sendMsg, the 512-byte temporary of parseFidoApdu, or the caller's buffer.\<close>

theorem ble_exchange:
  assumes "connected drv" and "still_connected drv" and "\<not> timed_out drv"
    and "send_apdu drv (concat (fido_packets CMD_MSG sendData)) = 0"
    and "filter data_packet (delivered drv) = fido_packets CMD_MSG resp"
    and "resp \<noteq> []" and "length resp \<le> 17 + 19 * 128"
  shows "snd (SendData drv fido sendData (Some cap))
    = (if length sendData \<le> 1943 \<and> length resp \<le> 509 \<and> length resp \<le> cap then Ret (Some resp) else Undefined)"
  using assms by (rule SendData_response)

theorem ble_exchange_witness:
  "snd (SendData \<lparr>connected = True, send_apdu = (\<lambda>_. 0), delivered = fido_packets CMD_MSG (replicate 600 1), still_connected = True, timed_out = False\<rparr>
     \<lparr>mRecvMsg = [], cmdHeader = 0, pkgSeq = 0, hasError = False\<rparr> [0, 0xA4, 4, 0] (Some 1024)) = Undefined"
proof -
  have "data_packet p" if "p \<in> set (fido_packets CMD_MSG (replicate 600 1))" for p
    using packets_data[OF _ that] by simp
  then have "filter data_packet (fido_packets CMD_MSG (replicate 600 1)) = fido_packets CMD_MSG (replicate 600 1)"
    by (simp add: filter_id_conv)
  then show ?thesis
    by (subst ble_exchange[where resp = "replicate 600 1"]) simp_all
qed

section \<open>Mnemonics\<close>

text \<open>C24. Mnemonic round trip: mnemonic_generate accepts exactly the strengths 128, 160, 192, 224 and 256 and encodes strength / 8 random bytes; mnemonic_from_data fails exactly when the entropy is not 16, 20, 24, 28 or 32 bytes long, and the phrase it makes otherwise is read back by mnemonic_to_entropy, through the word list of 2048 distinct words, to exactly that entropy, and passes the checksum test of mnemonic_check, whatever the uninitialised last byte of the bit array.\<close>

theorem mnemonic_roundtrip:
  "mnemonic_generate junk random strength = (if strength \<in> {128, 160, 192, 224, 256}
     then mnemonic_from_data junk (take (nat (strength div 8)) random) else None)
    \<and> (case mnemonic_from_data junk data of
          None \<Rightarrow> length data \<notin> {16, 20, 24, 28, 32}
        | Some m \<Rightarrow> length data \<in> {16, 20, 24, 28, 32} \<and> mnemonic_check m
            \<and> (\<exists>bits. mnemonic_to_entropy m = Some (bits, length data * 3 div 4 * 11) \<and> take (length data) bits = data))"
proof
  have "(strength mod 32 \<noteq> 0 \<or> strength < 128 \<or> 256 < strength) \<longleftrightarrow> strength \<notin> {128, 160, 192, 224, 256}"
    by (auto simp: strength_values)
  then show "mnemonic_generate junk random strength = (if strength \<in> {128, 160, 192, 224, 256}
     then mnemonic_from_data junk (take (nat (strength div 8)) random) else None)"
    by (simp add: mnemonic_generate_def)
  have "mnemonic_from_data junk data = None \<longleftrightarrow> length data \<notin> {16, 20, 24, 28, 32}"
    using data_lengths(4)[of junk data] by (auto simp: mnemonic_from_data_def Let_def)
  then show "case mnemonic_from_data junk data of
          None \<Rightarrow> length data \<notin> {16, 20, 24, 28, 32}
        | Some m \<Rightarrow> length data \<in> {16, 20, 24, 28, 32} \<and> mnemonic_check m
            \<and> (\<exists>bits. mnemonic_to_entropy m = Some (bits, length data * 3 div 4 * 11) \<and> take (length data) bits = data)"
    using mnemonic_roundtrip_bits[of junk data] by (cases "mnemonic_from_data junk data") (simp, simp, blast)
qed

text \<open>C25. The seed is that of BIP-39: PBKDF2 with HMAC-SHA-512 of the normalised phrase and the salt "mnemonic" followed by at most 256 bytes of the passphrase, in 2048 iterations that the code runs as sixteen updates of 128; the progress function is called with 0, 128, ..., 2048 of 2048.\<close>

theorem mnemonic_to_seed_derives:
  assumes "length junk = 128"
  shows "mnemonic_to_seed junk m passphrase =
    (pbkdf2_spec (hmac_sha512 (str_bytes (normalize_mnemonic m))) 64 (mnemonic_salt passphrase) 2048 64,
     map (\<lambda>i. (i * 128, 2048)) [0..<17])"
  using assms by (rule mnemonic_seed)

theorem mnemonic_to_seed_derives_witness:
  "fst (mnemonic_to_seed (replicate 128 0) ''zoo zoo'' ''x'')
    = pbkdf2_spec (hmac_sha512 (str_bytes (normalize_mnemonic ''zoo zoo''))) 64 (mnemonic_salt ''x'') 2048 64"
  using mnemonic_to_seed_derives[of "replicate 128 0" "''zoo zoo''" "''x''"] by simp

text \<open>C26. For every mnemonic that mnemonic_to_entropy accepts, mnemonic_to_mini_secret has undefined behaviour: pbkdf2_hmac_sha512_Final writes 64 bytes into its local array secret of 512 / 16 = 32 bytes.\<close>

theorem mini_secret_overflows:
  assumes "length junk = 128" and "mnemonic_to_entropy m = Some e"
  shows "mnemonic_to_mini_secret junk m passphrase = None"
  using assms by (rule mini_secret_overflow)

theorem mini_secret_overflows_witness:
  "\<exists>m e. mnemonic_to_entropy m = Some e \<and> mnemonic_to_mini_secret (replicate 128 0) m [] = None"
proof -
  obtain m where m: "mnemonic_from_data 0 (replicate 16 0) = Some m" by (simp add: mnemonic_from_data_def Let_def)
  then obtain e where "mnemonic_to_entropy m = Some e" using mnemonic_roundtrip_bits by blast
  with mini_secret_overflows[of "replicate 128 0" m e "[]"] show ?thesis by (intro exI[of _ m] exI[of _ e]) simp
qed

section \<open>Secure channel\<close>

text \<open>C27. The table-based AES-128 of cmac.c, with its key schedule computed round by round, is the cipher of FIPS 197, and AES_CMAC computes the CMAC of NIST SP 800-38B over it: subkeys by doubling in GF(2^128), complete and padded last block, the empty message too.\<close>

theorem cmac_standard:
  assumes "length key = 16"
  shows "(length data = 16 \<longrightarrow> AES__128 key data = aes_cipher key data)
    \<and> length (AES_CMAC key inp) = 16 \<and> be_word (AES_CMAC key inp) = cmac_spec (aes_word key) inp"
  using AES_spec[OF assms, of data] CMAC_spec[OF assms, of inp] by blast

theorem cmac_standard_witness:
  "AES__128 (replicate 16 1) (replicate 16 2) = aes_cipher (replicate 16 1) (replicate 16 2)
    \<and> be_word (AES_CMAC (replicate 16 1) [7]) = cmac_spec (aes_word (replicate 16 1)) [7]"
  using cmac_standard[of "replicate 16 1" "replicate 16 2" "[7]"] by (simp only: length_replicate refl simp_thms)

text \<open>C28. For every positive block size the search loop of pad80 ends in fewer steps than the block size, at the next multiple of it; the padded text is 0x80 and zeros longer, and unpad80 gives the text back.\<close>

theorem pad80_ends:
  assumes "0 < blocksize"
  shows "\<exists>k < blocksize. pad_loop blocksize (length text + 1) = length text + 1 + k
    \<and> pad80 text blocksize = text @ 0x80 # replicate k 0 \<and> length (pad80 text blocksize) mod blocksize = 0
    \<and> unpad80 (pad80 text blocksize) = Ret text"
proof -
  obtain k where k: "k < blocksize" "pad_loop blocksize (length text + 1) = length text + 1 + k" "(length text + 1 + k) mod blocksize = 0"
    using pad_loop_mult[OF assms, of "length text + 1"] by (elim exE conjE) (rule that)
  then have "pad80 text blocksize = text @ 0x80 # replicate k 0" by (simp add: pad80_def)
  then show ?thesis using k unpad80_pad80[OF assms, of "text"] by (intro exI[of _ k]) simp
qed

theorem pad80_ends_witness:
  "length (pad80 [1, 2, 3] 16) mod 16 = 0 \<and> unpad80 (pad80 [1, 2, 3] 16) = Ret [1, 2, 3]"
proof -
  obtain k where "length (pad80 [1, 2, 3] 16) mod 16 = 0" "unpad80 (pad80 [1, 2, 3] 16) = Ret [1, 2, 3]"
    using pad80_ends[of 16 "[1, 2, 3]", OF zero_less_numeral] by (elim exE conjE) (rule that)
  then show ?thesis by simp
qed

text \<open>C29. A whole exchange on the channel, for any AES whose decryption inverts its encryption: the command that leaves BuildSafeApdu is the header with the secure-messaging bit, the length, the encryption of the data under the vector made of the message counter and the first half of the chained MAC, which the builder keeps; the data can be decrypted from it; and the encryption of any response under the next counter, with its MAC over the kept chaining value, is accepted by ParseSafeApduResp, which returns exactly the response and advances the counter once.\<close>

theorem channel_exchange:
  assumes "scp03Ptr b = Some scp" and "scp11Ptr b = Some sk" and "keys_ok lib sk E D" and "length (apdu_data a) < 2 ^ 32"
  shows "\<exists>enc mac b'. mac = command_mac sk (mac_chain scp) a enc \<and> b' = b\<lparr>scp03Ptr := Some (macChaining mac scp)\<rparr>
    \<and> BuildSafeApdu lib b a = (b', Ret (command_head a @ length_field (word_of_nat (length enc + 8)) @ enc @ take 8 mac))
    \<and> scp03_decrypt lib (s_enc sk) (command_icv E (scp_counter scp)) enc = Ret (apdu_data a)
    \<and> (\<forall>resp. \<exists>renc. scp03_encrypt lib (s_enc sk) (response_icv E (scp_counter scp + 1)) resp = Ret renc
         \<and> (\<forall>cap \<ge> length renc. ParseSafeApduResp lib b' (renc @ take 8 (response_mac sk mac renc) @ [0x90, 0]) (Some cap)
              = (b'\<lparr>scp03Ptr := Some (incCounter (macChaining mac scp))\<rparr>, Ret (0x9000, Some resp))))"
proof -
  obtain enc where enc: "scp03_decrypt lib (s_enc sk) (command_icv E (scp_counter scp)) enc = Ret (apdu_data a)"
    "BuildSafeApdu lib b a = (b\<lparr>scp03Ptr := Some (macChaining (command_mac sk (mac_chain scp) a enc) scp)\<rparr>,
        Ret (command_head a @ length_field (word_of_nat (length enc + 8)) @ enc @ take 8 (command_mac sk (mac_chain scp) a enc)))"
    using BuildSafeApdu_sends[OF assms] by (elim exE conjE) (rule that)
  let ?mac = "command_mac sk (mac_chain scp) a enc"
  let ?b' = "b\<lparr>scp03Ptr := Some (macChaining ?mac scp)\<rparr>"
  have "\<exists>renc. scp03_encrypt lib (s_enc sk) (response_icv E (scp_counter scp + 1)) resp = Ret renc
         \<and> (\<forall>cap \<ge> length renc. ParseSafeApduResp lib ?b' (renc @ take 8 (response_mac sk ?mac renc) @ [0x90, 0]) (Some cap)
              = (?b'\<lparr>scp03Ptr := Some (incCounter (macChaining ?mac scp))\<rparr>, Ret (0x9000, Some resp)))" for resp
    using response_accepted[of ?b' "macChaining ?mac scp" sk lib E D resp] assms(2,3) by (simp add: macChaining_def)
  with enc show ?thesis by blast
qed

theorem channel_exchange_witness:
  "\<exists>b' msg. BuildSafeApdu \<lparr>aes_encrypt_key = \<lambda>_. Some id, aes_decrypt_key = \<lambda>_. Some id\<rparr>
      \<lparr>scp03Ptr = Some \<lparr>scp_counter = 1, mac_chain = replicate 16 0\<rparr>,
       scp11Ptr = Some \<lparr>s_enc = replicate 16 1, s_mac = replicate 16 2, s_rmac = replicate 16 3\<rparr>\<rparr>
      (SetApdu 0x80 0x50 0 0 2 (Some [1, 2]) 0) = (b', Ret msg) \<and> take 4 msg = [0x84, 0x50, 0, 0]"
proof -
  let ?lib = "\<lparr>aes_encrypt_key = \<lambda>_. Some id, aes_decrypt_key = \<lambda>_. Some id\<rparr> :: aes_lib"
  let ?sk = "\<lparr>s_enc = replicate 16 1, s_mac = replicate 16 2, s_rmac = replicate 16 3\<rparr> :: session_key"
  have "keys_ok ?lib ?sk id id" by (simp add: keys_ok_def block_ciphers_def)
  from channel_exchange[of "\<lparr>scp03Ptr = Some \<lparr>scp_counter = 1, mac_chain = replicate 16 0\<rparr>, scp11Ptr = Some ?sk\<rparr>"
      "\<lparr>scp_counter = 1, mac_chain = replicate 16 0\<rparr>" ?sk ?lib id id "SetApdu 0x80 0x50 0 0 2 (Some [1, 2]) 0", OF _ _ this]
  show ?thesis by (auto simp: SetApdu_def command_head_def)
qed

text \<open>C30. Whatever bytes arrive, ParseSafeApduResp returns normally only with the counter advanced by exactly one and the MAC chaining value unchanged; a status other than 9000 carries no data, and with status 9000 the message ends in the valid MAC of its data under the session key, and the returned data are its decryption.\<close>

theorem channel_authentic:
  assumes "scp03Ptr b = Some scp" and "scp11Ptr b = Some sk" and "keys_ok lib sk E D"
    and "ParseSafeApduResp lib b raw cap = (b', Ret (sw, r))"
  shows "b' = b\<lparr>scp03Ptr := Some (incCounter scp)\<rparr> \<and>
    (if sw \<noteq> 0x9000 then r = None
     else \<exists>enc dec. raw = enc @ take 8 (response_mac sk (mac_chain scp) enc) @ [0x90, 0]
       \<and> scp03_decrypt lib (s_enc sk) (response_icv E (scp_counter scp + 1)) enc = Ret dec
       \<and> r = map_option (\<lambda>_. dec) cap)"
  using assms by (rule ParseSafeApduResp_authentic)

theorem channel_authentic_witness:
  "\<exists>b'. ParseSafeApduResp \<lparr>aes_encrypt_key = \<lambda>_. Some id, aes_decrypt_key = \<lambda>_. Some id\<rparr>
      \<lparr>scp03Ptr = Some \<lparr>scp_counter = 1, mac_chain = []\<rparr>,
       scp11Ptr = Some \<lparr>s_enc = replicate 16 1, s_mac = replicate 16 2, s_rmac = replicate 16 3\<rparr>\<rparr>
      [0x69, 0x82] (Some 255) = (b', Ret (0x6982, None)) \<and> map_option scp_counter (scp03Ptr b') = Some 2"
proof -
  let ?lib = "\<lparr>aes_encrypt_key = \<lambda>_. Some id, aes_decrypt_key = \<lambda>_. Some id\<rparr> :: aes_lib"
  let ?sk = "\<lparr>s_enc = replicate 16 1, s_mac = replicate 16 2, s_rmac = replicate 16 3\<rparr> :: session_key"
  let ?b = "\<lparr>scp03Ptr = Some \<lparr>scp_counter = 1, mac_chain = []\<rparr>, scp11Ptr = Some ?sk\<rparr>"
  have k: "keys_ok ?lib ?sk id id" by (simp add: keys_ok_def block_ciphers_def)
  obtain b' where b': "ParseSafeApduResp ?lib ?b [0x69, 0x82] (Some 255) = (b', Ret (0x6982, None))"
    by (simp add: ParseSafeApduResp_def resp_decode_def Let_def)
  show ?thesis using b' channel_authentic[OF _ _ k b', of "\<lparr>scp_counter = 1, mac_chain = []\<rparr>"]
    by (simp add: incCounter_def)
qed

text \<open>C31. The undefined behaviour of ParseSafeApduResp, for usable keys and non-null pointers: exactly the messages of 8 or 9 bytes, for which decode computes an iterator before the start of the message, and the correctly authenticated empty response with status 9000, for which unpad80 reads the byte before its array.\<close>

theorem response_undefined:
  assumes "scp03Ptr b = Some scp" and "scp11Ptr b = Some sk" and "keys_ok lib sk E D"
  shows "snd (ParseSafeApduResp lib b raw cap) = Undefined \<longleftrightarrow>
    length raw \<in> {8, 9} \<or> raw = take 8 (response_mac sk (mac_chain scp) []) @ [0x90, 0]"
  using assms by (rule ParseSafeApduResp_undefined)

theorem response_undefined_witness:
  "snd (ParseSafeApduResp \<lparr>aes_encrypt_key = \<lambda>_. Some id, aes_decrypt_key = \<lambda>_. Some id\<rparr>
      \<lparr>scp03Ptr = Some \<lparr>scp_counter = 1, mac_chain = []\<rparr>,
       scp11Ptr = Some \<lparr>s_enc = replicate 16 1, s_mac = replicate 16 2, s_rmac = replicate 16 3\<rparr>\<rparr>
      [0, 0, 0, 0, 0, 0, 0x69, 0x82] (Some 255)) = Undefined"
  by (subst response_undefined[where E = id and D = id and scp = "\<lparr>scp_counter = 1, mac_chain = []\<rparr>"
      and sk = "\<lparr>s_enc = replicate 16 1, s_mac = replicate 16 2, s_rmac = replicate 16 3\<rparr>"]) (simp_all add: keys_ok_def block_ciphers_def)

section \<open>Elliptic curves\<close>

text \<open>C32. Addition of two points with different abscissas, for a curve with prime and coefficient in the supported range and a difference of abscissas for which Fermat's theorem holds: the sum has reduced coordinates, lies on the curve, and is the mirrored third intersection of the chord; the point at infinity is neutral.\<close>

theorem point_add_on_curve:
  assumes "curve_arith c" and "valid_point c P" and "valid_point c Q" and "\<not> point_is_infinity P" and "\<not> point_is_infinity Q"
    and "bn_val (px P) \<noteq> bn_val (px Q)" and "fermat c (bn_val (px Q) - bn_val (px P))"
  shows "valid_point c (point_add c P Q)
    \<and> (\<exists>l. bn_val (curve_prime c) dvd l * (bn_val (px Q) - bn_val (px P)) - (bn_val (py Q) - bn_val (py P))
         \<and> third_point c l (bn_val (px P)) (bn_val (px Q)) (bn_val (py P)) (point_add c P Q))
    \<and> point_add c point_set_infinity Q = Q \<and> point_add c P point_set_infinity = P"
  using point_add_chord[OF assms] chord_valid[OF assms] point_add_special(1,2)[OF assms(2-5)] by blast

theorem point_add_on_curve_witness:
  "valid_point (secp256k1\<lparr>curve_a := -1, curve_b := bn_one\<rparr>)
     (point_add (secp256k1\<lparr>curve_a := -1, curve_b := bn_one\<rparr>) \<lparr>px = bn_zero, py = bn_one\<rparr> \<lparr>px = bn_one, py = bn_one\<rparr>)"
proof -
  note s = sample_curve
  show ?thesis
    using point_add_on_curve[OF s(1) s(2,3) s(4,5)] bn_zero_correct bn_one_correct s(6) by simp
qed

text \<open>C33. Doubling of a finite point of a curve with prime and coefficient in the supported range: if the ordinate is zero the result is the point at infinity, the pair of zeros; otherwise, if Fermat's theorem holds for twice the ordinate, the result has reduced coordinates, lies on the curve, and is the mirrored second intersection of the tangent. The double of the point at infinity is the point at infinity.\<close>

theorem point_double_on_curve:
  assumes "curve_arith c" and "valid_point c P" and "\<not> point_is_infinity P" and "bn_val (py P) = 0 \<or> fermat c (2 * bn_val (py P))"
  shows "(if bn_val (py P) = 0 then point_double c P = point_set_infinity
     else valid_point c (point_double c P)
       \<and> (\<exists>l. bn_val (curve_prime c) dvd l * (2 * bn_val (py P)) - (3 * (bn_val (px P))\<^sup>2 + curve_a c)
            \<and> third_point c l (bn_val (px P)) (bn_val (px P)) (bn_val (py P)) (point_double c P)))
    \<and> point_double c point_set_infinity = point_set_infinity"
  using point_double_tangent[OF assms(1,2)] tangent_valid[OF assms(1,2)] point_double_special(1)[of c] point_double_special(2)[OF assms(3,2)] assms(4)
  by (cases "bn_val (py P) = 0") simp_all

theorem point_double_on_curve_witness:
  "valid_point (secp256k1\<lparr>curve_b := quarter\<rparr>) (point_double (secp256k1\<lparr>curve_b := quarter\<rparr>) \<lparr>px = bn_zero, py = half\<rparr>)"
proof -
  have "\<not> point_is_infinity \<lparr>px = bn_zero, py = half\<rparr>"
    using sample_curve2(2,3) by (simp add: valid_point_def point_infinity_iff)
  then show ?thesis using point_double_on_curve[OF sample_curve2(1,2)] sample_curve2(3,4) by simp
qed

text \<open>C34. The mixed addition in Jacobian coordinates computes the affine addition of two finite points which have different abscissas, or are equal with a nonzero ordinate so that the addition has to notice that it doubles: converting one of them with any random denominator, adding the other and converting back gives the same coordinates, limb for limb, as point_add. Fermat's theorem is used for the denominator and for the difference of the abscissas or twice the ordinate.\<close>

theorem jacobian_add_agrees:
  assumes "curve_arith c" and "valid_point c P" and "valid_point c Q" and "\<not> point_is_infinity P" and "\<not> point_is_infinity Q"
    and "curve_to_jacobian Q (curve_prime c) rnd = Some (J, rnd')" and "fermat c (bn_val (jz J))"
    and "P = Q \<and> bn_val (py Q) \<noteq> 0 \<and> fermat c (2 * bn_val (py Q))
       \<or> bn_val (px P) \<noteq> bn_val (px Q) \<and> fermat c (bn_val (px Q) - bn_val (px P))"
  shows "jacobian_to_curve (point_jacobian_add P J c) (curve_prime c) = point_add c P Q"
  by (rule jacobian_add_finite[OF assms])

theorem jacobian_add_agrees_witness:
  "\<exists>J. curve_to_jacobian \<lparr>px = bn_one, py = bn_one\<rparr> (curve_prime secp256k1) [1, 0, 0, 0, 0, 0, 0, 0, 0] = Some (J, [])
    \<and> jacobian_to_curve (point_jacobian_add \<lparr>px = bn_zero, py = bn_one\<rparr> J (secp256k1\<lparr>curve_a := -1, curve_b := bn_one\<rparr>)) (curve_prime secp256k1)
      = point_add (secp256k1\<lparr>curve_a := -1, curve_b := bn_one\<rparr>) \<lparr>px = bn_zero, py = bn_one\<rparr> \<lparr>px = bn_one, py = bn_one\<rparr>"
proof -
  note s = sample_curve
  obtain J where J: "curve_to_jacobian \<lparr>px = bn_one, py = bn_one\<rparr> (curve_prime secp256k1) [1, 0, 0, 0, 0, 0, 0, 0, 0] = Some (J, [])"
    "jz J = bn_one"
    using sample_random by (auto simp: curve_to_jacobian_def Let_def)
  show ?thesis
    using jacobian_add_agrees[OF s(1) s(2,3) s(4,5), of "[1, 0, 0, 0, 0, 0, 0, 0, 0]" J "[]"] J bn_zero_correct bn_one_correct s(6)
    by (intro exI[of _ J]) simp
qed

text \<open>C35. Doubling in Jacobian coordinates computes the affine doubling, for any random denominator with which the result has an invertible one.\<close>

theorem jacobian_double_agrees:
  assumes "curve_arith c" and "valid_point c Q" and "bn_val (py Q) \<noteq> 0" and "curve_to_jacobian Q (curve_prime c) rnd = Some (J, rnd')"
    and "fermat c (2 * bn_val (py Q))" and "fermat c (bn_val (py Q) * bn_val (jz J) ^ 4)"
  shows "jacobian_to_curve (point_jacobian_double J c) (curve_prime c) = point_double c Q"
  using assms by (rule jacobian_double_affine)

theorem jacobian_double_agrees_witness:
  "\<exists>J. curve_to_jacobian \<lparr>px = bn_zero, py = half\<rparr> (curve_prime secp256k1) [0x55f559, 0xca5b2cf, 0x349c7956, 0x1a4f100, 0x1566b491, 0x245fe2b3, 0x2702a365, 0x14ded386, 0xf7a0] = Some (J, [])
    \<and> jacobian_to_curve (point_jacobian_double J (secp256k1\<lparr>curve_b := quarter\<rparr>)) (curve_prime secp256k1)
      = point_double (secp256k1\<lparr>curve_b := quarter\<rparr>) \<lparr>px = bn_zero, py = half\<rparr>"
proof -
  let ?c = "secp256k1\<lparr>curve_b := quarter\<rparr>"
  obtain J where J: "curve_to_jacobian \<lparr>px = bn_zero, py = half\<rparr> (curve_prime secp256k1) [0x55f559, 0xca5b2cf, 0x349c7956, 0x1a4f100, 0x1566b491, 0x245fe2b3, 0x2702a365, 0x14ded386, 0xf7a0] = Some (J, [])" "jz J = fourth_root"
    using sample_random2 by (auto simp: curve_to_jacobian_def Let_def)
  show ?thesis
    using jacobian_double_agrees[OF sample_curve2(1,2) _ _ _ _, of "[0x55f559, 0xca5b2cf, 0x349c7956, 0x1a4f100, 0x1566b491, 0x245fe2b3, 0x2702a365, 0x14ded386, 0xf7a0]" J "[]"] sample_curve2(3,4) J sample_fourth_root
    by (intro exI[of _ J]) simp
qed

text \<open>C36. Every public key that ecdsa_read_pubkey accepts, in either format, is a point of the curve with reduced coordinates, not the point at infinity, and its abscissa is the number in the key.\<close>

theorem pubkey_validated:
  assumes "curve_arith c" and "length key = (if key ! 0 = 4 then 65 else 33)" and "ecdsa_read_pubkey (Some c) key = Some P"
  shows "valid_point c P \<and> \<not> point_is_infinity P \<and> px P = bn_read_be (take 32 (drop 1 key))"
  using assms by (rule read_pubkey_valid)

theorem pubkey_validated_witness:
  "valid_point secp256k1 (curve_G secp256k1)
    \<and> px (curve_G secp256k1) = bn_read_be (take 32 (drop 1 (4 # bn_write_be (px (curve_G secp256k1)) @ bn_write_be (py (curve_G secp256k1)))))"
  using pubkey_validated[OF secp256k1_arith _ read_valid_point(1)[OF secp256k1_arith base_point_valid]] by simp

text \<open>C37. Compression round trip, for a prime that is 3 modulo 4: a point of the curve with nonzero ordinate for which Euler's criterion holds is recovered exactly from its compressed form, the parity choosing the root, and from its uncompressed form, and ecdsa_uncompress_pubkey turns the first into the second.\<close>

theorem pubkey_roundtrip:
  assumes "curve_arith c" and "bn_val (curve_prime c) mod 4 = 3" and "valid_point c P" and "bn_val (py P) \<noteq> 0" and "euler c (bn_val (py P))"
  shows "ecdsa_read_pubkey (Some c) (compress_coords P) = Some P
    \<and> ecdsa_read_pubkey (Some c) (4 # bn_write_be (px P) @ bn_write_be (py P)) = Some P
    \<and> ecdsa_uncompress_pubkey (Some c) (compress_coords P) = Some (4 # bn_write_be (px P) @ bn_write_be (py P))"
proof -
  have "\<not> point_is_infinity P" using assms(3,4) by (simp add: valid_point_def point_infinity_iff)
  from read_valid_point[OF assms(1,3) this] assms show ?thesis by (simp add: ecdsa_uncompress_pubkey_def)
qed

theorem pubkey_roundtrip_witness:
  "ecdsa_uncompress_pubkey (Some (secp256k1\<lparr>curve_a := -1, curve_b := bn_one\<rparr>)) (compress_coords \<lparr>px = bn_one, py = bn_one\<rparr>)
    = Some (4 # bn_write_be bn_one @ bn_write_be bn_one)"
proof -
  have "euler (secp256k1\<lparr>curve_a := -1, curve_b := bn_one\<rparr>) 1" using secp256k1_prime by (simp add: euler_def)
  then show ?thesis using pubkey_roundtrip[OF sample_curve(1) _ sample_curve(3)] secp256k1_mod4 bn_one_correct by simp
qed

text \<open>C38. A signature of two nonzero numbers has a DER form of at most 72 bytes, from which ecdsa_der_to_sig gives exactly the signature back. The other reader, der_to_ecdsa_sig, does so only when both encoded integers have at least 32 bytes: with a shorter first one it reads far outside the form, with a shorter second one it returns -192 and half a signature.\<close>

theorem der_roundtrip:
  assumes "length r = 32" and "length s = 32" and "nonzero r" and "nonzero s"
  shows "\<exists>der. ecdsa_sig_to_der (r @ s) = Ret der \<and> length der = 6 + length (der_bytes r) + length (der_bytes s) \<and> length der \<le> 72
    \<and> ecdsa_der_to_sig der = Ret (Some (r @ s))
    \<and> der_to_ecdsa_sig der = (if length (der_bytes r) < 32 then Undefined
        else if length (der_bytes s) < 32 then Ret (- 192, r) else Ret (64, r @ s))"
  using sig_to_der_form[OF assms] der_to_sig_form[OF assms] der_to_ecdsa_sig_form[OF assms]
    length_der_bytes[OF assms(1,3)] length_der_bytes[OF assms(2,4)]
  by (intro exI[of _ "der_form r s"]) (simp add: der_form_def)

theorem der_roundtrip_witness:
  "\<exists>der. ecdsa_sig_to_der (replicate 32 1 @ 0 # replicate 31 1) = Ret der \<and> ecdsa_der_to_sig der = Ret (Some (replicate 32 1 @ 0 # replicate 31 1))
    \<and> der_to_ecdsa_sig der = Ret (- 192, replicate 32 1)"
  using der_roundtrip[of "replicate 32 1" "0 # replicate 31 1"] by (auto simp: der_bytes_def Let_def word_le_nat_alt)

end
